(* ===== verification/Ppnt_Prelude.thy ===== *)
theory Ppnt_Prelude
  imports Main "HOL-Library.Word" "HOL-Library.Monad_Syntax"
begin

text \<open>
  Shared vocabulary of the development: the widths of the machine integers, the part of the
  C++ standard library that the sources use on strings and numbers (\<open>string_view::find\<close>,
  \<open>rfind\<close>, \<open>find_first_of\<close>, \<open>starts_with\<close>, \<open>to_string\<close>, \<open>from_chars\<close>), the
  error values of \<open>Result\<close>, and the generic lemmas on lists that the components use.

  A position returned by a search is an \<open>option\<close>: \<open>None\<close> is \<open>npos\<close>. A string is a
  list of characters; a \<open>uint8_t\<close> is an \<open>8 word\<close>.
\<close>

unbundle bit_operations_syntax

named_theorems find_simps \<open>searching in lists\<close>
named_theorems byte_simps \<open>splitting machine words into bytes and joining them again\<close>

type_synonym u8 = "8 word"
type_synonym u16 = "16 word"
type_synonym u32 = "32 word"
type_synonym u64 = "64 word"

section \<open>Errors\<close>

text \<open>
  \<open>std::errc\<close> as far as the sources construct it, and \<open>ppnt::Error\<close>: a code and a message.
  A code that comes from the operating system is \<open>Errno\<close>, or \<open>System\<close> in the category of the system. The source location and the
  cause are left out here.
\<close>

datatype errc =
    invalid_argument | bad_message | io_error | broken_pipe | not_connected
  | connection_aborted | address_not_available | resource_unavailable_try_again
  | not_enough_memory | destination_address_required | operation_canceled | no_message
  | interrupted | protocol_error | wrong_protocol_type | Errno int | System int

text \<open>The category and the value of a code: on Linux the values are those of \<open>errno\<close>. Codes are compared by both.\<close>

definition errc_category :: "errc \<Rightarrow> string" where
  "errc_category c = (case c of System _ \<Rightarrow> ''system'' | _ \<Rightarrow> ''generic'')"

primrec errc_value :: "errc \<Rightarrow> int" where
  "errc_value invalid_argument = 22"
| "errc_value bad_message = 74"
| "errc_value io_error = 5"
| "errc_value broken_pipe = 32"
| "errc_value not_connected = 107"
| "errc_value connection_aborted = 103"
| "errc_value address_not_available = 99"
| "errc_value resource_unavailable_try_again = 11"
| "errc_value not_enough_memory = 12"
| "errc_value destination_address_required = 89"
| "errc_value operation_canceled = 125"
| "errc_value no_message = 42"
| "errc_value interrupted = 4"
| "errc_value protocol_error = 71"
| "errc_value wrong_protocol_type = 91"
| "errc_value (Errno n) = n"
| "errc_value (System n) = n"

definition same_code :: "errc \<Rightarrow> errc \<Rightarrow> bool" where
  "same_code a b \<longleftrightarrow> errc_category a = errc_category b \<and> errc_value a = errc_value b"

datatype ppnt_error = Error (err_code: errc) (err_msg: string)

type_synonym 'a result = "ppnt_error + 'a"

text \<open>The end of a piece of code that may also call \<open>std::terminate\<close> or have undefined behaviour.\<close>

datatype 'a outcome = Ok 'a | Terminated | Undefined

section \<open>Searching\<close>

primrec find_index :: "('a \<Rightarrow> bool) \<Rightarrow> 'a list \<Rightarrow> nat option" where
  "find_index P [] = None"
| "find_index P (x # xs) = (if P x then Some 0 else map_option Suc (find_index P xs))"

definition rfind_index :: "('a \<Rightarrow> bool) \<Rightarrow> 'a list \<Rightarrow> nat option" where
  "rfind_index P xs = map_option (\<lambda>i. length xs - Suc i) (find_index P (rev xs))"

definition starts_with :: "'a list \<Rightarrow> 'a list \<Rightarrow> bool" where
  "starts_with p xs = (take (length p) xs = p)"

lemma find_index_None_iff [find_simps]: "find_index P xs = None \<longleftrightarrow> (\<forall>x\<in>set xs. \<not> P x)"
  by (induction xs) auto

lemma find_index_SomeD:
  "find_index P xs = Some i \<Longrightarrow> i < length xs \<and> P (xs ! i) \<and> (\<forall>x\<in>set (take i xs). \<not> P x)"
  by (induction xs arbitrary: i) (fastforce split: if_splits simp: nth_Cons')+

lemma find_index_append_hit [find_simps]:
  "\<forall>x\<in>set xs. \<not> P x \<Longrightarrow> P y \<Longrightarrow> find_index P (xs @ y # ys) = Some (length xs)"
  by (induction xs) auto

lemma find_index_append_miss [find_simps]:
  "\<forall>x\<in>set xs. \<not> P x \<Longrightarrow> find_index P (xs @ ys) = map_option ((+) (length xs)) (find_index P ys)"
proof (induction xs)
  case Nil
  then show ?case by (simp add: option.map_ident)
next
  case (Cons x xs)
  then show ?case by (simp add: option.map_comp comp_def)
qed

lemma find_index_split:
  assumes "find_index P xs = Some i"
  obtains ys z zs where "xs = ys @ z # zs" "P z" "\<forall>x\<in>set ys. \<not> P x" "length ys = i"
proof
  note D = find_index_SomeD [OF assms]
  show "xs = take i xs @ xs ! i # drop (Suc i) xs"
    using D by (simp add: id_take_nth_drop)
  show "P (xs ! i)" "\<forall>x\<in>set (take i xs). \<not> P x" "length (take i xs) = i"
    using D by auto
qed

lemma rfind_index_None_iff [find_simps]: "rfind_index P xs = None \<longleftrightarrow> (\<forall>x\<in>set xs. \<not> P x)"
  by (simp add: rfind_index_def find_index_None_iff)

lemma rfind_index_append_hit [find_simps]:
  assumes "\<forall>x\<in>set ys. \<not> P x" "P y"
  shows "rfind_index P (xs @ y # ys) = Some (length xs)"
proof -
  have "find_index P (rev ys @ y # rev xs) = Some (length (rev ys))"
    using assms by (intro find_index_append_hit) auto
  then show ?thesis by (simp add: rfind_index_def)
qed

lemma rfind_index_split:
  assumes "rfind_index P xs = Some i"
  obtains ys z zs where "xs = ys @ z # zs" "P z" "\<forall>x\<in>set zs. \<not> P x" "length ys = i"
proof -
  from assms obtain j where j: "find_index P (rev xs) = Some j" "i = length xs - Suc j"
    by (auto simp: rfind_index_def)
  from j(1) obtain ys z zs where s: "rev xs = ys @ z # zs" "P z" "\<forall>x\<in>set ys. \<not> P x" "length ys = j"
    by (rule find_index_split)
  from s(1) have "xs = rev zs @ z # rev ys"
    by (metis append_Cons append_Nil append_assoc rev.simps(2) rev_append rev_rev_ident)
  with s j(2) show thesis by (intro that [of "rev zs" z "rev ys"]) auto
qed

lemma starts_with_iff [find_simps]: "starts_with p xs \<longleftrightarrow> (\<exists>ys. xs = p @ ys)"
  unfolding starts_with_def by (metis append_eq_conv_conj)

section \<open>Characters and bytes\<close>

definition byte_of_char :: "char \<Rightarrow> u8" where
  "byte_of_char c = of_char c"

definition char_of_byte :: "u8 \<Rightarrow> char" where
  "char_of_byte b = char_of (unat b)"

lemma unat_byte_of_char: "unat (byte_of_char c) = of_char c"
proof -
  have "unat (of_nat (of_char c) :: u8) = of_char c mod 256"
    by (simp add: unat_of_nat)
  then show ?thesis by (simp add: byte_of_char_def of_nat_of_char)
qed

lemma char_of_byte_of_char [simp]: "char_of_byte (byte_of_char c) = c"
  by (simp add: char_of_byte_def unat_byte_of_char)

lemma byte_of_char_of_byte [simp]: "byte_of_char (char_of_byte b) = b"
proof -
  have "unat b < 256" using unsigned_less [of b, where ?'a = nat] by simp
  then have "unat (byte_of_char (char_of_byte b)) = unat b"
    by (simp add: unat_byte_of_char char_of_byte_def)
  then show ?thesis by (simp only: word_unat_eq_iff)
qed

lemma unat_byte_less [simp]: "unat (b :: u8) < 256"
  using unsigned_less [of b, where ?'a = nat] by simp

text \<open>A fact about one byte, by looking at all 256 of them.\<close>

lemma byte_all:
  assumes "list_all (\<lambda>n. P (of_nat n :: u8)) [0..<256]"
  shows "P a"
proof -
  have "unat a \<in> set [0..<256]" by simp
  with assms have "P (of_nat (unat a))" unfolding list_all_iff by blast
  then show ?thesis by simp
qed

lemma unat_take_byte: "unat (take_bit n (a :: u8)) = unat a mod 2 ^ n"
  by (simp only: unsigned_take_bit_eq) (simp add: take_bit_eq_mod)

lemma unat_drop_byte: "unat (drop_bit n (a :: u8)) = unat a div 2 ^ n"
proof -
  have "take_bit 8 (unat a) = unat a" by (simp add: take_bit_eq_mod)
  then show ?thesis by (simp only: unsigned_drop_bit_eq) (simp add: drop_bit_eq_div)
qed

lemma unat_push_byte: "unat (push_bit n (a :: u8)) = unat a * 2 ^ n mod 256"
  by (simp only: unsigned_push_bit_eq) (simp add: push_bit_eq_mult take_bit_eq_mod)

lemma unat_add_byte: "unat (a + b) = (unat a + unat b) mod 256" for a b :: u8
  by (simp add: unat_word_ariths)

lemma bit_byte_less: "bit (a :: u8) n \<Longrightarrow> n < 8"
  by (drule bit_imp_le_length) simp

section \<open>Decimal numbers\<close>

definition digit_char :: "nat \<Rightarrow> char" where
  "digit_char d = char_of (48 + d)"

definition digit_val :: "char \<Rightarrow> nat" where
  "digit_val c = of_char c - 48"

definition is_digit :: "char \<Rightarrow> bool" where
  "is_digit c \<longleftrightarrow> 48 \<le> (of_char c :: nat) \<and> (of_char c :: nat) \<le> 57"

fun nat_digits :: "nat \<Rightarrow> string" where
  "nat_digits n = (if n < 10 then [digit_char n] else nat_digits (n div 10) @ [digit_char (n mod 10)])"

declare nat_digits.simps [simp del]

text \<open>\<open>std::to_string\<close> on a signed integer, also what \<open>std::format\<close> prints for it.\<close>

definition to_string_int :: "int \<Rightarrow> string" where
  "to_string_int i = (if i < 0 then ''-'' @ nat_digits (nat (- i)) else nat_digits (nat i))"

definition digits_value :: "string \<Rightarrow> nat" where
  "digits_value ds = foldl (\<lambda>n c. 10 * n + digit_val c) 0 ds"

datatype from_chars_result = FC_invalid | FC_out_of_range | FC_ok int

text \<open>
  \<open>std::from_chars\<close> into an \<open>int\<close>, base 10: an optional minus sign and the longest run of
  digits; no digit is \<open>invalid_argument\<close>, a value that does not fit is
  \<open>result_out_of_range\<close>. What follows the digits is not looked at.
\<close>

definition from_chars_int :: "string \<Rightarrow> from_chars_result" where
  "from_chars_int s =
     (let neg = starts_with ''-'' s;
          ds = takeWhile is_digit (if neg then drop 1 s else s);
          v = (if neg then - int (digits_value ds) else int (digits_value ds))
      in if ds = [] then FC_invalid
         else if v < - (2 ^ 31) \<or> 2 ^ 31 \<le> v then FC_out_of_range
         else FC_ok v)"

lemma of_char_digit_char [simp]: "d < 10 \<Longrightarrow> (of_char (digit_char d) :: nat) = 48 + d"
  by (simp add: digit_char_def)

lemma is_digit_digit_char [simp]: "d < 10 \<Longrightarrow> is_digit (digit_char d)"
  by (simp add: is_digit_def)

lemma digit_val_digit_char [simp]: "d < 10 \<Longrightarrow> digit_val (digit_char d) = d"
  by (simp add: digit_val_def)

lemma digits_value_snoc: "digits_value (ds @ [c]) = 10 * digits_value ds + digit_val c"
  by (simp add: digits_value_def)

lemma nat_digits_all: "\<forall>c\<in>set (nat_digits n). is_digit c"
  by (induction n rule: nat_digits.induct) (subst nat_digits.simps, auto)

lemma nat_digits_nonempty [simp]: "nat_digits n \<noteq> []"
  by (subst nat_digits.simps) simp

lemma digits_value_nat_digits [simp]: "digits_value (nat_digits n) = n"
proof (induction n rule: nat_digits.induct)
  case (1 n)
  show ?case
  proof (cases "n < 10")
    case True
    then show ?thesis by (subst nat_digits.simps) (simp add: digits_value_def)
  next
    case False
    with "1.IH" show ?thesis
      by (subst nat_digits.simps) (simp add: digits_value_snoc)
  qed
qed

lemma nat_digits_head: "starts_with ''-'' (nat_digits n @ r) = False"
proof -
  obtain c cs where "nat_digits n = c # cs" by (cases "nat_digits n") auto
  moreover have "is_digit c" using nat_digits_all [of n] calculation by simp
  moreover have "\<not> is_digit (CHR ''-'')" by (simp add: is_digit_def)
  ultimately show ?thesis by (auto simp: starts_with_def)
qed

lemma takeWhile_digits:
  "r = [] \<or> \<not> is_digit (hd r) \<Longrightarrow> takeWhile is_digit (nat_digits n @ r) = nat_digits n"
  using nat_digits_all [of n] by (subst takeWhile_append2) (cases r; auto)+

text \<open>Printing and reading back a number that an \<open>int\<close> can hold.\<close>

lemma from_chars_to_string:
  assumes "- (2 ^ 31) \<le> i" "i < 2 ^ 31" "r = [] \<or> \<not> is_digit (hd r)"
  shows "from_chars_int (to_string_int i @ r) = FC_ok i"
proof (cases "i < 0")
  case True
  then show ?thesis using assms takeWhile_digits [OF assms(3), of "nat (- i)"]
    by (simp add: from_chars_int_def to_string_int_def starts_with_def Let_def)
next
  case False
  then show ?thesis using assms takeWhile_digits [OF assms(3), of "nat i"]
    by (simp add: from_chars_int_def to_string_int_def nat_digits_head Let_def)
qed

section \<open>Owners\<close>

text \<open>A map from owners to what they own is injective when nothing has two owners.\<close>

definition inj_map :: "('a \<Rightarrow> 'b option) \<Rightarrow> bool" where
  "inj_map m \<longleftrightarrow> (\<forall>a b x. m a = Some x \<longrightarrow> m b = Some x \<longrightarrow> a = b)"

lemma inj_mapD: "inj_map m \<Longrightarrow> m a = Some x \<Longrightarrow> m b = Some x \<Longrightarrow> a = b"
  by (auto simp: inj_map_def)

lemma inj_map_empty [simp]: "inj_map (\<lambda>_. None)"
  by (simp add: inj_map_def)

lemma inj_map_del: "inj_map m \<Longrightarrow> inj_map (m(a := None))"
  by (auto simp: inj_map_def)

lemma inj_map_new: "inj_map m \<Longrightarrow> x \<notin> ran m \<Longrightarrow> inj_map (m(a \<mapsto> x))"
  by (auto simp: inj_map_def ran_def)

lemma inj_map_take: "inj_map m \<Longrightarrow> m i = None \<Longrightarrow> inj_map (m(i := m j, j := None))"
  by (auto simp: inj_map_def)

lemma ran_del: "inj_map m \<Longrightarrow> ran (m(a := None)) = ran m - set_option (m a)"
  by (auto simp: inj_map_def ran_def)

lemma ran_take: "m i = None \<Longrightarrow> i \<noteq> j \<Longrightarrow> ran (m(i := m j, j := None)) = ran m"
  by (auto simp: ran_def) (metis option.distinct(1))

section \<open>Sequences of events\<close>

text \<open>
  Interleavings are lists of events: a step changes the state or is not possible, and a run takes the steps in turn. What every step keeps,
  also of the events so far, every run keeps.
\<close>

locale event_system =
  fixes step :: "'e \<Rightarrow> 's \<Rightarrow> 's option"
    and run :: "'e list \<Rightarrow> 's \<Rightarrow> 's option"
  assumes run_Nil: "run [] s = Some s"
    and run_Cons: "run (e # es) s = Option.bind (step e s) (run es)"
begin

lemma run_append: "run (es @ fs) s = Option.bind (run es s) (run fs)"
  by (induction es arbitrary: s) (simp_all add: run_Nil run_Cons split: Option.bind_split)

lemma run_snocE:
  assumes "run (es @ [e]) s = Some t"
  obtains u where "run es s = Some u" "step e u = Some t"
  using assms by (auto simp: run_append run_Nil run_Cons split: Option.bind_splits)

lemma run_history:
  assumes "run es s = Some t" "I [] s" "\<And>h e u v. run h s = Some u \<Longrightarrow> step e u = Some v \<Longrightarrow> I h u \<Longrightarrow> I (h @ [e]) v"
  shows "I es t"
  using assms(1)
proof (induction es arbitrary: t rule: rev_induct)
  case Nil
  then show ?case using assms(2) by (simp add: run_Nil)
next
  case (snoc e es)
  then obtain u where "run es s = Some u" "step e u = Some t" by (elim run_snocE)
  then show ?case by (intro assms(3) snoc.IH)
qed

lemma run_invariant:
  assumes "run es s = Some t" "I s" "\<And>e u v. step e u = Some v \<Longrightarrow> I u \<Longrightarrow> I v"
  shows "I t"
  using assms(1, 2) by (rule run_history [where I = "\<lambda>_. I"]) (rule assms(3))

end

end
