(* ===== verification/Util.thy ===== *)
theory Util
  imports Ppnt_Prelude
begin

text \<open>
  Model of \<^verbatim>\<open>ppnt-common/src/util.ixx\<close> and \<^verbatim>\<open>ppnt-common/src/util.cpp\<close>: case-insensitive
  comparison and hashing of ASCII strings (the keys of every header table), and the Base64
  codec that builds the proxy credentials.

  The Base64 loops count an \<open>int\<close> down from the size of the input; a size that an \<open>int\<close>
  cannot hold makes the loop read past its input. Such a read is the value \<open>None\<close>.
\<close>

section \<open>Case folding\<close>

definition to_lower_ascii :: "char \<Rightarrow> char" where
  "to_lower_ascii c =
     (let n = (of_char c :: nat) in if 65 \<le> n \<and> n \<le> 90 then char_of (n + (97 - 65)) else c)"

definition to_lower_ascii_str :: "string \<Rightarrow> string" where
  "to_lower_ascii_str s = map to_lower_ascii s"

definition ignore_case_equal :: "string \<Rightarrow> string \<Rightarrow> bool" where
  "ignore_case_equal a b = list_all2 (\<lambda>x y. to_lower_ascii x = to_lower_ascii y) a b"

text \<open>The plain \<open>char\<close> of the platform is signed, so the cast to \<open>size_t\<close> extends the sign.\<close>

definition IgnoreCaseHash :: "string \<Rightarrow> u64" where
  "IgnoreCaseHash txt =
     foldl (\<lambda>h c. (h XOR scast (byte_of_char (to_lower_ascii c))) * 1099511628211)
       14695981039346656037 txt"

section \<open>Base64\<close>

definition base64_chars :: string where
  "base64_chars =
     ''ABCDEFGHIJKLMNOPQRSTUVWXYZ'' @ ''abcdefghijklmnopqrstuvwxyz'' @ ''0123456789+/''"

definition is_base64 :: "char \<Rightarrow> bool" where
  "is_base64 c =
     (let n = (of_char c :: nat)
      in (48 \<le> n \<and> n \<le> 57) \<or> (65 \<le> n \<and> n \<le> 90) \<or> (97 \<le> n \<and> n \<le> 122) \<or>
         c = CHR ''+'' \<or> c = CHR ''/'')"

text \<open>\<open>size_t\<close> to \<open>int\<close>, as the assignments to \<open>in_len\<close> do it.\<close>

definition size_to_int :: "nat \<Rightarrow> int" where
  "size_to_int n = sint (of_nat n :: 32 word)"

text \<open>One group: three input bytes to four 6-bit indices.\<close>

definition char_array_4_of :: "u8 list \<Rightarrow> u8 list" where
  "char_array_4_of a =
     [drop_bit 2 (a ! 0 AND 0xfc),
      push_bit 4 (a ! 0 AND 0x03) + drop_bit 4 (a ! 1 AND 0xf0),
      push_bit 2 (a ! 1 AND 0x0f) + drop_bit 6 (a ! 2 AND 0xc0),
      a ! 2 AND 0x3f]"

definition base64_char :: "u8 \<Rightarrow> char" where
  "base64_char i = base64_chars ! unat i"

text \<open>
  The main loop of \<open>Base64::encode\<close>: \<open>n\<close> is \<open>in_len\<close>, \<open>bs\<close> what \<open>bytes_to_encode\<close>
  still points to, \<open>a\<close> the filled part of \<open>char_array_3\<close>.
\<close>

fun encode_loop :: "int \<Rightarrow> u8 list \<Rightarrow> u8 list \<Rightarrow> string \<Rightarrow> (u8 list \<times> string) option" where
  "encode_loop n [] a ret = (if n = 0 then Some (a, ret) else None)"
| "encode_loop n (b # bs) a ret =
     (if n = 0 then Some (a, ret)
      else let a' = a @ [b]
           in if length a' = 3
              then encode_loop (n - 1) bs [] (ret @ map base64_char (char_array_4_of a'))
              else encode_loop (n - 1) bs a' ret)"

definition encode_tail :: "u8 list \<Rightarrow> string \<Rightarrow> string" where
  "encode_tail a ret =
     (if a = [] then ret
      else let a3 = a @ replicate (3 - length a) 0
           in ret @ map base64_char (take (length a + 1) (char_array_4_of a3))
                  @ replicate (3 - length a) (CHR ''=''))"

definition base64_encode :: "u8 list \<Rightarrow> int \<Rightarrow> string option" where
  "base64_encode bytes in_len =
     map_option (\<lambda>(a, ret). encode_tail a ret) (encode_loop in_len bytes [] [])"

definition base64_encode_str :: "string \<Rightarrow> string option" where
  "base64_encode_str s = base64_encode (map byte_of_char s) (size_to_int (length s))"

text \<open>\<open>base64_chars.find\<close>, stored into an \<open>unsigned char\<close>: \<open>npos\<close> becomes 255.\<close>

definition base64_index :: "char \<Rightarrow> u8" where
  "base64_index c = (case find_index ((=) c) base64_chars of Some i \<Rightarrow> of_nat i | None \<Rightarrow> 255)"

definition char_array_3_of :: "u8 list \<Rightarrow> u8 list" where
  "char_array_3_of a =
     [push_bit 2 (a ! 0) + drop_bit 4 (a ! 1 AND 0x30),
      push_bit 4 (a ! 1 AND 0xf) + drop_bit 2 (a ! 2 AND 0x3c),
      push_bit 6 (a ! 2 AND 0x3) + a ! 3]"

fun decode_loop :: "int \<Rightarrow> string \<Rightarrow> char list \<Rightarrow> u8 list \<Rightarrow> (char list \<times> u8 list) option" where
  "decode_loop n [] a ret = (if n = 0 then Some (a, ret) else None)"
| "decode_loop n (c # cs) a ret =
     (if n = 0 \<or> c = CHR ''='' \<or> \<not> is_base64 c then Some (a, ret)
      else let a' = a @ [c]
           in if length a' = 4
              then decode_loop (n - 1) cs [] (ret @ char_array_3_of (map base64_index a'))
              else decode_loop (n - 1) cs a' ret)"

definition decode_tail :: "char list \<Rightarrow> u8 list \<Rightarrow> u8 list" where
  "decode_tail a ret =
     (if a = [] then ret
      else let a4 = a @ replicate (4 - length a) (CHR 0x00)
           in ret @ take (length a - 1) (char_array_3_of (map base64_index a4)))"

definition base64_decode_bin :: "string \<Rightarrow> u8 list option" where
  "base64_decode_bin s =
     map_option (\<lambda>(a, ret). decode_tail a ret) (decode_loop (size_to_int (length s)) s [] [])"

text \<open>\<open>Base64::decode\<close> runs the same loop and collects the bytes in a \<open>std::string\<close>.\<close>

fun decode_str_loop :: "int \<Rightarrow> string \<Rightarrow> char list \<Rightarrow> string \<Rightarrow> (char list \<times> string) option" where
  "decode_str_loop n [] a ret = (if n = 0 then Some (a, ret) else None)"
| "decode_str_loop n (c # cs) a ret =
     (if n = 0 \<or> c = CHR ''='' \<or> \<not> is_base64 c then Some (a, ret)
      else let a' = a @ [c]
           in if length a' = 4
              then decode_str_loop (n - 1) cs []
                     (ret @ map char_of_byte (char_array_3_of (map base64_index a')))
              else decode_str_loop (n - 1) cs a' ret)"

definition decode_str_tail :: "char list \<Rightarrow> string \<Rightarrow> string" where
  "decode_str_tail a ret =
     (if a = [] then ret
      else let a4 = a @ replicate (4 - length a) (CHR 0x00)
           in ret @ map char_of_byte (take (length a - 1) (char_array_3_of (map base64_index a4))))"

definition base64_decode :: "string \<Rightarrow> string option" where
  "base64_decode s =
     map_option (\<lambda>(a, ret). decode_str_tail a ret)
       (decode_str_loop (size_to_int (length s)) s [] [])"

section \<open>The reference encoding\<close>

text \<open>
  RFC 4648, section 4: 24-bit groups, most significant byte first, cut into four 6-bit
  indices; a group of one or two bytes is filled with zero bits and padded with the equals sign.
\<close>

definition rfc4648_group :: "nat \<Rightarrow> nat \<Rightarrow> nat \<Rightarrow> nat list" where
  "rfc4648_group a b c =
     (let n = a * 65536 + b * 256 + c
      in [n div 262144, n div 4096 mod 64, n div 64 mod 64, n mod 64])"

fun rfc4648 :: "u8 list \<Rightarrow> string" where
  "rfc4648 [] = []"
| "rfc4648 [a] = map ((!) base64_chars) (take 2 (rfc4648_group (unat a) 0 0)) @ ''==''"
| "rfc4648 [a, b] = map ((!) base64_chars) (take 3 (rfc4648_group (unat a) (unat b) 0)) @ ''=''"
| "rfc4648 (a # b # c # r) =
     map ((!) base64_chars) (rfc4648_group (unat a) (unat b) (unat c)) @ rfc4648 r"

section \<open>Encoding and decoding one group\<close>

lemma and_low:
  fixes a :: u8
  shows "a AND 0x3 = take_bit 2 a" "a AND 0xf = take_bit 4 a" "a AND 0x3f = take_bit 6 a"
  by (simp_all add: take_bit_eq_mask mask_eq_exp_minus_1)

lemma and_high:
  fixes a :: u8
  shows "drop_bit 2 (a AND 0xfc) = drop_bit 2 a"
    "drop_bit 4 (a AND 0xf0) = drop_bit 4 a"
    "drop_bit 6 (a AND 0xc0) = drop_bit 6 a"
  by (auto intro!: bit_word_eqI simp: bit_simps drop_bit_and and_low) (drule bit_byte_less; simp)+

lemma and_middle:
  fixes a :: u8
  shows "drop_bit 4 (a AND 0x30) = take_bit 2 (drop_bit 4 a)"
    "drop_bit 2 (a AND 0x3c) = take_bit 4 (drop_bit 2 a)"
  by (simp_all add: and_low drop_bit_and)

lemma mask_nat:
  fixes a :: u8
  shows "unat (drop_bit 2 (a AND 0xfc)) = unat a div 4"
    "unat (push_bit 4 (a AND 0x03)) = unat a mod 4 * 16"
    "unat (drop_bit 4 (a AND 0xf0)) = unat a div 16"
    "unat (push_bit 2 (a AND 0x0f)) = unat a mod 16 * 4"
    "unat (drop_bit 6 (a AND 0xc0)) = unat a div 64"
    "unat (a AND 0x3f) = unat a mod 64"
    "unat (push_bit 2 a) = unat a * 4 mod 256"
    "unat (drop_bit 4 (a AND 0x30)) = unat a div 16 mod 4"
    "unat (push_bit 4 (a AND 0xf)) = unat a mod 16 * 16"
    "unat (drop_bit 2 (a AND 0x3c)) = unat a div 4 mod 16"
    "unat (push_bit 6 (a AND 0x3)) = unat a mod 4 * 64"
  by (simp_all only: and_low and_high and_middle unat_take_byte unat_drop_byte unat_push_byte)
    (auto simp: mod_mod_cancel)

lemma array_4_eq: "char_array_4_of [a, b, c] =
   [drop_bit 2 (a AND 0xfc), push_bit 4 (a AND 0x03) + drop_bit 4 (b AND 0xf0),
    push_bit 2 (b AND 0x0f) + drop_bit 6 (c AND 0xc0), c AND 0x3f]"
  by (simp add: char_array_4_of_def)

lemma array_3_eq: "char_array_3_of [a, b, c, d] =
     [push_bit 2 a + drop_bit 4 (b AND 0x30), push_bit 4 (b AND 0xf) + drop_bit 2 (c AND 0x3c),
      push_bit 6 (c AND 0x3) + d]"
  by (simp add: char_array_3_of_def)

lemma unat_array_4:
  "map unat (char_array_4_of [a, b, c]) =
     [unat a div 4, unat a mod 4 * 16 + unat b div 16, unat b mod 16 * 4 + unat c div 64, unat c mod 64]"
proof -
  have "unat b div 16 < 16" "unat c div 64 < 4" by (auto simp: less_mult_imp_div_less)
  moreover have "unat a mod 4 < 4" "unat b mod 16 < 16" by auto
  ultimately have "unat a mod 4 * 16 + unat b div 16 < 256" "unat b mod 16 * 4 + unat c div 64 < 256"
    by linarith+
  then show ?thesis by (simp only: array_4_eq list.map mask_nat(1-6) unat_add_byte mod_less)
qed

lemma decode_arith:
  fixes a b c :: nat
  assumes "a < 256" "b < 256" "c < 256"
  shows "(a div 4 * 4 mod 256 + (a mod 4 * 16 + b div 16) div 16 mod 4) mod 256 = a"
    "((a mod 4 * 16 + b div 16) mod 16 * 16 + (b mod 16 * 4 + c div 64) div 4 mod 16) mod 256 = b"
    "((b mod 16 * 4 + c div 64) mod 4 * 64 + c mod 64) mod 256 = c"
proof -
  have l: "b div 16 < 16" "c div 64 < 4" using assms by (auto simp: less_mult_imp_div_less)
  have "(a mod 4 * 16 + b div 16) div 16 mod 4 = a mod 4" using l by simp
  moreover have "a div 4 * 4 + a mod 4 = a" by simp
  moreover have "a div 4 * 4 mod 256 = a div 4 * 4" using assms by auto
  ultimately show "(a div 4 * 4 mod 256 + (a mod 4 * 16 + b div 16) div 16 mod 4) mod 256 = a"
    using assms by simp
  have "(a mod 4 * 16 + b div 16) mod 16 = b div 16" using l by simp
  moreover have "(b mod 16 * 4 + c div 64) div 4 mod 16 = b mod 16" using l by simp
  moreover have "b div 16 * 16 + b mod 16 = b" by simp
  ultimately show "((a mod 4 * 16 + b div 16) mod 16 * 16 + (b mod 16 * 4 + c div 64) div 4 mod 16) mod 256 = b"
    using assms by simp
  have "(b mod 16 * 4 + c div 64) mod 4 = c div 64" using l by simp
  moreover have "c div 64 * 64 + c mod 64 = c" by simp
  ultimately show "((b mod 16 * 4 + c div 64) mod 4 * 64 + c mod 64) mod 256 = c" using assms by simp
qed

lemma array_3_array_4: "char_array_3_of (char_array_4_of [a, b, c]) = [a, b, c]"
proof -
  obtain x0 x1 x2 x3 where x: "char_array_4_of [a, b, c] = [x0, x1, x2, x3]"
    by (simp add: char_array_4_of_def)
  have u: "unat x0 = unat a div 4" "unat x1 = unat a mod 4 * 16 + unat b div 16"
    "unat x2 = unat b mod 16 * 4 + unat c div 64" "unat x3 = unat c mod 64"
    using unat_array_4 [of a b c] by (simp_all add: x)
  have "map unat (char_array_3_of [x0, x1, x2, x3]) = map unat [a, b, c]"
    by (simp only: array_3_eq list.map mask_nat(7-11) unat_add_byte u unat_byte_less
          decode_arith [of "unat a" "unat b" "unat c"])
  then show ?thesis unfolding x by (simp only: array_3_eq list.map list.inject word_unat_eq_iff)
qed

lemma group_arith: 
  assumes "a < 256" "b < 256" "c < (256::nat)"
  defines "n \<equiv> a * 65536 + b * 256 + c"
  shows "n div 262144 = a div 4" "n div 4096 mod 64 = a mod 4 * 16 + b div 16"
    "n div 64 mod 64 = b mod 16 * 4 + c div 64" "n mod 64 = c mod 64"
proof -
  have "n = 256 * (a * 256 + b) + c" by (simp add: n_def)
  then have m: "n div 256 = a * 256 + b" using assms by simp
  have "n div 262144 = n div 256 div 256 div 4" by (simp add: div_mult2_eq [symmetric])
  then show "n div 262144 = a div 4" unfolding m using assms by simp
  have "n div 4096 = n div 256 div 16" by (simp add: div_mult2_eq [symmetric])
  also have "\<dots> = 16 * a + b div 16"
    unfolding m by (simp add: div_mult_self4 [of 16 "a * 16" b, simplified] mult.commute)
  finally have "n div 4096 mod (16 * 4) =
      16 * ((16 * a + b div 16) div 16 mod 4) + (16 * a + b div 16) mod 16"
    by (simp only: mod_mult2_eq)
  also have "\<dots> = a mod 4 * 16 + b div 16" using assms by (simp add: div_less)
  finally show "n div 4096 mod 64 = a mod 4 * 16 + b div 16" by simp
  have "n = 64 * (4 * (a * 256 + b)) + c" by (simp add: n_def)
  then have k: "n div 64 = 4 * (a * 256 + b) + c div 64" "n mod 64 = c mod 64"
    by (simp, simp only: mod_mult_self4)
  then show "n mod 64 = c mod 64" by simp
  have c: "c div 64 < 4" using assms by auto
  have "n div 64 mod (4 * 16) =
      4 * ((4 * (a * 256 + b) + c div 64) div 4 mod 16) + (4 * (a * 256 + b) + c div 64) mod 4"
    unfolding k by (simp only: mod_mult2_eq)
  also have "(4 * (a * 256 + b) + c div 64) div 4 = 16 * (16 * a) + b" using c by simp
  also have "(16 * (16 * a) + b) mod 16 = b mod 16" by (simp only: mod_mult_self4)
  also have "(4 * (a * 256 + b) + c div 64) mod 4 = c div 64"
    using c by (simp only: mod_mult_self4 mod_less)
  finally show "n div 64 mod 64 = b mod 16 * 4 + c div 64" by simp
qed

lemma array_4_group:
  "map unat (char_array_4_of [a, b, c]) = rfc4648_group (unat a) (unat b) (unat c)"
  unfolding unat_array_4 rfc4648_group_def Let_def
  by (simp only: group_arith unat_byte_less)

lemma encode_group:
  "map base64_char (char_array_4_of [a, b, c]) =
     map ((!) base64_chars) (rfc4648_group (unat a) (unat b) (unat c))"
  unfolding array_4_group [symmetric] by (simp add: base64_char_def comp_def)

lemma length_array_4 [simp]: "length (char_array_4_of a) = 4"
  by (simp add: char_array_4_of_def)

lemma encode_loop_rfc:
  "map_option (\<lambda>(a, ret). encode_tail a ret) (encode_loop (int (length bs)) bs [] ret) =
     Some (ret @ rfc4648 bs)"
proof (induction bs arbitrary: ret rule: rfc4648.induct)
  case (2 a)
  then show ?case
    using arg_cong [OF encode_group [of a 0 0], of "take 2"]
    by (simp add: encode_tail_def take_map numeral_2_eq_2 numeral_3_eq_3)
next
  case (3 a b)
  then show ?case
    using arg_cong [OF encode_group [of a b 0], of "take 3"]
    by (simp add: encode_tail_def take_map numeral_2_eq_2 numeral_3_eq_3)
next
  case (4 a b c r)
  show ?case
    using 4 [of "ret @ map ((!) base64_chars) (rfc4648_group (unat a) (unat b) (unat c))"]
    by (simp add: encode_group)
qed (simp add: encode_tail_def)

lemma base64_index_table: "list_all (\<lambda>n. let c = base64_chars ! n in
   base64_index c = of_nat n \<and> is_base64 c \<and> c \<noteq> CHR ''='') [0..<64]"
  by code_simp

lemma base64_index_char:
  assumes "unat i < 64"
  shows "base64_index (base64_char i) = i" "is_base64 (base64_char i)" "base64_char i \<noteq> CHR ''=''"
proof -
  have "unat i \<in> set [0..<64]" using assms by simp
  from this base64_index_table have "let c = base64_chars ! unat i in
      base64_index c = of_nat (unat i) \<and> is_base64 c \<and> c \<noteq> CHR ''=''"
    unfolding list_all_iff by blast
  then show "base64_index (base64_char i) = i" "is_base64 (base64_char i)" "base64_char i \<noteq> CHR ''=''"
    by (simp_all add: base64_char_def Let_def)
qed

lemma array_4_less: "x \<in> set (char_array_4_of [a, b, c]) \<Longrightarrow> unat x < 64"
proof -
  assume "x \<in> set (char_array_4_of [a, b, c])"
  then have "unat x \<in> set (map unat (char_array_4_of [a, b, c]))" by simp
  moreover have "unat b div 16 < 16" "unat c div 64 < 4" "unat a div 4 < 64"
    by (auto simp: less_mult_imp_div_less)
  moreover have "unat a mod 4 < 4" "unat b mod 16 < 16" "unat c mod 64 < 64" by auto
  ultimately show ?thesis unfolding unat_array_4 by auto
qed

lemma size_to_int_id:
  assumes "n < 2 ^ 31"
  shows "size_to_int n = int n"
proof -
  have "size_to_int n = signed_take_bit 31 (int n)"
    by (simp add: size_to_int_def signed_of_nat)
  also have "\<dots> = int n" using assms by (intro signed_take_bit_int_eq_self) auto
  finally show ?thesis .
qed
lemma array_4_cases:
  obtains x0 x1 x2 x3 where "char_array_4_of [a, b, c] = [x0, x1, x2, x3]"
    "char_array_3_of [x0, x1, x2, x3] = [a, b, c]"
    "unat x0 < 64" "unat x1 < 64" "unat x2 < 64" "unat x3 < 64"
    "map ((!) base64_chars) (rfc4648_group (unat a) (unat b) (unat c)) = map base64_char [x0, x1, x2, x3]"
proof -
  obtain x0 x1 x2 x3 where x: "char_array_4_of [a, b, c] = [x0, x1, x2, x3]"
    by (simp add: char_array_4_of_def)
  then show thesis
    using that array_3_array_4 [of a b c] array_4_less [of _ a b c] encode_group [of a b c] by simp
qed

lemma decode_loop_rfc:
  "map_option (\<lambda>(a, ret). decode_tail a ret)
     (decode_loop (int (length (rfc4648 bs))) (rfc4648 bs) [] ret) = Some (ret @ bs)"
proof (induction bs arbitrary: ret rule: rfc4648.induct)
  case (2 a)
  obtain x0 x1 x2 x3 where x: "char_array_3_of [x0, x1, x2, x3] = [a, 0, 0]"
    "unat x0 < 64" "unat x1 < 64"
    "map ((!) base64_chars) (rfc4648_group (unat a) (unat (0 :: u8)) (unat (0 :: u8))) = map base64_char [x0, x1, x2, x3]"
    by (rule array_4_cases [of a 0 0]) blast
  have "rfc4648 [a] = map base64_char [x0, x1] @ ''==''"
    using arg_cong [OF x(4), of "take 2"] by (simp add: take_map)
  with x show ?case
    by (simp add: decode_tail_def base64_index_char array_3_eq eval_nat_numeral)
next
  case (3 a b)
  obtain x0 x1 x2 x3 where x: "char_array_3_of [x0, x1, x2, x3] = [a, b, 0]"
    "unat x0 < 64" "unat x1 < 64" "unat x2 < 64"
    "map ((!) base64_chars) (rfc4648_group (unat a) (unat b) (unat (0 :: u8))) = map base64_char [x0, x1, x2, x3]"
    by (rule array_4_cases [of a b 0]) blast
  have "rfc4648 [a, b] = map base64_char [x0, x1, x2] @ ''=''"
    using arg_cong [OF x(5), of "take 3"] by (simp add: take_map)
  with x show ?case
    by (simp add: decode_tail_def base64_index_char array_3_eq)
next
  case (4 a b c r)
  obtain x0 x1 x2 x3 where x: "char_array_3_of [x0, x1, x2, x3] = [a, b, c]"
    "unat x0 < 64" "unat x1 < 64" "unat x2 < 64" "unat x3 < 64"
    "map ((!) base64_chars) (rfc4648_group (unat a) (unat b) (unat c)) = map base64_char [x0, x1, x2, x3]"
    by (rule array_4_cases [of a b c]) blast
  from x(6) have "rfc4648 (a # b # c # r) = map base64_char [x0, x1, x2, x3] @ rfc4648 r" by simp
  with x show ?case using 4 [of "ret @ [a, b, c]"] by (simp add: base64_index_char)
qed (simp add: decode_tail_def)

section \<open>The whole codec\<close>

lemma base64_encode_str_rfc:
  "length s < 2 ^ 31 \<Longrightarrow> base64_encode_str s = Some (rfc4648 (map byte_of_char s))"
  using encode_loop_rfc [of "map byte_of_char s" "[]"]
  by (simp add: base64_encode_str_def base64_encode_def size_to_int_id)

lemma length_rfc4648: "length (rfc4648 bs) = 4 * ((length bs + 2) div 3)"
proof (induction bs rule: rfc4648.induct)
  case (4 a b c r)
  have "(3 + (length r + 2)) div 3 = 1 + (length r + 2) div 3" by simp
  with 4 show ?case by (simp add: rfc4648_group_def Let_def)
qed (simp_all add: rfc4648_group_def Let_def)

lemma base64_decode_bin_rfc:
  "4 * ((length bs + 2) div 3) < 2 ^ 31 \<Longrightarrow> base64_decode_bin (rfc4648 bs) = Some bs"
  using decode_loop_rfc [of bs "[]"]
  by (simp add: base64_decode_bin_def length_rfc4648 size_to_int_id)

lemma decode_str_loop_eq:
  "decode_str_loop n cs a (map char_of_byte ret) =
     map_option (map_prod id (map char_of_byte)) (decode_loop n cs a ret)"
  by (induction n cs a ret rule: decode_loop.induct) (simp_all add: Let_def flip: map_append)

lemma decode_str_tail_eq:
  "decode_str_tail a (map char_of_byte ret) = map char_of_byte (decode_tail a ret)"
  by (simp add: decode_str_tail_def decode_tail_def Let_def)

lemma base64_decode_eq: "base64_decode s = map_option (map char_of_byte) (base64_decode_bin s)"
  using decode_str_loop_eq [of "size_to_int (length s)" s "[]" "[]"]
  by (auto simp: base64_decode_def base64_decode_bin_def decode_str_tail_eq option.map_comp
      comp_def split_def)

section \<open>Case-insensitive names\<close>

text \<open>
  What the tables keyed by header names need of a comparison and its hash, as
  \<open>std::unordered_map\<close> states it for its \<open>KeyEqual\<close> and \<open>Hash\<close> arguments.
\<close>

locale key_equality =
  fixes eq :: "'k \<Rightarrow> 'k \<Rightarrow> bool"
    and hash :: "'k \<Rightarrow> 'h"
  assumes eq_refl: "eq a a"
    and eq_sym: "eq a b \<Longrightarrow> eq b a"
    and eq_trans: "eq a b \<Longrightarrow> eq b c \<Longrightarrow> eq a c"
    and eq_hash: "eq a b \<Longrightarrow> hash a = hash b"
begin

lemma eq_cong: "eq a b \<Longrightarrow> eq a c = eq b c"
  using eq_sym eq_trans by blast

text \<open>Looking a name up in a list of pairs: the first pair whose name matches.\<close>

lemma find_after_erase_append:
  "find (\<lambda>p. eq (fst p) k) (filter (\<lambda>p. \<not> eq (fst p) n) xs @ [(n, v)]) =
     (if eq n k then Some (n, v) else find (\<lambda>p. eq (fst p) k) xs)"
proof (induction xs)
  case (Cons x xs)
  have "eq (fst x) n \<Longrightarrow> eq (fst x) k = eq n k" by (rule eq_cong)
  moreover have "eq (fst x) k \<Longrightarrow> eq n k \<Longrightarrow> eq (fst x) n" by (blast intro: eq_trans eq_sym)
  ultimately show ?case using Cons by auto
qed simp

end

lemma ignore_case_equal_iff:
  "ignore_case_equal a b \<longleftrightarrow> to_lower_ascii_str a = to_lower_ascii_str b"
proof -
  have "ignore_case_equal a b \<longleftrightarrow> list_all2 (=) (to_lower_ascii_str a) (to_lower_ascii_str b)"
    by (simp only: ignore_case_equal_def to_lower_ascii_str_def list.rel_map)
  then show ?thesis by (simp only: list.rel_eq)
qed

lemma IgnoreCaseHash_lower:
  "IgnoreCaseHash s =
     foldl (\<lambda>h c. (h XOR scast (byte_of_char c)) * 1099511628211) 14695981039346656037
       (to_lower_ascii_str s)"
  by (simp add: IgnoreCaseHash_def to_lower_ascii_str_def foldl_map)

interpretation name_key: key_equality ignore_case_equal IgnoreCaseHash
  by unfold_locales (auto simp: ignore_case_equal_iff IgnoreCaseHash_lower)

lemma to_lower_ascii_idem [simp]: "to_lower_ascii (to_lower_ascii c) = to_lower_ascii c"
  by (auto simp: to_lower_ascii_def Let_def)

lemma to_lower_ascii_str_idem [simp]:
  "to_lower_ascii_str (to_lower_ascii_str s) = to_lower_ascii_str s"
  by (simp add: to_lower_ascii_str_def)

text \<open>The two-pass buffer loop of \<open>base64_encode\<close> computes the Base64 encoding of RFC 4648, padding
  included, and does not index out of its arrays, for every input whose length fits a C \<open>int\<close>.\<close>

theorem encode_is_rfc4648:
  assumes "length s < 2 ^ 31"
  shows "base64_encode_str s = Some (rfc4648 (map byte_of_char s))"
  by (rule base64_encode_str_rfc [OF assms])



text \<open>The functors that key the header containers belong together: names equal up to ASCII case have
  the same hash, and equality of names is an equivalence relation.\<close>

theorem name_functors_agree:
  "(ignore_case_equal a b \<longrightarrow> IgnoreCaseHash a = IgnoreCaseHash b) \<and> ignore_case_equal a a \<and>
   (ignore_case_equal a b \<longrightarrow> ignore_case_equal b a) \<and>
   (ignore_case_equal a b \<and> ignore_case_equal b c \<longrightarrow> ignore_case_equal a c)"
  by (simp add: ignore_case_equal_iff IgnoreCaseHash_lower)

end
