(* ===== verification/Binary_Util.thy ===== *)
theory Binary_Util
  imports Ppnt_Prelude
begin

text \<open>
  Model of \<^verbatim>\<open>ppnt-io/src/binary_util.ixx\<close>: \<open>BinartWriter\<close>, a growing byte buffer, and
  \<open>BinaryReader\<close>, a cursor over a span of bytes. Both convert between the byte order asked
  for and the byte order of the machine, \<open>std::endian::native\<close>, which is the argument \<open>native\<close>
  of the definitions: what is written must not depend on it.

  \<open>size_t\<close> arithmetic of the reader is modulo \<open>2 ^ 64\<close>.
\<close>

datatype endian = little | big

section \<open>Words in memory\<close>

text \<open>
  The object representation of an unsigned integer of the machine, what \<open>memcpy\<close> of it copies,
  and the compiler's \<open>__builtin_bswap16/32/64\<close>.
\<close>

definition le_bytes :: "'a::len word \<Rightarrow> u8 list" where
  "le_bytes v = map (\<lambda>i. ucast (drop_bit (8 * i) v)) [0..<LENGTH('a) div 8]"

fun word_of_le :: "u8 list \<Rightarrow> 'a::len word" where
  "word_of_le [] = 0"
| "word_of_le (b # bs) = ucast b OR push_bit 8 (word_of_le bs)"

definition mem_of :: "endian \<Rightarrow> 'a::len word \<Rightarrow> u8 list" where
  "mem_of native v = (case native of little \<Rightarrow> le_bytes v | big \<Rightarrow> rev (le_bytes v))"

definition word_of_mem :: "endian \<Rightarrow> u8 list \<Rightarrow> 'a::len word" where
  "word_of_mem native bs = (case native of little \<Rightarrow> word_of_le bs | big \<Rightarrow> word_of_le (rev bs))"

definition byteswap :: "'a::len word \<Rightarrow> 'a word" where
  "byteswap v = word_of_le (rev (le_bytes v))"

definition byteswap_if_needed :: "endian \<Rightarrow> 'a::len word \<Rightarrow> endian \<Rightarrow> 'a word" where
  "byteswap_if_needed native v e = (if e = native then v else byteswap v)"

section \<open>The writer\<close>

record BinartWriter =
  wbuffer :: "u8 list"

definition write_u8 :: "u8 \<Rightarrow> BinartWriter \<Rightarrow> BinartWriter" where
  "write_u8 b w = w\<lparr>wbuffer := wbuffer w @ [b]\<rparr>"

definition write_bytes :: "u8 list \<Rightarrow> BinartWriter \<Rightarrow> BinartWriter" where
  "write_bytes bytes w = w\<lparr>wbuffer := wbuffer w @ bytes\<rparr>"

definition write_u16 :: "endian \<Rightarrow> u16 \<Rightarrow> endian \<Rightarrow> BinartWriter \<Rightarrow> BinartWriter" where
  "write_u16 native v e w = write_bytes (mem_of native (byteswap_if_needed native v e)) w"

definition write_u32 :: "endian \<Rightarrow> u32 \<Rightarrow> endian \<Rightarrow> BinartWriter \<Rightarrow> BinartWriter" where
  "write_u32 native v e w = write_bytes (mem_of native (byteswap_if_needed native v e)) w"

definition write_u64 :: "endian \<Rightarrow> u64 \<Rightarrow> endian \<Rightarrow> BinartWriter \<Rightarrow> BinartWriter" where
  "write_u64 native v e w = write_bytes (mem_of native (byteswap_if_needed native v e)) w"

definition write_u24 :: "u32 \<Rightarrow> endian \<Rightarrow> BinartWriter \<Rightarrow> BinartWriter" where
  "write_u24 v e w =
     (if e = big
      then write_u8 (ucast (v AND 0xff))
             (write_u8 (ucast (drop_bit 8 v AND 0xff)) (write_u8 (ucast (drop_bit 16 v AND 0xff)) w))
      else write_u8 (ucast (drop_bit 16 v AND 0xff))
             (write_u8 (ucast (drop_bit 8 v AND 0xff)) (write_u8 (ucast (v AND 0xff)) w)))"

definition write_u8_length_prefixed :: "u8 list \<Rightarrow> BinartWriter \<Rightarrow> BinartWriter" where
  "write_u8_length_prefixed data w = write_bytes data (write_u8 (of_nat (length data)) w)"

definition write_u16_length_prefixed ::
    "endian \<Rightarrow> u8 list \<Rightarrow> endian \<Rightarrow> BinartWriter \<Rightarrow> BinartWriter" where
  "write_u16_length_prefixed native data e w =
     write_bytes data (write_u16 native (of_nat (length data)) e w)"

text \<open>
  The overload that takes a function: reserve two bytes, run \<open>block_writer\<close>, then store the
  number of bytes it wrote into them, most significant byte first.
\<close>

definition write_u16_length_prefixed_block ::
    "endian \<Rightarrow> (BinartWriter \<Rightarrow> BinartWriter) \<Rightarrow> BinartWriter \<Rightarrow> BinartWriter" where
  "write_u16_length_prefixed_block native block_writer w =
     (let len_pos = length (wbuffer w);
          w1 = write_u16 native 0 big w;
          start_pos = length (wbuffer w1);
          w2 = block_writer w1;
          data_len = (of_nat (length (wbuffer w2)) - of_nat start_pos :: u64)
      in w2\<lparr>wbuffer := (wbuffer w2)[len_pos := ucast (drop_bit 8 data_len), len_pos + 1 := ucast data_len]\<rparr>)"

definition write_u24_length_prefixed :: "u8 list \<Rightarrow> BinartWriter \<Rightarrow> BinartWriter" where
  "write_u24_length_prefixed data w = write_bytes data (write_u24 (of_nat (length data)) big w)"

definition write_string :: "string \<Rightarrow> BinartWriter \<Rightarrow> BinartWriter" where
  "write_string s w = (if s = [] then w else write_bytes (map byte_of_char s) w)"

definition write_u16_length_prefixed_string ::
    "endian \<Rightarrow> string \<Rightarrow> BinartWriter \<Rightarrow> BinartWriter" where
  "write_u16_length_prefixed_string native s w = write_string s (write_u16 native (of_nat (length s)) big w)"

definition writer_clear :: "BinartWriter \<Rightarrow> BinartWriter" where
  "writer_clear w = w\<lparr>wbuffer := []\<rparr>"

definition writer_leak :: "BinartWriter \<Rightarrow> u8 list \<times> BinartWriter" where
  "writer_leak w = (wbuffer w, w\<lparr>wbuffer := []\<rparr>)"

section \<open>The reader\<close>

record BinaryReader =
  rdata :: "u8 list"
  roffset :: nat

definition make_reader :: "u8 list \<Rightarrow> BinaryReader" where
  "make_reader d = \<lparr>rdata = d, roffset = 0\<rparr>"

definition reader_ensure :: "nat \<Rightarrow> BinaryReader \<Rightarrow> bool" where
  "reader_ensure n r = ((roffset r + n) mod 2 ^ 64 \<le> length (rdata r))"

definition reader_eof :: "BinaryReader \<Rightarrow> bool" where
  "reader_eof r = (roffset r \<ge> length (rdata r))"

definition reader_remaining :: "BinaryReader \<Rightarrow> nat" where
  "reader_remaining r = (length (rdata r) + 2 ^ 64 - roffset r) mod 2 ^ 64"

definition reader_advance :: "nat \<Rightarrow> BinaryReader \<Rightarrow> BinaryReader" where
  "reader_advance n r = r\<lparr>roffset := (roffset r + n) mod 2 ^ 64\<rparr>"

definition reader_seek :: "nat \<Rightarrow> BinaryReader \<Rightarrow> bool \<times> BinaryReader" where
  "reader_seek pos r = (if pos > length (rdata r) then (False, r) else (True, r\<lparr>roffset := pos\<rparr>))"

definition reader_skip :: "nat \<Rightarrow> BinaryReader \<Rightarrow> bool \<times> BinaryReader" where
  "reader_skip n r = (if \<not> reader_ensure n r then (False, r) else (True, reader_advance n r))"

definition read_u8 :: "BinaryReader \<Rightarrow> u8 option \<times> BinaryReader" where
  "read_u8 r =
     (if \<not> reader_ensure 1 r then (None, r)
      else (Some (rdata r ! roffset r), reader_advance 1 r))"

definition read_bytes :: "nat \<Rightarrow> BinaryReader \<Rightarrow> u8 list option \<times> BinaryReader" where
  "read_bytes n r =
     (if \<not> reader_ensure n r then (None, r)
      else (Some (take n (drop (roffset r) (rdata r))), reader_advance n r))"

definition read_u16 :: "endian \<Rightarrow> endian \<Rightarrow> BinaryReader \<Rightarrow> u16 option \<times> BinaryReader" where
  "read_u16 native e r =
     (if \<not> reader_ensure 2 r then (None, r)
      else (Some (byteswap_if_needed native (word_of_mem native (take 2 (drop (roffset r) (rdata r)))) e),
            reader_advance 2 r))"

definition read_u32 :: "endian \<Rightarrow> endian \<Rightarrow> BinaryReader \<Rightarrow> u32 option \<times> BinaryReader" where
  "read_u32 native e r =
     (if \<not> reader_ensure 4 r then (None, r)
      else (Some (byteswap_if_needed native (word_of_mem native (take 4 (drop (roffset r) (rdata r)))) e),
            reader_advance 4 r))"

definition read_u64 :: "endian \<Rightarrow> endian \<Rightarrow> BinaryReader \<Rightarrow> u64 option \<times> BinaryReader" where
  "read_u64 native e r =
     (if \<not> reader_ensure 8 r then (None, r)
      else (Some (byteswap_if_needed native (word_of_mem native (take 8 (drop (roffset r) (rdata r)))) e),
            reader_advance 8 r))"

definition read_u24 :: "endian \<Rightarrow> BinaryReader \<Rightarrow> u32 option \<times> BinaryReader" where
  "read_u24 e r =
     (if \<not> reader_ensure 3 r then (None, r)
      else let d = (\<lambda>i. ucast (rdata r ! (roffset r + i)) :: u32)
           in (Some (if e = big
                     then push_bit 16 (d 0) OR push_bit 8 (d 1) OR d 2
                     else push_bit 16 (d 2) OR push_bit 8 (d 1) OR d 0),
               reader_advance 3 r))"

definition read_u8_length_prefixed :: "BinaryReader \<Rightarrow> u8 list option \<times> BinaryReader" where
  "read_u8_length_prefixed r =
     (case read_u8 r of (None, r') \<Rightarrow> (None, r') | (Some len, r') \<Rightarrow> read_bytes (unat len) r')"

definition read_u16_length_prefixed ::
    "endian \<Rightarrow> endian \<Rightarrow> BinaryReader \<Rightarrow> u8 list option \<times> BinaryReader" where
  "read_u16_length_prefixed native e r =
     (case read_u16 native e r of (None, r') \<Rightarrow> (None, r') | (Some len, r') \<Rightarrow> read_bytes (unat len) r')"

definition read_u24_length_prefixed :: "BinaryReader \<Rightarrow> u8 list option \<times> BinaryReader" where
  "read_u24_length_prefixed r =
     (case read_u24 big r of (None, r') \<Rightarrow> (None, r') | (Some len, r') \<Rightarrow> read_bytes (unat len) r')"

definition read_string :: "nat \<Rightarrow> BinaryReader \<Rightarrow> string option \<times> BinaryReader" where
  "read_string n r =
     (case read_bytes n r of
        (None, r') \<Rightarrow> (None, r') | (Some bs, r') \<Rightarrow> (Some (map char_of_byte bs), r'))"

definition read_u16_length_prefixed_string ::
    "endian \<Rightarrow> BinaryReader \<Rightarrow> string option \<times> BinaryReader" where
  "read_u16_length_prefixed_string native r =
     (case read_u16_length_prefixed native big r of
        (None, r') \<Rightarrow> (None, r') | (Some bs, r') \<Rightarrow> (Some (map char_of_byte bs), r'))"

section \<open>Bits of the object representation\<close>

lemma bit_word_of_le:
  "bit (word_of_le bs :: 'a::len word) i \<longleftrightarrow>
     i < LENGTH('a) \<and> i div 8 < length bs \<and> bit (bs ! (i div 8)) (i mod 8)"
proof (induction bs arbitrary: i)
  case (Cons b bs)
  show ?case
  proof (cases "i < 8")
    case True
    then show ?thesis by (auto simp: bit_simps Cons)
  next
    case False
    then have i: "i div 8 = Suc ((i - 8) div 8)" "i mod 8 = (i - 8) mod 8" by (simp_all add: le_div_geq le_mod_geq)
    from False have "\<not> bit b i" using bit_byte_less by blast
    with False show ?thesis by (auto simp: bit_simps Cons i)
  qed
qed simp

lemma length_le_bytes [simp]: "length (le_bytes (v :: 'a::len word)) = LENGTH('a) div 8"
  by (simp add: le_bytes_def)

lemma bit_le_bytes:
  "k < LENGTH('a) div 8 \<Longrightarrow> j < 8 \<Longrightarrow> bit (le_bytes (v :: 'a::len word) ! k) j = bit v (8 * k + j)"
  by (simp add: le_bytes_def bit_simps)

lemma word_of_le_le_bytes [byte_simps]:
  assumes "8 dvd LENGTH('a)"
  shows "word_of_le (le_bytes (v :: 'a::len word)) = v"
proof (rule bit_word_eqI)
  fix i assume i: "i < LENGTH('a)"
  from assms obtain m where m: "LENGTH('a) = 8 * m" by (auto simp: dvd_def)
  from i m have "i div 8 < LENGTH('a) div 8" by auto
  then show "bit (word_of_le (le_bytes v) :: 'a word) i = bit v i"
    using i by (simp add: bit_word_of_le bit_le_bytes)
qed

lemma le_bytes_word_of_le [byte_simps]:
  assumes "LENGTH('a) = 8 * length bs"
  shows "le_bytes (word_of_le bs :: 'a::len word) = bs"
proof (rule nth_equalityI)
  fix k assume k: "k < length (le_bytes (word_of_le bs :: 'a word))"
  show "le_bytes (word_of_le bs :: 'a word) ! k = bs ! k"
  proof (rule bit_word_eqI)
    fix j assume "j < LENGTH(8)"
    with k assms show "bit (le_bytes (word_of_le bs :: 'a word) ! k) j = bit (bs ! k) j"
      by (simp add: bit_le_bytes bit_word_of_le)
  qed
qed (simp add: assms)

section \<open>Bytes on the wire\<close>

text \<open>The bytes of a word in the order asked for: what the writer must append on every machine.\<close>

definition wire_bytes :: "endian \<Rightarrow> 'a::len word \<Rightarrow> u8 list" where
  "wire_bytes e v = (case e of little \<Rightarrow> le_bytes v | big \<Rightarrow> rev (le_bytes v))"

lemma mem_of_byteswap:
  assumes "8 dvd LENGTH('a)"
  shows "mem_of native (byteswap_if_needed native v e) = wire_bytes e (v :: 'a::len word)"
  using assms by (cases native; cases e)
   (auto simp: mem_of_def byteswap_if_needed_def wire_bytes_def byteswap_def le_bytes_word_of_le)

lemma length_wire_bytes [simp]: "length (wire_bytes e (v :: 'a::len word)) = LENGTH('a) div 8"
  by (cases e) (simp_all add: wire_bytes_def)

definition word_of_wire :: "endian \<Rightarrow> u8 list \<Rightarrow> 'a::len word" where
  "word_of_wire e bs = (case e of little \<Rightarrow> word_of_le bs | big \<Rightarrow> word_of_le (rev bs))"

lemma word_of_wire_bytes:
  "8 dvd LENGTH('a) \<Longrightarrow> word_of_wire e (wire_bytes e v) = (v :: 'a::len word)"
  by (cases e) (simp_all add: word_of_wire_def wire_bytes_def word_of_le_le_bytes)

lemma word_of_mem_wire:
  assumes "LENGTH('a) = 8 * length bs"
  shows "byteswap_if_needed native (word_of_mem native bs) e = (word_of_wire e bs :: 'a::len word)"
  using assms by (cases native; cases e)
   (auto simp: word_of_mem_def byteswap_if_needed_def word_of_wire_def byteswap_def le_bytes_word_of_le)

lemma wbuffer_write_words:
  "wbuffer (write_u16 native v16 e w) = wbuffer w @ wire_bytes e v16"
  "wbuffer (write_u32 native v32 e w) = wbuffer w @ wire_bytes e v32"
  "wbuffer (write_u64 native v64 e w) = wbuffer w @ wire_bytes e v64"
  by (simp_all add: write_u16_def write_u32_def write_u64_def write_bytes_def mem_of_byteswap)

section \<open>What a reader reads\<close>

text \<open>
  The specification of a reading operation is a function on the bytes that are still unread: it
  fails, or gives a value and the bytes left. An object never has more than \<open>2 ^ 63\<close> bytes
  (\<open>PTRDIFF_MAX\<close>), and under that bound \<open>ensure\<close> does not wrap around.
\<close>

definition unread :: "BinaryReader \<Rightarrow> u8 list" where
  "unread r = drop (roffset r) (rdata r)"

definition reader_ok :: "BinaryReader \<Rightarrow> bool" where
  "reader_ok r \<longleftrightarrow> roffset r \<le> length (rdata r) \<and> length (rdata r) < 2 ^ 63"

lemma reader_ok_make: "length d < 2 ^ 63 \<Longrightarrow> reader_ok (make_reader d) \<and> unread (make_reader d) = d"
  by (simp add: reader_ok_def make_reader_def unread_def)

lemma reader_ensure_iff:
  "reader_ok r \<Longrightarrow> n < 2 ^ 63 \<Longrightarrow> reader_ensure n r \<longleftrightarrow> n \<le> length (unread r)"
  by (auto simp: reader_ok_def reader_ensure_def unread_def mod_less)

lemma reader_advance_ok:
  assumes "reader_ok r" "n \<le> length (unread r)"
  shows "reader_ok (reader_advance n r)" "unread (reader_advance n r) = drop n (unread r)"
    "roffset (reader_advance n r) = roffset r + n" "rdata (reader_advance n r) = rdata r"
  using assms by (auto simp: reader_ok_def reader_advance_def unread_def mod_less add.commute)

text \<open>The contract of a reading operation: it implements the function \<open>p\<close> on the unread bytes.\<close>

locale reader_op =
  fixes get :: "BinaryReader \<Rightarrow> 'v option \<times> BinaryReader"
    and p :: "u8 list \<Rightarrow> ('v \<times> u8 list) option"
  assumes get_fail: "reader_ok r \<Longrightarrow> p (unread r) = None \<Longrightarrow> fst (get r) = None"
    and get_ok: "reader_ok r \<Longrightarrow> p (unread r) = Some (v, rest) \<Longrightarrow>
      \<exists>r'. get r = (Some v, r') \<and> reader_ok r' \<and> unread r' = rest \<and> rdata r' = rdata r"

definition p_u8 :: "u8 list \<Rightarrow> (u8 \<times> u8 list) option" where
  "p_u8 bs = (case bs of [] \<Rightarrow> None | b # r \<Rightarrow> Some (b, r))"

definition p_bytes :: "nat \<Rightarrow> u8 list \<Rightarrow> (u8 list \<times> u8 list) option" where
  "p_bytes n bs = (if n \<le> length bs then Some (take n bs, drop n bs) else None)"

definition p_word :: "endian \<Rightarrow> u8 list \<Rightarrow> ('a::len word \<times> u8 list) option" where
  "p_word e bs = map_option (\<lambda>(w, r). (word_of_wire e w, r)) (p_bytes (LENGTH('a) div 8) bs)"

definition p_u24 :: "endian \<Rightarrow> u8 list \<Rightarrow> (u32 \<times> u8 list) option" where
  "p_u24 e bs = map_option (\<lambda>(w, r). (word_of_wire e w, r)) (p_bytes 3 bs)"

definition p_prefixed :: "(u8 list \<Rightarrow> ('a::len word \<times> u8 list) option) \<Rightarrow> u8 list \<Rightarrow> (u8 list \<times> u8 list) option" where
  "p_prefixed p bs = (case p bs of None \<Rightarrow> None | Some (len, r) \<Rightarrow> p_bytes (unat len) r)"

lemma nth_unread: "i < length (unread r) \<Longrightarrow> rdata r ! (roffset r + i) = unread r ! i"
  by (simp add: unread_def)

lemmas reader_simps = reader_ensure_iff reader_advance_ok unread_def [symmetric]

lemma read_u8_refines: "reader_op read_u8 p_u8"
proof
  fix r assume r: "reader_ok r"
  { assume "p_u8 (unread r) = None" with r show "fst (read_u8 r) = None"
      by (auto simp: read_u8_def p_u8_def reader_simps split: list.splits) }
  { fix v rest assume "p_u8 (unread r) = Some (v, rest)"
    then have "unread r = v # rest" by (auto simp: p_u8_def split: list.splits)
    with r nth_unread [of 0 r]
    show "\<exists>r'. read_u8 r = (Some v, r') \<and> reader_ok r' \<and> unread r' = rest \<and> rdata r' = rdata r"
      by (auto simp: read_u8_def reader_simps) }
qed

lemma read_bytes_refines: "n < 2 ^ 63 \<Longrightarrow> reader_op (read_bytes n) (p_bytes n)"
  by unfold_locales (auto simp: read_bytes_def p_bytes_def reader_simps split: if_splits)

lemma read_words_refine:
  "reader_op (read_u16 native e) (p_word e)" "reader_op (read_u32 native e) (p_word e)"
  "reader_op (read_u64 native e) (p_word e)"
  by (unfold_locales; auto simp: read_u16_def read_u32_def read_u64_def p_word_def p_bytes_def reader_simps
      word_of_mem_wire split: if_splits)+

lemma word_of_wire_3:
  "(word_of_wire big [a, b, c] :: u32) = push_bit 16 (ucast a) OR push_bit 8 (ucast b) OR ucast c"
  "(word_of_wire little [a, b, c] :: u32) = push_bit 16 (ucast c) OR push_bit 8 (ucast b) OR ucast a"
  by (auto simp: word_of_wire_def push_bit_or ac_simps)

lemma read_u24_refines: "reader_op (read_u24 e) (p_u24 e)"
proof
  fix r assume r: "reader_ok r"
  { assume "p_u24 e (unread r) = None" with r show "fst (read_u24 e r) = None"
      by (auto simp: read_u24_def p_u24_def p_bytes_def reader_simps split: if_splits) }
  { fix v rest assume p: "p_u24 e (unread r) = Some (v, rest)"
    then have l: "3 \<le> length (unread r)" by (auto simp: p_u24_def p_bytes_def split: if_splits)
    then obtain a b c where u: "unread r = a # b # c # drop 3 (unread r)"
      by (auto simp: numeral_3_eq_3 Suc_le_length_iff)
    from l have "unread r \<noteq> []" by auto
    then have n: "rdata r ! roffset r = a" "rdata r ! Suc (roffset r) = b"
      "rdata r ! Suc (Suc (roffset r)) = c"
      using nth_unread [of 0 r] nth_unread [of 1 r] nth_unread [of 2 r] l arg_cong [OF u, of "\<lambda>x. x ! 0"]
        arg_cong [OF u, of "\<lambda>x. x ! 1"] arg_cong [OF u, of "\<lambda>x. x ! 2"]
      by (auto simp: numeral_2_eq_2)
    have "take 3 (unread r) = [a, b, c]" by (subst u) (simp add: numeral_3_eq_3)
    with r p l n
    show "\<exists>r'. read_u24 e r = (Some v, r') \<and> reader_ok r' \<and> unread r' = rest \<and> rdata r' = rdata r"
      by (cases e) (auto simp: read_u24_def p_u24_def p_bytes_def reader_simps word_of_wire_3 Let_def) }
qed

lemma prefixed_refines:
  assumes g: "reader_op get p" and lt: "LENGTH('a) < 63"
  shows "reader_op (\<lambda>r. case get r of (None, r') \<Rightarrow> (None, r') | (Some len, r') \<Rightarrow> read_bytes (unat len) r')
           (p_prefixed (p :: u8 list \<Rightarrow> ('a::len word \<times> u8 list) option))"
proof
  have "(2::nat) ^ LENGTH('a) < 2 ^ 63" using lt by (intro power_strict_increasing) auto
  then have b: "reader_op (read_bytes (unat len)) (p_bytes (unat len))" for len :: "'a word"
    using unsigned_less [of len, where ?'a = nat] by (intro read_bytes_refines) linarith
  fix r assume r: "reader_ok r"
  { assume n: "p_prefixed p (unread r) = None"
    show "fst (case get r of (None, r') \<Rightarrow> (None, r') | (Some len, r') \<Rightarrow> read_bytes (unat len) r') = None"
    proof (cases "p (unread r)")
      case None
      then show ?thesis using reader_op.get_fail [OF g r] by (auto split: prod.splits option.splits)
    next
      case (Some a)
      then obtain len rest where "p (unread r) = Some (len, rest)" by (cases a) auto
      with reader_op.get_ok [OF g r] n reader_op.get_fail [OF b] show ?thesis
        by (fastforce simp: p_prefixed_def) 
    qed }
  { fix v rest assume s: "p_prefixed p (unread r) = Some (v, rest)"
    then obtain len rest' where l: "p (unread r) = Some (len, rest')" "p_bytes (unat len) rest' = Some (v, rest)"
      by (auto simp: p_prefixed_def split: option.splits)
    from reader_op.get_ok [OF g r l(1)] obtain r' where
      r': "get r = (Some len, r')" "reader_ok r'" "unread r' = rest'" "rdata r' = rdata r" by blast
    with reader_op.get_ok [OF b r'(2)] l(2)
    show "\<exists>r'. (case get r of (None, r') \<Rightarrow> (None, r') | (Some len, r') \<Rightarrow> read_bytes (unat len) r') = (Some v, r')
       \<and> reader_ok r' \<and> unread r' = rest \<and> rdata r' = rdata r" by fastforce }
qed

interpretation rd_u8: reader_op read_u8 p_u8
  by (rule read_u8_refines)

interpretation rd_u16: reader_op "read_u16 native e" "p_word e"
  by (rule read_words_refine)

interpretation rd_u32: reader_op "read_u32 native e" "p_word e"
  by (rule read_words_refine)

interpretation rd_u64: reader_op "read_u64 native e" "p_word e"
  by (rule read_words_refine)

interpretation rd_u24: reader_op "read_u24 e" "p_u24 e"
  by (rule read_u24_refines)

interpretation rd_u8_prefixed: reader_op read_u8_length_prefixed "p_prefixed p_u8"
  unfolding read_u8_length_prefixed_def [abs_def] by (rule prefixed_refines [OF read_u8_refines]) simp

interpretation rd_u16_prefixed: reader_op "read_u16_length_prefixed native e" "p_prefixed (p_word e :: _ \<Rightarrow> (u16 \<times> _) option)"
  unfolding read_u16_length_prefixed_def [abs_def] by (rule prefixed_refines [OF read_words_refine(1)]) simp

interpretation rd_u24_prefixed: reader_op read_u24_length_prefixed "p_prefixed (p_u24 big)"
  unfolding read_u24_length_prefixed_def [abs_def] by (rule prefixed_refines [OF read_u24_refines]) simp

section \<open>What a writer appends\<close>

definition wire_u24 :: "endian \<Rightarrow> u32 \<Rightarrow> u8 list" where
  "wire_u24 e v = (case e of little \<Rightarrow> take 3 (le_bytes v) | big \<Rightarrow> rev (take 3 (le_bytes v)))"

lemma le_bytes_16: "le_bytes (v :: u16) = [ucast v, ucast (drop_bit 8 v)]"
  by (simp add: le_bytes_def upt_rec)

lemma le_bytes_32: "le_bytes (v :: u32) = [ucast v, ucast (drop_bit 8 v), ucast (drop_bit 16 v), ucast (drop_bit 24 v)]"
  by (simp add: le_bytes_def upt_rec)

lemma ucast_and_ff: "(ucast (v AND 0xff :: u32) :: u8) = ucast v"
proof -
  have ff: "(0xff :: u32) = mask 8" by (simp add: mask_eq_exp_minus_1)
  show ?thesis unfolding ff by (auto intro!: bit_word_eqI simp: bit_simps)
qed

lemma wbuffer_write [simp]:
  "wbuffer (write_u8 b w) = wbuffer w @ [b]"
  "wbuffer (write_bytes bs w) = wbuffer w @ bs"
  "wbuffer (write_u24 v24 e w) = wbuffer w @ wire_u24 e v24"
  "wbuffer (write_string s w) = wbuffer w @ map byte_of_char s"
  by (cases e; simp add: write_u8_def write_bytes_def write_u24_def wire_u24_def le_bytes_32 ucast_and_ff
      write_string_def)+

declare wbuffer_write_words [simp]

lemma p_word_wire [simp]: "8 dvd LENGTH('a) \<Longrightarrow> p_word e (wire_bytes e v @ r) = Some (v :: 'a::len word, r)"
  by (simp add: p_word_def p_bytes_def word_of_wire_bytes)

lemma p_bytes_append [simp]: "p_bytes (length bs) (bs @ r) = Some (bs, r)"
  by (simp add: p_bytes_def)

lemma p_u8_Cons [simp]: "p_u8 (b # r) = Some (b, r)"
  by (simp add: p_u8_def)

lemma p_u24_wire [simp]:
  assumes "unat v < 2 ^ 24"
  shows "p_u24 e (wire_u24 e v @ r) = Some (v, r)"
proof -
  have "take_bit 24 v = v"
    using assms by (simp only: word_unat_eq_iff unsigned_take_bit_eq take_bit_nat_eq_self_iff)
  then have hi: "bit v i \<Longrightarrow> i < 24" for i by (metis bit_take_bit_iff)
  have "word_of_le (take 3 (le_bytes v)) = v"
  proof (rule bit_word_eqI)
    fix i assume i: "i < LENGTH(32)"
    show "bit (word_of_le (take 3 (le_bytes v)) :: u32) i = bit v i"
    proof (cases "i < 24")
      case True
      then have "i div 8 < 3" by auto
      with i show ?thesis by (simp add: bit_word_of_le bit_le_bytes)
    next
      case False
      then have "\<not> i div 8 < 3" by auto
      with hi [of i] False show ?thesis by (auto simp: bit_word_of_le)
    qed
  qed
  then show ?thesis by (cases e) (simp_all add: p_u24_def p_bytes_def wire_u24_def word_of_wire_def)
qed

lemma low_bytes_of_size:
  "(ucast (of_nat n :: u64) :: u8) = ucast (of_nat n :: u16)"
  "(ucast (drop_bit 8 (of_nat n :: u64)) :: u8) = ucast (drop_bit 8 (of_nat n :: u16))"
  by (auto intro!: bit_word_eqI simp: bit_simps)

lemma wbuffer_block:
  assumes "\<And>w. wbuffer (block_writer w) = wbuffer w @ bs"
  shows "wbuffer (write_u16_length_prefixed_block native block_writer w) =
    wbuffer w @ wire_bytes big (of_nat (length bs) :: u16) @ bs"
  using assms
  by (simp add: write_u16_length_prefixed_block_def Let_def wire_bytes_def le_bytes_16
      low_bytes_of_size list_update_append)

section \<open>Reading back what was written\<close>

lemma reader_ok_result:
  assumes "reader_ok r'" "unread r' = rest" "rdata r' = pre @ x @ rest"
  shows "r' = \<lparr>rdata = pre @ x @ rest, roffset = length pre + length x\<rparr>"
proof -
  have "length (rdata r') - roffset r' = length rest" "roffset r' \<le> length (rdata r')"
    using assms(1,2) by (auto simp: unread_def reader_ok_def)
  then have "roffset r' = length pre + length x" using assms(3) by simp
  then show ?thesis using assms(3) by (cases r') simp
qed

text \<open>Reading back what stands at a position of a buffer.\<close>

context reader_op
begin

lemma get_at:
  assumes "p (x @ rest) = Some (v, rest)" "length (pre @ x @ rest) < 2 ^ 63"
  shows "get \<lparr>rdata = pre @ x @ rest, roffset = length pre\<rparr> =
    (Some v, \<lparr>rdata = pre @ x @ rest, roffset = length pre + length x\<rparr>)"
proof -
  let ?r = "\<lparr>rdata = pre @ x @ rest, roffset = length pre\<rparr>"
  have "reader_ok ?r" "p (unread ?r) = Some (v, rest)"
    using assms by (auto simp: reader_ok_def unread_def)
  from get_ok [OF this] obtain r' where
    "get ?r = (Some v, r')" "reader_ok r'" "unread r' = rest" "rdata r' = rdata ?r" by blast
  moreover from this(4) have "rdata r' = pre @ x @ rest" by simp
  ultimately show ?thesis using reader_ok_result [of r' rest pre x] by (simp only:)
qed

end

lemma length_wire_u24 [simp]: "length (wire_u24 e v) = 3"
  by (cases e) (simp_all add: wire_u24_def)

lemma read_back:
  assumes "length pre < 2 ^ 62" "unat v24 < 2 ^ 24"
  shows "read_u16 native e \<lparr>rdata = pre @ wire_bytes e v16, roffset = length pre\<rparr> =
      (Some v16, \<lparr>rdata = pre @ wire_bytes e v16, roffset = length pre + 2\<rparr>)"
    and "read_u24 e \<lparr>rdata = pre @ wire_u24 e v24, roffset = length pre\<rparr> =
      (Some v24, \<lparr>rdata = pre @ wire_u24 e v24, roffset = length pre + 3\<rparr>)"
    and "read_u32 native e \<lparr>rdata = pre @ wire_bytes e v32, roffset = length pre\<rparr> =
      (Some v32, \<lparr>rdata = pre @ wire_bytes e v32, roffset = length pre + 4\<rparr>)"
    and "read_u64 native e \<lparr>rdata = pre @ wire_bytes e v64, roffset = length pre\<rparr> =
      (Some v64, \<lparr>rdata = pre @ wire_bytes e v64, roffset = length pre + 8\<rparr>)"
proof -
  have "length (pre @ wire_bytes e v16 @ []) < 2 ^ 63" "length (pre @ wire_u24 e v24 @ []) < 2 ^ 63"
    "length (pre @ wire_bytes e v32 @ []) < 2 ^ 63" "length (pre @ wire_bytes e v64 @ []) < 2 ^ 63"
    using assms(1) by simp_all
  note l = this
  show "read_u16 native e \<lparr>rdata = pre @ wire_bytes e v16, roffset = length pre\<rparr> =
      (Some v16, \<lparr>rdata = pre @ wire_bytes e v16, roffset = length pre + 2\<rparr>)"
    using rd_u16.get_at [OF p_word_wire l(1)] by simp
  show "read_u24 e \<lparr>rdata = pre @ wire_u24 e v24, roffset = length pre\<rparr> =
      (Some v24, \<lparr>rdata = pre @ wire_u24 e v24, roffset = length pre + 3\<rparr>)"
    using rd_u24.get_at [OF p_u24_wire [OF assms(2)] l(2)] by simp
  show "read_u32 native e \<lparr>rdata = pre @ wire_bytes e v32, roffset = length pre\<rparr> =
      (Some v32, \<lparr>rdata = pre @ wire_bytes e v32, roffset = length pre + 4\<rparr>)"
    using rd_u32.get_at [OF p_word_wire l(3)] by simp
  show "read_u64 native e \<lparr>rdata = pre @ wire_bytes e v64, roffset = length pre\<rparr> =
      (Some v64, \<lparr>rdata = pre @ wire_bytes e v64, roffset = length pre + 8\<rparr>)"
    using rd_u64.get_at [OF p_word_wire l(4)] by simp
qed

lemma u24_sample: "ucast (66051 :: u32) = (3 :: u8)" "ucast (258 :: u32) = (2 :: u8)"
  by simp_all

text \<open>A 16, 24, 32 or 64 bit value that a writer appended, in either byte order, is read back by the
  reader positioned there, and the reader then stands behind it. The writing and the reading machine
  may have different native byte orders. A 24 bit value must fit its three bytes.\<close>

theorem word_roundtrip:
  assumes "length (wbuffer w) < 2 ^ 62" "unat v24 < 2 ^ 24"
  shows "read_u16 native' e \<lparr>rdata = wbuffer (write_u16 native v16 e w), roffset = length (wbuffer w)\<rparr> =
      (Some v16, \<lparr>rdata = wbuffer w @ wire_bytes e v16, roffset = length (wbuffer w) + 2\<rparr>) \<and>
    read_u24 e \<lparr>rdata = wbuffer (write_u24 v24 e w), roffset = length (wbuffer w)\<rparr> =
      (Some v24, \<lparr>rdata = wbuffer w @ wire_u24 e v24, roffset = length (wbuffer w) + 3\<rparr>) \<and>
    read_u32 native' e \<lparr>rdata = wbuffer (write_u32 native v32 e w), roffset = length (wbuffer w)\<rparr> =
      (Some v32, \<lparr>rdata = wbuffer w @ wire_bytes e v32, roffset = length (wbuffer w) + 4\<rparr>) \<and>
    read_u64 native' e \<lparr>rdata = wbuffer (write_u64 native v64 e w), roffset = length (wbuffer w)\<rparr> =
      (Some v64, \<lparr>rdata = wbuffer w @ wire_bytes e v64, roffset = length (wbuffer w) + 8\<rparr>)"
  using assms by (simp add: read_back)

text \<open>The two length bytes that \<open>write_u16_length_prefixed_block\<close> patches in after it ran the block
  writer are the ones the reader needs: it gets exactly the bytes of the block and stops behind them.
  The block must be shorter than 65536 bytes.\<close>

theorem length_prefix_roundtrip:
  assumes "\<And>w. wbuffer (block_writer w) = wbuffer w @ bs" "length bs < 65536" "length (wbuffer w) < 2 ^ 62"
  shows "read_u16_length_prefixed native' big
      \<lparr>rdata = wbuffer (write_u16_length_prefixed_block native block_writer w), roffset = length (wbuffer w)\<rparr> =
    (Some bs, \<lparr>rdata = wbuffer (write_u16_length_prefixed_block native block_writer w),
               roffset = length (wbuffer w) + 2 + length bs\<rparr>)"
proof -
  let ?x = "wire_bytes big (of_nat (length bs) :: u16) @ bs"
  have "p_prefixed (p_word big :: _ \<Rightarrow> (u16 \<times> _) option) (?x @ []) = Some (bs, [])"
    using assms(2) p_bytes_append [of bs "[]"] by (simp add: p_prefixed_def unat_of_nat)
  moreover have "length (wbuffer w @ ?x @ []) < 2 ^ 63" using assms(2,3) by simp
  ultimately show ?thesis
    using rd_u16_prefixed.get_at [of big ?x "[]" bs "wbuffer w" native'] by (simp add: wbuffer_block [OF assms(1)] add.assoc)
qed

lemma reader_ok_checked:
  "reader_ok r \<Longrightarrow> k < 2 ^ 63 \<Longrightarrow>
    reader_ok (snd (if \<not> reader_ensure k r then (x, r) else (v, reader_advance k r)))"
  by (simp add: reader_ensure_iff reader_advance_ok)

text \<open>No read, skip or seek moves the reader out of its buffer, whether it succeeds or fails: the
  invariant \<open>reader_ok\<close> is kept. The requested size is below the point where the position could wrap
  around.\<close>

theorem reads_stay_inside:
  assumes "reader_ok r" "n < 2 ^ 63"
  shows "reader_ok (snd (read_u8 r)) \<and> reader_ok (snd (read_bytes n r)) \<and>
    reader_ok (snd (read_u16 native e r)) \<and> reader_ok (snd (read_u24 e r)) \<and>
    reader_ok (snd (read_u32 native e r)) \<and> reader_ok (snd (read_u64 native e r)) \<and>
    reader_ok (snd (reader_skip n r)) \<and> reader_ok (snd (reader_seek m r))"
proof (intro conjI)
  show "reader_ok (snd (reader_seek m r))" using assms(1) by (simp add: reader_seek_def reader_ok_def)
  show "reader_ok (snd (read_u8 r))" unfolding read_u8_def by (rule reader_ok_checked [OF assms(1)]) simp
  show "reader_ok (snd (read_bytes n r))" unfolding read_bytes_def by (rule reader_ok_checked [OF assms])
  show "reader_ok (snd (read_u16 native e r))" unfolding read_u16_def by (rule reader_ok_checked [OF assms(1)]) simp
  show "reader_ok (snd (read_u24 e r))" unfolding read_u24_def Let_def by (rule reader_ok_checked [OF assms(1)]) simp
  show "reader_ok (snd (read_u32 native e r))" unfolding read_u32_def by (rule reader_ok_checked [OF assms(1)]) simp
  show "reader_ok (snd (read_u64 native e r))" unfolding read_u64_def by (rule reader_ok_checked [OF assms(1)]) simp
  show "reader_ok (snd (reader_skip n r))" unfolding reader_skip_def by (rule reader_ok_checked [OF assms])
qed

end
