(* ===== verification/Pptls.thy ===== *)
theory Pptls
  imports Binary_Util
begin

text \<open>
  Model of \<^verbatim>\<open>ppnt-io/src/net/pptls.ixx\<close> and \<^verbatim>\<open>ppnt-io/src/net/pptls.cpp\<close>: the rewriter that
  replaces the cipher suites, compression methods and extensions of a TLS ClientHello by those
  of a specification. \<open>rewrite\<close> follows the code: it reads the message with a
  \<open>BinaryReader\<close> and builds the new one with a \<open>BinartWriter\<close>, patching the 24-bit
  handshake length at the end. Below it stand the message as data, a parser and a serialiser for
  it, and the transformation that the rewriter performs on it.
\<close>

section \<open>The specification of a hello\<close>

datatype Strategy = Auto | ForceData | Drop

record TlsExtensionConfig =
  cfg_id :: u16
  strategy :: Strategy
  cfg_data :: "u8 list"

record ClientHelloSpec =
  cipher_suites :: "u16 list"
  compression_method :: "u8 list"
  spec_extensions :: "TlsExtensionConfig list"

type_synonym extension = "u16 \<times> u8 list"

section \<open>The rewriter\<close>

definition bad :: "string \<Rightarrow> 'a result" where
  "bad msg = Inl (Error bad_message msg)"

text \<open>One read followed by its test: \<open>if (!x) return make_err_result(bad_message, msg)\<close>.\<close>

definition need ::
    "string \<Rightarrow> 'a option \<times> BinaryReader \<Rightarrow> ('a \<Rightarrow> BinaryReader \<Rightarrow> 'b result option) \<Rightarrow> 'b result option" where
  "need msg q k = (case q of (None, r) \<Rightarrow> Some (bad msg) | (Some v, r) \<Rightarrow> k v r)"

text \<open>The loop over the extension block.\<close>

partial_function (option) parse_extensions ::
    "endian \<Rightarrow> BinaryReader \<Rightarrow> extension list \<Rightarrow> extension list result option" where
  "parse_extensions native r acc =
     (if reader_remaining r = 0 then Some (Inr acc)
      else case read_u16 native big r of (ty, r1) \<Rightarrow>
        (case read_u16 native big r1 of (len, r2) \<Rightarrow>
          (case ty of None \<Rightarrow> Some (bad ''cannot read type or len'')
           | Some t \<Rightarrow>
             (case len of None \<Rightarrow> Some (bad ''cannot read type or len'')
              | Some n \<Rightarrow>
                (case read_bytes (unat n) r2 of
                   (None, r3) \<Rightarrow> Some (bad ''cannot read data'')
                 | (Some d, r3) \<Rightarrow> parse_extensions native r3 (acc @ [(t, d)]))))))"

fun write_ciphers :: "endian \<Rightarrow> u16 list \<Rightarrow> BinartWriter \<Rightarrow> BinartWriter" where
  "write_ciphers native [] w = w"
| "write_ciphers native (c # cs) w = write_ciphers native cs (write_u16 native c big w)"

definition write_extension :: "endian \<Rightarrow> u16 \<Rightarrow> u8 list \<Rightarrow> BinartWriter \<Rightarrow> BinartWriter" where
  "write_extension native ty payload w =
     write_bytes payload (write_u16 native (of_nat (length payload)) big (write_u16 native ty big w))"

text \<open>The loop over \<open>spec.extensions\<close>, with \<open>handled_ext_ids\<close>.\<close>

fun write_spec_extensions ::
    "endian \<Rightarrow> extension list \<Rightarrow> TlsExtensionConfig list \<Rightarrow> u16 list \<Rightarrow> BinartWriter
       \<Rightarrow> u16 list \<times> BinartWriter" where
  "write_spec_extensions native parsed [] handled w = (handled, w)"
| "write_spec_extensions native parsed (cfg # cfgs) handled w =
     (let handled' = handled @ [cfg_id cfg]
      in case strategy cfg of
           Drop \<Rightarrow> write_spec_extensions native parsed cfgs handled' w
         | ForceData \<Rightarrow> write_spec_extensions native parsed cfgs handled'
                        (write_extension native (cfg_id cfg) (cfg_data cfg) w)
         | Auto \<Rightarrow>
             (case find (\<lambda>p. fst p = cfg_id cfg) parsed of
                None \<Rightarrow> write_spec_extensions native parsed cfgs handled' w
              | Some p \<Rightarrow> write_spec_extensions native parsed cfgs handled'
                           (write_extension native (cfg_id cfg) (snd p) w)))"

text \<open>The loop over the parsed extensions that the specification does not mention.\<close>

fun write_other_extensions ::
    "endian \<Rightarrow> u16 list \<Rightarrow> extension list \<Rightarrow> BinartWriter \<Rightarrow> BinartWriter" where
  "write_other_extensions native handled [] w = w"
| "write_other_extensions native handled ((t, d) # ps) w =
     (if t \<in> set handled then write_other_extensions native handled ps w
      else write_other_extensions native handled ps (write_extension native t d w))"

definition write_extension_block ::
    "endian \<Rightarrow> extension list \<Rightarrow> ClientHelloSpec \<Rightarrow> BinartWriter \<Rightarrow> BinartWriter" where
  "write_extension_block native parsed spec w =
     (case write_spec_extensions native parsed (spec_extensions spec) [] w of
        (handled, w') \<Rightarrow> write_other_extensions native handled parsed w')"

text \<open>The second half of \<open>rewrite\<close>: everything after the message has been read.\<close>

definition write_hello ::
    "endian \<Rightarrow> u16 \<Rightarrow> u8 list \<Rightarrow> u8 \<Rightarrow> u8 list \<Rightarrow> extension list \<Rightarrow> ClientHelloSpec \<Rightarrow> u8 list" where
  "write_hello native legacy_ver random session_id_len session_id parsed spec =
     (let w0 = write_u8 0x01 \<lparr>wbuffer = []\<rparr>;
          len_pos_idx = length (wbuffer w0);
          w1 = write_u8 0 (write_u8 0 (write_u8 0 w0));
          body_start_idx = length (wbuffer w1);
          w2 = write_bytes random (write_u16 native legacy_ver big w1);
          w3 = write_bytes session_id (write_u8 session_id_len w2);
          w4 = write_u16_length_prefixed_block native (write_ciphers native (cipher_suites spec)) w3;
          w5 = write_bytes (compression_method spec)
                 (write_u8 (of_nat (length (compression_method spec))) w4);
          w6 = write_u16_length_prefixed_block native (write_extension_block native parsed spec) w5;
          body_end_idx = length (wbuffer w6);
          body_len = (of_nat body_end_idx - of_nat body_start_idx :: u64)
      in (wbuffer w6)[len_pos_idx := ucast (drop_bit 16 body_len),
                      len_pos_idx + 1 := ucast (drop_bit 8 body_len),
                      len_pos_idx + 2 := ucast body_len])"

definition rewrite :: "endian \<Rightarrow> u8 list \<Rightarrow> ClientHelloSpec \<Rightarrow> u8 list result option" where
  "rewrite native original spec =
     (let (handshake_type, r1) = read_u8 (make_reader original);
          (handshake_len, r2) = read_bytes 3 r1
      in case handshake_type of
        None \<Rightarrow> Some (bad ''cannot read handshake type'')
      | Some t \<Rightarrow>
        (if t \<noteq> 0x01 then Some (bad ''not a client hello'')
        else (case handshake_len of
          None \<Rightarrow> Some (bad ''cannot read handshake len'')
        | Some hl \<Rightarrow>
          need ''cannot read legacy version'' (read_u16 native big r2) (\<lambda>legacy_ver r3.
          need ''cannot read random'' (read_bytes 32 r3) (\<lambda>random r4.
          need ''cannot read session id len'' (read_u8 r4) (\<lambda>session_id_len r5.
          need ''cannot read session id'' (read_bytes (unat session_id_len) r5) (\<lambda>session_id r6.
          need ''cannot read ciphers len'' (read_u16 native big r6) (\<lambda>ciphers_len r7.
          need ''cannot read ciphers'' (read_bytes (unat ciphers_len) r7) (\<lambda>_ r8.
          need ''cannot read compress len'' (read_u8 r8) (\<lambda>comp_len r9.
          need ''cannot read compress'' (read_bytes (unat comp_len) r9) (\<lambda>_ r10.
          need ''cannot read extension block len'' (read_u16 native big r10) (\<lambda>ext_block_len r11.
          need ''cannot read ext_block_data'' (read_bytes (unat ext_block_len) r11) (\<lambda>ext_block_data r12.
            (case parse_extensions native (make_reader ext_block_data) [] of
               None \<Rightarrow> None
             | Some (Inl e) \<Rightarrow> Some (Inl e)
             | Some (Inr parsed) \<Rightarrow>
                 Some (Inr (write_hello native legacy_ver random session_id_len session_id
                              parsed spec))))))))))))))))"

section \<open>The message as data\<close>

record ClientHello =
  legacy_version :: u16
  hello_random :: "u8 list"
  hello_session_id :: "u8 list"
  hello_ciphers :: "u8 list"
  hello_compression :: "u8 list"
  hello_extensions :: "extension list"

fun p_extensions :: "nat \<Rightarrow> u8 list \<Rightarrow> extension list option" where
  "p_extensions fuel [] = Some []"
| "p_extensions 0 bs = None"
| "p_extensions (Suc fuel) bs =
     do { (t, bs1) \<leftarrow> p_word big bs;
          (d, bs2) \<leftarrow> p_prefixed (p_word big :: _ \<Rightarrow> (u16 \<times> _) option) bs1;
          es \<leftarrow> p_extensions fuel bs2;
          Some ((t, d) # es) }"

text \<open>A ClientHello at the front of a byte string; the 24-bit length and what follows are ignored.\<close>

definition p_hello :: "u8 list \<Rightarrow> ClientHello option" where
  "p_hello bs =
     do { (t, bs) \<leftarrow> p_u8 bs;
          (if t = 1 then Some () else None);
          (_, bs) \<leftarrow> p_bytes 3 bs;
          (ver, bs) \<leftarrow> p_word big bs;
          (rnd, bs) \<leftarrow> p_bytes 32 bs;
          (sid, bs) \<leftarrow> p_prefixed p_u8 bs;
          (ciph, bs) \<leftarrow> p_prefixed (p_word big :: _ \<Rightarrow> (u16 \<times> _) option) bs;
          (comp, bs) \<leftarrow> p_prefixed p_u8 bs;
          (blk, _) \<leftarrow> p_prefixed (p_word big :: _ \<Rightarrow> (u16 \<times> _) option) bs;
          es \<leftarrow> p_extensions (length blk) blk;
          Some \<lparr>legacy_version = ver, hello_random = rnd, hello_session_id = sid,
                hello_ciphers = ciph, hello_compression = comp, hello_extensions = es\<rparr> }"

definition ser_extension :: "extension \<Rightarrow> u8 list" where
  "ser_extension e =
     wire_bytes big (fst e) @ wire_bytes big (of_nat (length (snd e)) :: u16) @ snd e"

definition ser_body :: "ClientHello \<Rightarrow> u8 list" where
  "ser_body h =
     wire_bytes big (legacy_version h) @ hello_random h
     @ of_nat (length (hello_session_id h)) # hello_session_id h
     @ wire_bytes big (of_nat (length (hello_ciphers h)) :: u16) @ hello_ciphers h
     @ of_nat (length (hello_compression h)) # hello_compression h
     @ (let blk = concat (map ser_extension (hello_extensions h))
        in wire_bytes big (of_nat (length blk) :: u16) @ blk)"

definition ser_hello :: "ClientHello \<Rightarrow> u8 list" where
  "ser_hello h = 1 # wire_u24 big (of_nat (length (ser_body h))) @ ser_body h"

text \<open>The extensions of the new hello: those of the specification in its order, then the others.\<close>

definition spec_payload :: "extension list \<Rightarrow> TlsExtensionConfig \<Rightarrow> extension option" where
  "spec_payload parsed cfg =
     (case strategy cfg of
        Drop \<Rightarrow> None
      | ForceData \<Rightarrow> Some (cfg_id cfg, cfg_data cfg)
      | Auto \<Rightarrow> map_option (Pair (cfg_id cfg)) (map_of parsed (cfg_id cfg)))"

definition new_extensions :: "ClientHelloSpec \<Rightarrow> extension list \<Rightarrow> extension list" where
  "new_extensions spec parsed =
     List.map_filter (spec_payload parsed) (spec_extensions spec)
     @ filter (\<lambda>e. fst e \<notin> cfg_id ` set (spec_extensions spec)) parsed"

definition transform :: "ClientHelloSpec \<Rightarrow> ClientHello \<Rightarrow> ClientHello" where
  "transform spec h =
     h\<lparr>hello_ciphers := concat (map (wire_bytes big) (cipher_suites spec)),
       hello_compression := compression_method spec,
       hello_extensions := new_extensions spec (hello_extensions h)\<rparr>"

text \<open>Every length fits the field that carries it.\<close>

definition hello_fits :: "ClientHello \<Rightarrow> bool" where
  "hello_fits h \<longleftrightarrow> length (hello_random h) = 32 \<and> length (hello_session_id h) < 256 \<and>
     length (hello_ciphers h) < 65536 \<and> length (hello_compression h) < 256 \<and>
     list_all (\<lambda>e. length (snd e) < 65536) (hello_extensions h) \<and>
     length (concat (map ser_extension (hello_extensions h))) < 65536"

section \<open>Reading\<close>

lemma reader_remaining_unread: "reader_ok r \<Longrightarrow> reader_remaining r = length (unread r)"
  by (auto simp: reader_ok_def reader_remaining_def unread_def le_mod_geq)

lemma p_bytes_length: "p_bytes n bs = Some (x, rest) \<Longrightarrow> length x = n \<and> bs = x @ rest"
  by (auto simp: p_bytes_def split: if_splits)

lemma p_word_length: "p_word e bs = Some ((v :: 'a::len word), rest) \<Longrightarrow> length bs = LENGTH('a) div 8 + length rest"
  by (auto simp: p_word_def dest!: p_bytes_length)

text \<open>The code either returns the value of the specification or a \<open>bad_message\<close> error.\<close>

definition agrees :: "'b result option \<Rightarrow> 'b option \<Rightarrow> bool" where
  "agrees x q = (case q of None \<Rightarrow> \<exists>msg. x = Some (bad msg) | Some v \<Rightarrow> x = Some (Inr v))"

lemma agrees_need:
  assumes "reader_op get p" "reader_ok r" "unread r = bs"
    and "\<And>v r' rest. p bs = Some (v, rest) \<Longrightarrow> reader_ok r' \<Longrightarrow> unread r' = rest \<Longrightarrow> agrees (k v r') (kk v rest)"
  shows "agrees (need msg (get r) k) (p bs \<bind> (\<lambda>(v, rest). kk v rest))"
proof (cases "p bs")
  case None
  with assms(3) reader_op.get_fail [OF assms(1,2)] obtain r' where "get r = (None, r')" by (cases "get r") auto
  with None show ?thesis by (auto simp: need_def agrees_def)
next
  case (Some a)
  then obtain v rest where s: "p bs = Some (v, rest)" by (cases a) auto
  with assms(3) reader_op.get_ok [OF assms(1,2)] obtain r' where
    "get r = (Some v, r')" "reader_ok r'" "unread r' = rest" by blast
  with assms(4) [OF s] s show ?thesis by (simp add: need_def)
qed

lemma unat_u16_less: "unat (n :: u16) < 65536"
  using unsigned_less [of n, where ?'a = nat] by simp

lemma read_bytes_u16: "reader_op (read_bytes (unat (n :: u16))) (p_bytes (unat n))"
  using unsigned_less [of n, where ?'a = nat] by (intro read_bytes_refines) simp

lemma read_bytes_u8: "reader_op (read_bytes (unat (n :: u8))) (p_bytes (unat n))"
  by (intro read_bytes_refines less_trans [OF unat_byte_less]) simp

lemmas reader_refines = read_words_refine(1) read_u8_refines read_bytes_u16 read_bytes_u8

lemma p_prefixed_bind: "p_prefixed p bs = p bs \<bind> (\<lambda>(len, r). p_bytes (unat len) r)"
  by (auto simp: p_prefixed_def split: option.splits)

lemma parse_extensions_agrees:
  assumes "reader_ok r" "length (unread r) \<le> fuel"
  shows "agrees (parse_extensions native r acc) (map_option ((@) acc) (p_extensions fuel (unread r)))"
  using assms
proof (induction fuel arbitrary: r acc)
  case 0
  then show ?case by (simp add: agrees_def parse_extensions.simps reader_remaining_unread)
next
  case (Suc fuel)
  show ?case
  proof (cases "unread r")
    case Nil
    with Suc.prems show ?thesis by (simp add: agrees_def parse_extensions.simps reader_remaining_unread)
  next
    case (Cons b bs)
    then have ne: "reader_remaining r \<noteq> 0" "p_extensions (Suc fuel) (unread r) =
      do { (t, bs1) \<leftarrow> p_word big (unread r); (len, bs2) \<leftarrow> (p_word big bs1 :: (u16 \<times> _) option);
          (d, bs3) \<leftarrow> p_bytes (unat len) bs2; es \<leftarrow> p_extensions fuel bs3; Some ((t, d) # es) }"
      using Suc.prems by (simp_all add: reader_remaining_unread p_prefixed_bind case_prod_beta' del: p_extensions.simps(1))
    have eq: "parse_extensions native r acc =
      need ''cannot read type or len'' (read_u16 native big r) (\<lambda>t r1.
      need ''cannot read type or len'' (read_u16 native big r1) (\<lambda>n r2.
      need ''cannot read data'' (read_bytes (unat n) r2) (\<lambda>d r3. parse_extensions native r3 (acc @ [(t, d)]))))"
      by (subst parse_extensions.simps) (use ne in \<open>auto simp: need_def split: prod.splits option.splits\<close>)
    have "map_option ((@) acc) (p_extensions (Suc fuel) (unread r)) =
      p_word big (unread r) \<bind> (\<lambda>(t, bs1). (p_word big bs1 :: (u16 \<times> _) option) \<bind> (\<lambda>(len, bs2).
        p_bytes (unat len) bs2 \<bind> (\<lambda>(d, bs3).
        map_option ((@) (acc @ [(t, d)])) (p_extensions fuel bs3))))"
      unfolding ne(2) by (auto split: Option.bind_splits)
    moreover have "agrees (parse_extensions native r acc) \<dots>"
      unfolding eq
      apply (rule agrees_need, rule reader_refines, rule Suc.prems(1), rule refl)
      apply (rule agrees_need, rule reader_refines, assumption, assumption)
      apply (rule agrees_need, rule reader_refines, assumption, assumption)
      using Suc.prems(2) Suc.IH by (fastforce dest!: p_word_length p_bytes_length)
    ultimately show ?thesis by simp
  qed
qed

lemma append_Nil_id: "(@) [] = (\<lambda>x. x)"
  by auto

lemma agrees_if: "(\<not> c \<Longrightarrow> agrees x q) \<Longrightarrow> agrees (if c then Some (bad msg) else x) (if c then None else q)"
  by (auto simp: agrees_def)

lemma agrees_map:
  assumes "agrees x q"
  shows "agrees (case x of None \<Rightarrow> None | Some (Inl e) \<Rightarrow> Some (Inl e) | Some (Inr v) \<Rightarrow> Some (Inr (f v)))
    (map_option f q)"
  using assms by (auto simp: agrees_def bad_def split: option.splits)



section \<open>Writing\<close>

lemma wbuffer_write_ciphers: "wbuffer (write_ciphers native cs w) = wbuffer w @ concat (map (wire_bytes big) cs)"
  by (induction native cs w rule: write_ciphers.induct) simp_all

lemma wbuffer_write_extension: "wbuffer (write_extension native t d w) = wbuffer w @ ser_extension (t, d)"
  by (simp add: write_extension_def ser_extension_def)

lemma find_fst_map_of: "find (\<lambda>p. fst p = k) ps = map_option (Pair k) (map_of ps k)"
  by (induction ps) auto

lemma write_spec_extensions_eq:
  "fst (write_spec_extensions native parsed cfgs handled w) = handled @ map cfg_id cfgs \<and>
   wbuffer (snd (write_spec_extensions native parsed cfgs handled w)) =
     wbuffer w @ concat (map ser_extension (List.map_filter (spec_payload parsed) cfgs))"
  by (induction cfgs arbitrary: handled w)
    (auto simp: Let_def wbuffer_write_extension spec_payload_def find_fst_map_of map_filter_simps
      split: Strategy.splits option.splits)

lemma wbuffer_write_other_extensions:
  "wbuffer (write_other_extensions native handled ps w) =
     wbuffer w @ concat (map ser_extension (filter (\<lambda>e. fst e \<notin> set handled) ps))"
  by (induction native handled ps w rule: write_other_extensions.induct)
    (simp_all add: wbuffer_write_extension)

lemma wbuffer_write_extension_block:
  "wbuffer (write_extension_block native parsed spec w) =
     wbuffer w @ concat (map ser_extension (new_extensions spec parsed))"
  using write_spec_extensions_eq [of native parsed "spec_extensions spec" "[]" w]
  by (auto simp: write_extension_block_def new_extensions_def wbuffer_write_other_extensions split: prod.splits)

lemma low_bytes_of_size_24:
  "(ucast (of_nat n :: u64) :: u8) = ucast (of_nat n :: u32)"
  "(ucast (drop_bit 8 (of_nat n :: u64)) :: u8) = ucast (drop_bit 8 (of_nat n :: u32))"
  "(ucast (drop_bit 16 (of_nat n :: u64)) :: u8) = ucast (drop_bit 16 (of_nat n :: u32))"
  by (auto intro!: bit_word_eqI simp: bit_simps)

lemma patch_length:
  "([1, 0, 0, 0] @ body)
     [Suc 0 := ucast (drop_bit 16 (of_nat (length body) :: u64)),
      Suc (Suc 0) := ucast (drop_bit 8 (of_nat (length body) :: u64)),
      Suc (Suc (Suc 0)) := ucast (of_nat (length body) :: u64)] =
   1 # wire_u24 big (of_nat (length body)) @ body"
  by (simp add: wire_u24_def le_bytes_32 low_bytes_of_size_24)

lemma write_hello_eq:
  assumes "length sid = unat sl"
  shows "write_hello native ver rnd sl sid parsed spec =
    ser_hello (transform spec \<lparr>legacy_version = ver, hello_random = rnd, hello_session_id = sid,
                hello_ciphers = ciph, hello_compression = cm, hello_extensions = parsed\<rparr>)"
    (is "_ = ser_hello ?h")
proof -
  let ?w3 = "write_bytes sid (write_u8 sl (write_bytes rnd (write_u16 native ver big
     (write_u8 0 (write_u8 0 (write_u8 0 (write_u8 1 \<lparr>wbuffer = []\<rparr>)))))))"
  let ?w4 = "write_u16_length_prefixed_block native (write_ciphers native (cipher_suites spec)) ?w3"
  let ?w5 = "write_bytes (compression_method spec) (write_u8 (of_nat (length (compression_method spec))) ?w4)"
  let ?w6 = "write_u16_length_prefixed_block native (write_extension_block native parsed spec) ?w5"
  have "wbuffer ?w6 = [1, 0, 0, 0] @ ser_body ?h"
    using assms
    by (simp add: ser_body_def transform_def Let_def wbuffer_block [OF wbuffer_write_ciphers]
        wbuffer_block [OF wbuffer_write_extension_block])
  then show ?thesis
    using patch_length [of "ser_body ?h"]
    by (simp add: write_hello_def Let_def ser_hello_def del: append_Cons append_Nil)
qed

section \<open>The rewriter implements the transformation\<close>

lemma p_hello_unfold:
  "map_option f (p_hello bs) = p_u8 bs \<bind> (\<lambda>(t, b1). if t \<noteq> 1 then None else
     p_bytes 3 b1 \<bind> (\<lambda>(_, b2). p_word big b2 \<bind> (\<lambda>(ver, b3). p_bytes 32 b3 \<bind> (\<lambda>(rnd, b4).
     p_u8 b4 \<bind> (\<lambda>(sl, b5). p_bytes (unat sl) b5 \<bind> (\<lambda>(sid, b6).
     p_word big b6 \<bind> (\<lambda>(cl :: u16, b7). p_bytes (unat cl) b7 \<bind> (\<lambda>(ciph, b8).
     p_u8 b8 \<bind> (\<lambda>(ml, b9). p_bytes (unat ml) b9 \<bind> (\<lambda>(cm, b10).
     p_word big b10 \<bind> (\<lambda>(el :: u16, b11). p_bytes (unat el) b11 \<bind> (\<lambda>(blk, _).
       map_option (\<lambda>es. f \<lparr>legacy_version = ver, hello_random = rnd, hello_session_id = sid,
                hello_ciphers = ciph, hello_compression = cm, hello_extensions = es\<rparr>)
         (p_extensions (length blk) blk)))))))))))))"
  unfolding p_hello_def p_prefixed_bind
  by (auto split: Option.bind_splits)

lemma rewrite_agrees:
  assumes "length original < 2 ^ 63"
  shows "agrees (rewrite native original spec) (map_option (\<lambda>h. ser_hello (transform spec h)) (p_hello original))"
proof -
  note ok = reader_ok_make [OF assms]
  have u: "unat (n :: u16) < 9223372036854775808" for n
    by (rule less_trans [OF unat_u16_less]) simp
  have p3: "reader_op (read_bytes 3) (p_bytes 3)" "reader_op (read_bytes 32) (p_bytes 32)"
    by (simp_all add: read_bytes_refines)
  let ?finish = "\<lambda>ver rnd sl sid blk. case parse_extensions native (make_reader blk) [] of
               None \<Rightarrow> None
             | Some (Inl e) \<Rightarrow> Some (Inl e)
             | Some (Inr parsed) \<Rightarrow> Some (Inr (write_hello native ver rnd sl sid parsed spec))"
  have eq: "rewrite native original spec =
    need ''cannot read handshake type'' (read_u8 (make_reader original)) (\<lambda>t r1.
      if t \<noteq> 0x01 then Some (bad ''not a client hello'')
      else need ''cannot read handshake len'' (read_bytes 3 r1) (\<lambda>hl r2. 
          need ''cannot read legacy version'' (read_u16 native big r2) (\<lambda>legacy_ver r3.
          need ''cannot read random'' (read_bytes 32 r3) (\<lambda>random r4.
          need ''cannot read session id len'' (read_u8 r4) (\<lambda>session_id_len r5.
          need ''cannot read session id'' (read_bytes (unat session_id_len) r5) (\<lambda>session_id r6.
          need ''cannot read ciphers len'' (read_u16 native big r6) (\<lambda>ciphers_len r7.
          need ''cannot read ciphers'' (read_bytes (unat ciphers_len) r7) (\<lambda>_ r8.
          need ''cannot read compress len'' (read_u8 r8) (\<lambda>comp_len r9.
          need ''cannot read compress'' (read_bytes (unat comp_len) r9) (\<lambda>_ r10.
          need ''cannot read extension block len'' (read_u16 native big r10) (\<lambda>ext_block_len r11.
          need ''cannot read ext_block_data'' (read_bytes (unat ext_block_len) r11) (\<lambda>ext_block_data r12.
            ?finish legacy_ver random session_id_len session_id ext_block_data))))))))))))"
    unfolding rewrite_def need_def [of "''cannot read handshake type''"] need_def [of "''cannot read handshake len''"] Let_def
    by (auto split: prod.splits option.splits)
  have wr: "agrees (?finish ver rnd sl sid blk) (map_option (\<lambda>es. ser_hello (transform spec
      \<lparr>legacy_version = ver, hello_random = rnd, hello_session_id = sid,
                hello_ciphers = ciph, hello_compression = cm, hello_extensions = es\<rparr>)) (p_extensions (length blk) blk))"
    if "length sid = unat sl" "length blk < 2 ^ 63" for ver rnd sl sid blk ciph cm
  proof -
    from parse_extensions_agrees [of "make_reader blk" "length blk" native "[]"] reader_ok_make [OF that(2)]
    have "agrees (parse_extensions native (make_reader blk) []) (p_extensions (length blk) blk)"
      by (simp add: append_Nil_id option.map_ident)
    from agrees_map [OF this, of "\<lambda>parsed. write_hello native ver rnd sl sid parsed spec"]
    show ?thesis by (simp add: write_hello_eq [OF that(1), of native ver rnd _ spec ciph cm] cong: option.case_cong sum.case_cong)
  qed
  show ?thesis unfolding eq p_hello_unfold
    apply (rule agrees_need, rule reader_refines, rule ok [THEN conjunct1], rule ok [THEN conjunct2])
    apply (rule agrees_if)
    apply (rule agrees_need, rule p3, assumption, assumption)
    apply (rule agrees_need, rule reader_refines, assumption, assumption)
    apply (rule agrees_need, rule p3, assumption, assumption)
    apply (rule agrees_need, rule reader_refines, assumption, assumption)+
    apply (rule wr)
    apply (auto dest!: p_bytes_length intro: u)
    done
qed

lemma p_prefixed_u16 [simp]:
  "length d < 65536 \<Longrightarrow> p_prefixed (p_word big :: _ \<Rightarrow> (u16 \<times> _) option) (wire_bytes big (of_nat (length d) :: u16) @ d @ r) = Some (d, r)"
  by (simp add: p_prefixed_def unat_of_nat)

lemma p_prefixed_u8 [simp]:
  "length d < 256 \<Longrightarrow> p_prefixed p_u8 (of_nat (length d) # d @ r) = Some (d, r)"
  by (simp add: p_prefixed_def unat_of_nat)

lemma p_extensions_ser:
  "list_all (\<lambda>e. length (snd e) < 65536) es \<Longrightarrow> length es \<le> fuel \<Longrightarrow>
     p_extensions fuel (concat (map ser_extension es)) = Some es"
proof (induction es arbitrary: fuel)
  case (Cons e es)
  then obtain f where f: "fuel = Suc f" "length es \<le> f" by (cases fuel) auto
  obtain b bs where ne: "ser_extension e @ concat (map ser_extension es) = b # bs"
    by (cases "ser_extension e @ concat (map ser_extension es)") (auto simp: ser_extension_def wire_bytes_def le_bytes_16)
  have IH: "p_extensions f (concat (map ser_extension es)) = Some es" using Cons f by simp
  have "p_word big (b # bs) = Some (fst e, wire_bytes big (of_nat (length (snd e)) :: u16) @ snd e
      @ concat (map ser_extension es))"
    unfolding ne [symmetric] by (simp add: ser_extension_def)
  then have "p_extensions (Suc f) (b # bs) = Some (e # es)" using Cons.prems IH by simp
  with f ne show ?case by simp
qed simp

lemma length_ser_extensions: "length es \<le> length (concat (map ser_extension es))"
  by (induction es) (auto simp: ser_extension_def)

lemma p_hello_ser:
  assumes "hello_fits h"
  shows "p_hello (ser_hello h @ rest) = Some h"
proof -
  have r: "p_bytes 32 (hello_random h @ r) = Some (hello_random h, r)" for r
    using assms by (simp add: hello_fits_def p_bytes_def)
  have t: "p_bytes 3 (wire_u24 big v @ r) = Some (wire_u24 big v, r)" for v r
    by (simp add: wire_u24_def p_bytes_def)
  show ?thesis
    using assms length_ser_extensions [of "hello_extensions h"]
    by (simp add: p_hello_def ser_hello_def ser_body_def hello_fits_def Let_def r t p_extensions_ser)
qed

section \<open>Properties\<close>

text \<open>C3: The rewriter always returns. On bytes that are not a ClientHello it returns a
  \<open>bad_message\<close> error, on a ClientHello it returns the serialisation of the transformed one,
  whatever the byte order of the machine.
\<close>

theorem rewrite_refines:
  assumes "length original < 2 ^ 63"
  shows "case p_hello original of
           None \<Rightarrow> (\<exists>msg. rewrite native original spec = Some (Inl (Error bad_message msg)))
         | Some h \<Rightarrow> rewrite native original spec = Some (Inr (ser_hello (transform spec h)))"
  using rewrite_agrees [OF assms, of native spec]
  by (simp add: agrees_def bad_def split: option.splits)

definition sample :: ClientHello where
  "sample =
     \<lparr>legacy_version = 0x0303, hello_random = replicate 32 7, hello_session_id = [9],
      hello_ciphers = [0x13, 1], hello_compression = [0], hello_extensions = [(0x17, [5, 6])]\<rparr>"

definition sample_hello :: "u8 list" where
  "sample_hello = ser_hello sample"

definition sample_spec :: ClientHelloSpec where
  "sample_spec =
     \<lparr>cipher_suites = [0x1a1a, 0x1302], compression_method = [0],
      spec_extensions = [\<lparr>cfg_id = 0x1a1a, strategy = ForceData, cfg_data = [0, 0]\<rparr>]\<rparr>"

theorem rewrite_refines_witness:
  "length sample_hello < 2 ^ 63 \<and>
   (case p_hello sample_hello of
      None \<Rightarrow> (\<exists>msg. rewrite little sample_hello sample_spec = Some (Inl (Error bad_message msg)))
    | Some h \<Rightarrow> rewrite little sample_hello sample_spec = Some (Inr (ser_hello (transform sample_spec h))))"
proof -
  have l: "length sample_hello < 2 ^ 63"
    by (simp add: sample_hello_def sample_def ser_hello_def ser_body_def ser_extension_def Let_def wire_u24_def)
  show ?thesis using l rewrite_refines [OF l, of little sample_spec] by blast
qed

text \<open>C34: When every length of the new hello fits its field, the rewritten message is a well-formed
  ClientHello: it parses to the transformed message, and its 24-bit handshake length is the
  number of bytes that follow it.
\<close>

theorem rewrite_wellformed:
  assumes "length original < 2 ^ 63" "p_hello original = Some h" "hello_fits (transform spec h)"
  shows "\<exists>out. rewrite native original spec = Some (Inr out) \<and> p_hello out = Some (transform spec h) \<and>
           p_u24 big (drop 1 out) = Some (of_nat (length out - 4), drop 4 out) \<and>
           length out - 4 < 2 ^ 24"
proof -
  let ?out = "ser_hello (transform spec h)"
  have "rewrite native original spec = Some (Inr ?out)"
    using rewrite_agrees [OF assms(1), of native spec] assms(2) by (simp add: agrees_def)
  moreover have "p_hello ?out = Some (transform spec h)"
    using p_hello_ser [OF assms(3), of "[]"] by simp
  moreover have l: "length (ser_body (transform spec h)) < 2 ^ 24"
    using assms(3) by (simp add: ser_body_def hello_fits_def Let_def)
  moreover have "drop 4 ?out = ser_body (transform spec h)" "length ?out - 4 = length (ser_body (transform spec h))"
    by (simp_all add: ser_hello_def wire_u24_def)
  moreover have "p_u24 big (drop 1 ?out) = Some (of_nat (length (ser_body (transform spec h))), ser_body (transform spec h))"
    using l by (simp add: ser_hello_def unat_of_nat)
  ultimately show ?thesis by auto
qed

theorem rewrite_wellformed_witness:
  "\<exists>h out. p_hello sample_hello = Some h \<and> hello_fits (transform sample_spec h) \<and>
     rewrite big sample_hello sample_spec = Some (Inr out) \<and>
     p_hello out = Some (transform sample_spec h)"
proof -
  have l: "length sample_hello < 2 ^ 63"
    by (simp add: sample_hello_def sample_def ser_hello_def ser_body_def ser_extension_def Let_def wire_u24_def)
  have "hello_fits sample" by (simp add: hello_fits_def sample_def ser_extension_def)
  then have h: "p_hello sample_hello = Some sample"
    using p_hello_ser [of sample "[]"] by (simp add: sample_hello_def)
  have f: "hello_fits (transform sample_spec sample)"
    by (simp add: hello_fits_def sample_def sample_spec_def transform_def new_extensions_def
        spec_payload_def map_filter_simps ser_extension_def)
  show ?thesis using rewrite_wellformed [OF l h f, of big] h f by blast
qed

end
