(* ===== verification/Url.thy ===== *)
theory Url
  imports Util
begin

text \<open>
  URLs: \<open>ppnt-io/src/net/url.ixx\<close> and \<open>url.cpp\<close>. A \<open>Url\<close> is the record of the seven private
  fields of the class. \<open>parse_authority\<close> works on a \<open>Url&\<close>, so its model returns the object as it is when
  the function returns, also when it returns an error. \<open>resolve\<close> reads \<open>err.error()\<close> of an
  \<open>expected\<close> that holds a value on one of its paths; the standard leaves that undefined, and the model
  returns \<open>None\<close> there.

  The library of lemmas reads a path as a list of segments and shows that the scanning loop of
  \<open>remove_dot_segments\<close> is the stack machine of RFC 3986 on it, and that \<open>parse\<close> inverts \<open>href\<close>.
\<close>

record Url =
  scheme_of :: string
  user_info :: string
  host_of :: string
  port_of :: int
  path_of :: string
  query_of :: string
  fragment_of :: string

definition default_url :: Url where
  "default_url =
     \<lparr>scheme_of = [], user_info = [], host_of = [], port_of = -1, path_of = ''/'', query_of = [],
      fragment_of = []\<rparr>"

definition set_host :: "string \<Rightarrow> Url \<Rightarrow> Url" where
  "set_host h u = u\<lparr>host_of := h\<rparr>"

definition set_path :: "string \<Rightarrow> Url \<Rightarrow> Url" where
  "set_path p u = u\<lparr>path_of := p\<rparr>"

definition port_or_default :: "Url \<Rightarrow> int" where
  "port_or_default u =
     (if port_of u \<noteq> -1 then port_of u
      else if scheme_of u = ''http'' then 80
      else if scheme_of u = ''https'' then 443
      else 0)"

section \<open>Operations\<close>

text \<open>
  Where the port starts in \<open>parse_authority\<close>: the last colon, unless it stands inside the brackets of an
  IPv6 address. The brackets themselves are taken off the host at the end.
\<close>

definition port_position :: "string \<Rightarrow> nat option" where
  "port_position authority =
     (case rfind_index (\<lambda>c. c = CHR '':'') authority of
        None \<Rightarrow> None
      | Some c \<Rightarrow>
          (case rfind_index (\<lambda>c. c = CHR '']'') authority of
             None \<Rightarrow> Some c
           | Some b \<Rightarrow> (if c > b then Some c else None)))"

definition strip_brackets :: "Url \<Rightarrow> Url" where
  "strip_brackets u =
     (if length (host_of u) \<ge> 2 \<and> hd (host_of u) = CHR ''['' \<and> last (host_of u) = CHR '']''
      then u\<lparr>host_of := take (length (host_of u) - 2) (drop 1 (host_of u))\<rparr> else u)"

definition parse_authority :: "string \<Rightarrow> Url \<Rightarrow> unit result \<times> Url" where
  "parse_authority authority0 url0 =
     (let (authority, url) =
            (case find_index (\<lambda>c. c = CHR ''@'') authority0 of
               None \<Rightarrow> (authority0, url0)
             | Some p \<Rightarrow> (drop (p + 1) authority0, url0\<lparr>user_info := take p authority0\<rparr>))
      in case port_position authority of
           Some c \<Rightarrow>
             (case from_chars_int (drop (c + 1) authority) of
                FC_ok port_num \<Rightarrow>
                  (Inr (), strip_brackets
                     (url\<lparr>port_of := port_num, host_of := to_lower_ascii_str (take c authority)\<rparr>))
              | _ \<Rightarrow> (Inl (Error invalid_argument ''InvalidPort''), url))
         | None \<Rightarrow>
             (Inr (), strip_brackets (url\<lparr>port_of := -1, host_of := to_lower_ascii_str authority\<rparr>)))"

text \<open>The loop of \<open>remove_dot_segments\<close>; \<open>output\<close> is the string built so far.\<close>

definition pop_segment :: "string \<Rightarrow> string" where
  "pop_segment out =
     (if out \<noteq> []
      then (case rfind_index (\<lambda>c. c = CHR ''/'') out of None \<Rightarrow> [] | Some i \<Rightarrow> take i out)
      else out)"

lemma find_slash_later:
  "find_index (\<lambda>c. c = CHR ''/'') input = Some i \<Longrightarrow> \<not> starts_with ''/'' input \<Longrightarrow> 0 < i"
  by (cases input) (auto simp: starts_with_def split: if_splits)

function dot_segments_loop :: "string \<Rightarrow> string \<Rightarrow> string" where
  "dot_segments_loop input out =
     (if input = [] then out
      else if starts_with ''../'' input then dot_segments_loop (drop 3 input) out
      else if starts_with ''./'' input then dot_segments_loop (drop 2 input) out
      else if starts_with ''/./'' input then dot_segments_loop (drop 2 input) out
      else if input = ''/.'' then dot_segments_loop ''/'' out
      else if starts_with ''/../'' input \<or> input = ''/..'' then
        dot_segments_loop (if starts_with ''/../'' input then drop 3 input else ''/'') (pop_segment out)
      else if input = ''.'' \<or> input = ''..'' then dot_segments_loop [] out
      else if starts_with ''/'' input then
        (case find_index (\<lambda>c. c = CHR ''/'') (drop 1 input) of
           None \<Rightarrow> dot_segments_loop [] (out @ input)
         | Some i \<Rightarrow> dot_segments_loop (drop (Suc i) input) (out @ take (Suc i) input))
      else
        (case find_index (\<lambda>c. c = CHR ''/'') input of
           None \<Rightarrow> dot_segments_loop [] (out @ input)
         | Some i \<Rightarrow> dot_segments_loop (drop i input) (out @ take i input)))"
  by pat_completeness auto

termination
  by (relation "measure (length \<circ> fst)")
    (auto dest: find_slash_later find_index_SomeD simp: starts_with_iff)

declare dot_segments_loop.simps [simp del]

definition remove_dot_segments :: "string \<Rightarrow> string" where
  "remove_dot_segments input = dot_segments_loop input []"

text \<open>\<open>std::isalpha\<close> in the C locale.\<close>

definition isalpha :: "char \<Rightarrow> bool" where
  "isalpha c =
     (let n = (of_char c :: nat) in (65 \<le> n \<and> n \<le> 90) \<or> (97 \<le> n \<and> n \<le> 122))"

definition is_delim :: "char \<Rightarrow> bool" where
  "is_delim c = (c \<in> {CHR ''/'', CHR ''?'', CHR ''#''})"

text \<open>The part of \<open>parse\<close> behind the authority: fragment, query and path.\<close>

definition parse_rest :: "string \<Rightarrow> Url \<Rightarrow> Url" where
  "parse_rest rest0 url0 =
     (let query_pos0 = find_index (\<lambda>c. c = CHR ''?'') rest0;
          fragment_pos = find_index (\<lambda>c. c = CHR ''#'') rest0;
          (url, query_pos, rest) =
            (case fragment_pos of
               None \<Rightarrow> (url0, query_pos0, rest0)
             | Some f \<Rightarrow>
                 (url0\<lparr>fragment_of := drop (f + 1) rest0\<rparr>,
                  (case query_pos0 of None \<Rightarrow> None | Some q \<Rightarrow> if q > f then None else Some q),
                  take f rest0))
      in case query_pos of
           None \<Rightarrow> url\<lparr>path_of := remove_dot_segments rest\<rparr>
         | Some q \<Rightarrow>
             url\<lparr>query_of := drop (q + 1) rest, path_of := remove_dot_segments (take q rest)\<rparr>)"

definition parse :: "string \<Rightarrow> Url result" where
  "parse input =
     (if input = [] then Inl (Error invalid_argument ''empty url input'')
      else case find_index (\<lambda>c. c = CHR '':'') input of
        None \<Rightarrow> Inl (Error invalid_argument ''invalid scheme'')
      | Some scheme_end \<Rightarrow>
          (let url = default_url\<lparr>scheme_of := to_lower_ascii_str (take scheme_end input)\<rparr>;
               rest = drop (scheme_end + 1) input
           in if scheme_of url = [] \<or> \<not> isalpha (hd (scheme_of url))
              then Inl (Error invalid_argument ''invalid scheme'')
              else if starts_with ''//'' rest then
                (let rest = drop 2 rest;
                     authority_end = find_index is_delim rest;
                     authority = (case authority_end of None \<Rightarrow> rest | Some e \<Rightarrow> take e rest)
                 in case parse_authority authority url of
                      (Inl e, _) \<Rightarrow> Inl e
                    | (Inr _, url) \<Rightarrow>
                        Inr (parse_rest (case authority_end of None \<Rightarrow> [] | Some e \<Rightarrow> drop e rest) url))
              else Inr (parse_rest rest url)))"

definition href :: "Url \<Rightarrow> string" where
  "href u =
     scheme_of u @ ''://'' @
     (if user_info u \<noteq> [] then user_info u @ ''@'' else []) @
     (if find_index (\<lambda>c. c = CHR '':'') (host_of u) \<noteq> None \<and> hd (host_of u) \<noteq> CHR ''[''
      then ''['' @ host_of u @ '']'' else host_of u) @
     (if port_of u \<noteq> -1 then '':'' @ to_string_int (port_of u) else []) @
     path_of u @
     (if query_of u \<noteq> [] then ''?'' @ query_of u else []) @
     (if fragment_of u \<noteq> [] then ''#'' @ fragment_of u else [])"

definition to_string :: "Url \<Rightarrow> string" where
  "to_string u = href u"

definition origin :: "Url \<Rightarrow> string" where
  "origin u =
     scheme_of u @ ''://'' @ host_of u @
     (if port_of u \<noteq> -1 then '':'' @ to_string_int (port_of u) else [])"

text \<open>
  The last part of \<open>resolve\<close>: the path of the result. The test \<open>if (auto err = parse_authority(..); err)\<close>
  takes the error branch when the call succeeded.
\<close>

definition resolve_path :: "string \<Rightarrow> Url \<Rightarrow> Url \<Rightarrow> Url option" where
  "resolve_path rest base url =
     (if starts_with ''//'' rest then
        (let rest = drop 2 rest;
             auth_end = find_index is_delim rest;
             auth_view = (case auth_end of None \<Rightarrow> rest | Some e \<Rightarrow> take e rest)
         in case parse_authority auth_view url of
              (Inr _, _) \<Rightarrow> None
            | (Inl _, url) \<Rightarrow>
                (case auth_end of
                   Some e \<Rightarrow> Some (url\<lparr>path_of := remove_dot_segments (drop e rest)\<rparr>)
                 | None \<Rightarrow> Some (url\<lparr>path_of := ''/''\<rparr>)))
      else if starts_with ''/'' rest then Some (url\<lparr>path_of := remove_dot_segments rest\<rparr>)
      else if rest \<noteq> [] then
        (if path_of base = [] then Some (url\<lparr>path_of := remove_dot_segments (''/'' @ rest)\<rparr>)
         else
           (let base_dir =
                  (case rfind_index (\<lambda>c. c = CHR ''/'') (path_of base) of
                     None \<Rightarrow> ''/'' | Some i \<Rightarrow> take (i + 1) (path_of base))
            in Some (url\<lparr>path_of := remove_dot_segments (base_dir @ rest)\<rparr>)))
      else Some url)"

definition resolve :: "string \<Rightarrow> Url \<Rightarrow> Url result option" where
  "resolve relative base =
     (if relative = [] then Some (Inr base)
      else if (case find_index (\<lambda>c. c = CHR '':'') relative of
                 None \<Rightarrow> False
               | Some scheme_end \<Rightarrow> find_index is_delim (take scheme_end relative) = None)
      then Some (parse relative)
      else
        (let url = base\<lparr>query_of := [], fragment_of := []\<rparr>;
             (url, rest) =
               (case find_index (\<lambda>c. c = CHR ''#'') relative of
                  None \<Rightarrow> (url, relative)
                | Some f \<Rightarrow> (url\<lparr>fragment_of := drop (f + 1) relative\<rparr>, take f relative))
         in case find_index (\<lambda>c. c = CHR ''?'') rest of
              None \<Rightarrow> map_option Inr (resolve_path rest base url)
            | Some q \<Rightarrow>
                (let url = url\<lparr>query_of := drop (q + 1) rest\<rparr>;
                     rest = take q rest
                 in if rest = [] then Some (Inr url)
                    else map_option Inr (resolve_path rest base url))))"

section \<open>Paths as lists of segments\<close>

definition join_path :: "string list \<Rightarrow> string" where
  "join_path segs = concat (map (\<lambda>s. CHR ''/'' # s) segs)"

definition segments_ok :: "string list \<Rightarrow> bool" where
  "segments_ok segs \<longleftrightarrow> (\<forall>s\<in>set segs. CHR ''/'' \<notin> set s)"

text \<open>
  RFC 3986, section 5.2.4, on segments: a dot segment is dropped, a double dot segment removes the last
  segment kept; a path that ends in one of them keeps its trailing slash.
\<close>

fun norm_segments :: "string list \<Rightarrow> string list \<Rightarrow> string list" where
  "norm_segments out [] = out"
| "norm_segments out [s] =
     (if s = ''.'' then out @ [[]] else if s = ''..'' then butlast out @ [[]] else out @ [s])"
| "norm_segments out (s # t # ts) =
     norm_segments (if s = ''.'' then out else if s = ''..'' then butlast out else out @ [s]) (t # ts)"

lemma join_path_simps [simp]:
  "join_path [] = []" "join_path (s # ss) = CHR ''/'' # s @ join_path ss"
  "join_path (as @ bs) = join_path as @ join_path bs"
  by (simp_all add: join_path_def)

lemma segments_ok_simps [simp]:
  "segments_ok []" "segments_ok (s # ss) \<longleftrightarrow> CHR ''/'' \<notin> set s \<and> segments_ok ss"
  "segments_ok (as @ bs) \<longleftrightarrow> segments_ok as \<and> segments_ok bs"
  by (auto simp: segments_ok_def)

lemma segments_ok_butlast: "segments_ok ss \<Longrightarrow> segments_ok (butlast ss)"
  by (auto simp: segments_ok_def dest: in_set_butlastD)

lemma join_path_eq_Nil [simp]: "join_path ss = [] \<longleftrightarrow> ss = []"
  by (cases ss) auto

lemma pop_segment_join: "segments_ok out \<Longrightarrow> pop_segment (join_path out) = join_path (butlast out)"
proof (cases out rule: rev_cases)
  case (snoc ys y)
  moreover assume "segments_ok out"
  ultimately have "rfind_index (\<lambda>c. c = CHR ''/'') (join_path ys @ CHR ''/'' # y) = Some (length (join_path ys))"
    by (intro rfind_index_append_hit) auto
  then show ?thesis using snoc by (simp add: pop_segment_def)
qed (simp add: pop_segment_def)

text \<open>One turn of the loop on an absolute path, by its first segment.\<close>

lemma starts_with_Cons [simp]:
  "starts_with [] xs" "starts_with (p # ps) (x # xs) \<longleftrightarrow> p = x \<and> starts_with ps xs"
  "\<not> starts_with (p # ps) []"
  by (auto simp: starts_with_def)

lemma starts_with_segment:
  assumes "CHR ''/'' \<notin> set s" "CHR ''/'' \<notin> set t"
  shows "starts_with (t @ ''/'') (s @ CHR ''/'' # r) \<longleftrightarrow> s = t"
  using assms
proof (induction t arbitrary: s)
  case Nil
  then show ?case by (cases s) auto
next
  case (Cons a t)
  then show ?case by (cases s) auto
qed

lemmas dot_prefixes = starts_with_segment [where t = "''.''", simplified]
  starts_with_segment [where t = "''..''", simplified]

lemma find_slash_behind:
  "CHR ''/'' \<notin> set s \<Longrightarrow> find_index (\<lambda>c. c = CHR ''/'') (s @ CHR ''/'' # r) = Some (length s)"
  by (intro find_index_append_hit) auto

lemma loop_inner:
  assumes "CHR ''/'' \<notin> set s"
  shows "dot_segments_loop (CHR ''/'' # s @ CHR ''/'' # r) out =
    (if s = ''.'' then dot_segments_loop (CHR ''/'' # r) out
     else if s = ''..'' then dot_segments_loop (CHR ''/'' # r) (pop_segment out)
     else dot_segments_loop (CHR ''/'' # r) (out @ CHR ''/'' # s))"
proof -
  have "s @ CHR ''/'' # r \<noteq> ''.''" "s @ CHR ''/'' # r \<noteq> ''..''"
    by (auto simp: append_eq_Cons_conv)
  with assms show ?thesis
    by (subst dot_segments_loop.simps) (auto simp: dot_prefixes find_slash_behind)
qed

lemma loop_Nil [simp]: "dot_segments_loop [] out = out"
  by (subst dot_segments_loop.simps) simp

lemma no_slash_prefix: "CHR ''/'' \<notin> set s \<Longrightarrow> CHR ''/'' \<in> set p \<Longrightarrow> \<not> starts_with p s"
  by (auto simp: starts_with_iff)

lemma loop_last:
  assumes "CHR ''/'' \<notin> set s"
  shows "dot_segments_loop (CHR ''/'' # s) out =
    (if s = ''.'' then out @ ''/'' else if s = ''..'' then pop_segment out @ ''/'' else out @ CHR ''/'' # s)"
proof -
  have slash: "dot_segments_loop ''/'' o' = o' @ ''/''" for o'
    by (subst dot_segments_loop.simps) simp
  have "find_index (\<lambda>c. c = CHR ''/'') s = None" using assms by (auto simp: find_index_None_iff)
  with assms slash show ?thesis
    by (subst dot_segments_loop.simps) (auto simp: no_slash_prefix)
qed

lemma loop_segments:
  "segs \<noteq> [] \<Longrightarrow> segments_ok segs \<Longrightarrow> segments_ok out \<Longrightarrow>
    dot_segments_loop (join_path segs) (join_path out) = join_path (norm_segments out segs)"
proof (induction out segs rule: norm_segments.induct)
  case (2 out s)
  then show ?case by (simp add: loop_last pop_segment_join)
next
  case (3 out s t ts)
  let ?out = "if s = ''.'' then out else if s = ''..'' then butlast out else out @ [s]"
  have "dot_segments_loop (join_path (t # ts)) (join_path ?out) = join_path (norm_segments ?out (t # ts))"
    using 3 by (intro "3.IH") (auto simp: segments_ok_butlast)
  then show ?case using 3 by (auto simp: loop_inner pop_segment_join)
qed simp

definition no_dots :: "string list \<Rightarrow> bool" where
  "no_dots segs \<longleftrightarrow> (\<forall>s\<in>set segs. s \<noteq> ''.'' \<and> s \<noteq> ''..'')"

lemma no_dots_simps [simp]:
  "no_dots []" "no_dots (s # ss) \<longleftrightarrow> (s \<noteq> ''.'' \<and> s \<noteq> ''..'') \<and> no_dots ss"
  "no_dots (as @ bs) \<longleftrightarrow> no_dots as \<and> no_dots bs"
  by (auto simp: no_dots_def)

lemma no_dots_butlast: "no_dots ss \<Longrightarrow> no_dots (butlast ss)"
  by (auto simp: no_dots_def dest: in_set_butlastD)

lemma norm_segments_clean: "no_dots out \<Longrightarrow> no_dots (norm_segments out segs)"
  by (induction out segs rule: norm_segments.induct) (simp_all add: no_dots_butlast)

lemma norm_segments_ok: "segments_ok segs \<Longrightarrow> segments_ok out \<Longrightarrow> segments_ok (norm_segments out segs)"
  by (induction out segs rule: norm_segments.induct) (auto simp: segments_ok_butlast)

lemma norm_segments_id:
  "no_dots segs \<Longrightarrow> norm_segments out segs = out @ segs"
  by (induction out segs rule: norm_segments.induct) simp_all

lemma norm_segments_nonempty: "segs \<noteq> [] \<Longrightarrow> norm_segments out segs \<noteq> []"
  by (induction out segs rule: norm_segments.induct) auto

lemma remove_dot_segments_join:
  "segs \<noteq> [] \<Longrightarrow> segments_ok segs \<Longrightarrow> remove_dot_segments (join_path segs) = join_path (norm_segments [] segs)"
  using loop_segments [of segs "[]"] by (simp add: remove_dot_segments_def)

text \<open>Every path that starts with a slash is the concatenation of its segments.\<close>

lemma path_segments:
  assumes "starts_with ''/'' p"
  obtains segs where "segs \<noteq> []" "segments_ok segs" "p = join_path segs"
proof -
  have "\<exists>segs. segs \<noteq> [] \<and> segments_ok segs \<and> p = join_path segs"
    using assms
  proof (induction "length p" arbitrary: p rule: less_induct)
    case less
    then obtain q where q: "p = CHR ''/'' # q" by (auto simp: starts_with_iff)
    show ?case
    proof (cases "find_index (\<lambda>c. c = CHR ''/'') q")
      case None
      then have "segments_ok [q]" "p = join_path [q]" using q by (auto simp: find_index_None_iff)
      then show ?thesis by blast
    next
      case (Some i)
      then obtain ys zs where s: "q = ys @ CHR ''/'' # zs" "CHR ''/'' \<notin> set ys"
        by (elim find_index_split) auto
      then obtain segs where "segs \<noteq> []" "segments_ok segs" "CHR ''/'' # zs = join_path segs"
        using less(1) [of "CHR ''/'' # zs"] q by auto
      then have "segments_ok (ys # segs)" "p = join_path (ys # segs)" using s q by simp_all
      then show ?thesis by blast
    qed
  qed
  then show thesis using that by blast
qed

text \<open>C25: On an absolute path the scanning loop of \<open>remove_dot_segments\<close> computes what RFC 3986, 5.2.4,
  asks for, seen on the segments between the slashes: the stack machine \<open>norm_segments\<close>.\<close>

theorem remove_dot_segments_refines:
  assumes "segs \<noteq> []" "segments_ok segs"
  shows "remove_dot_segments (join_path segs) = join_path (norm_segments [] segs)"
  by (rule remove_dot_segments_join [OF assms])

theorem remove_dot_segments_refines_witness:
  "segments_ok [''a'', ''b'', ''..'', ''.'', ''c''] \<and>
   remove_dot_segments ''/a/b/.././c'' = ''/a/c''"
  using remove_dot_segments_refines [of "[''a'', ''b'', ''..'', ''.'', ''c'']"] by simp

text \<open>The result of \<open>remove_dot_segments\<close> on an absolute path is again an absolute path, has no dot or
  double dot segment, and is left unchanged by a second run.\<close>

theorem remove_dot_segments_normal:
  assumes "starts_with ''/'' p"
  shows "(\<exists>segs. remove_dot_segments p = join_path segs \<and> segs \<noteq> [] \<and> segments_ok segs \<and> no_dots segs) \<and>
    remove_dot_segments (remove_dot_segments p) = remove_dot_segments p"
proof -
  obtain segs where segs: "segs \<noteq> []" "segments_ok segs" "p = join_path segs"
    using assms by (rule path_segments)
  let ?n = "norm_segments [] segs"
  have n: "remove_dot_segments p = join_path ?n" "?n \<noteq> []" "segments_ok ?n" "no_dots ?n"
    using segs by (simp_all add: remove_dot_segments_join norm_segments_nonempty norm_segments_ok norm_segments_clean)
  moreover have "remove_dot_segments (join_path ?n) = join_path ?n"
    using n by (simp add: remove_dot_segments_join norm_segments_id)
  ultimately show ?thesis by auto
qed

section \<open>Printing and parsing\<close>

text \<open>The host part of an authority, with or without a port.\<close>

definition print_host :: "string \<Rightarrow> string" where
  "print_host h = (if CHR '':'' \<in> set h then ''['' @ h @ '']'' else h)"

definition print_authority :: "string \<Rightarrow> string \<Rightarrow> int \<Rightarrow> string" where
  "print_authority ui h p =
     (if ui \<noteq> [] then ui @ ''@'' else []) @
     print_host h @
     (if p \<noteq> -1 then '':'' @ to_string_int p else [])"

definition print_tail :: "string \<Rightarrow> string \<Rightarrow> string \<Rightarrow> string" where
  "print_tail p q f = p @ (if q \<noteq> [] then ''?'' @ q else []) @ (if f \<noteq> [] then ''#'' @ f else [])"

definition free_of :: "string \<Rightarrow> string \<Rightarrow> bool" where
  "free_of cs s \<longleftrightarrow> list_all (\<lambda>c. c \<notin> set cs) s"

definition url_ok :: "Url \<Rightarrow> bool" where
  "url_ok u \<longleftrightarrow>
     scheme_of u \<noteq> [] \<and> isalpha (hd (scheme_of u)) \<and> free_of '':'' (scheme_of u) \<and>
     to_lower_ascii_str (scheme_of u) = scheme_of u \<and>
     free_of ''@/?#'' (user_info u) \<and>
     free_of ''@/?#[]'' (host_of u) \<and> to_lower_ascii_str (host_of u) = host_of u \<and>
     - (2 ^ 31) \<le> port_of u \<and> port_of u < 2 ^ 31 \<and>
     (path_of u = [] \<or> starts_with ''/'' (path_of u)) \<and> free_of ''?#'' (path_of u) \<and>
     remove_dot_segments (path_of u) = path_of u \<and>
     free_of ''#'' (query_of u)"

lemma free_of_iff: "free_of cs s \<longleftrightarrow> (\<forall>c\<in>set s. c \<notin> set cs)"
  by (simp add: free_of_def list_all_iff)

lemma free_of_simps [simp]:
  "free_of cs []" "free_of cs (c # s) \<longleftrightarrow> c \<notin> set cs \<and> free_of cs s"
  "free_of cs (s @ t) \<longleftrightarrow> free_of cs s \<and> free_of cs t"
  by (auto simp: free_of_iff)

lemma free_of_mono: "free_of cs s \<Longrightarrow> set ds \<subseteq> set cs \<Longrightarrow> free_of ds s"
  by (auto simp: free_of_iff)

lemma free_of_sub: "free_of cs s \<Longrightarrow> free_of cs (take n s)" "free_of cs s \<Longrightarrow> free_of cs (drop n s)"
  by (auto simp: free_of_iff dest: in_set_takeD in_set_dropD)

lemma is_delim_free: "(\<forall>c\<in>set s. \<not> is_delim c) \<longleftrightarrow> free_of ''/?#'' s"
  by (simp add: free_of_iff is_delim_def)

lemma to_string_int_chars: "c \<in> set (to_string_int p) \<Longrightarrow> is_digit c \<or> c = CHR ''-''"
  using nat_digits_all by (fastforce simp: to_string_int_def split: if_splits)

lemma to_string_int_free: "free_of ''@/?#[]:'' (to_string_int p)"
  by (auto simp: free_of_iff is_digit_def dest!: to_string_int_chars)

lemma print_host_colon:
  assumes "free_of ''@/?#[]'' h"
  shows "rfind_index (\<lambda>c. c = CHR '':'') (print_host h) = None \<or>
    (\<exists>c b. rfind_index (\<lambda>c. c = CHR '':'') (print_host h) = Some c \<and>
       rfind_index (\<lambda>c. c = CHR '']'') (print_host h) = Some b \<and> c < b)"
proof (cases "CHR '':'' \<in> set h")
  case True
  then obtain ys zs where h: "h = ys @ CHR '':'' # zs" "CHR '':'' \<notin> set zs" by (meson split_list_last)
  have "rfind_index (\<lambda>c. c = CHR '':'') ((CHR ''['' # ys) @ CHR '':'' # zs @ '']'') = Some (length (CHR ''['' # ys))"
    using h by (intro rfind_index_append_hit) auto
  moreover have "rfind_index (\<lambda>c. c = CHR '']'') ((CHR ''['' # h) @ CHR '']'' # []) = Some (length (CHR ''['' # h))"
    by (intro rfind_index_append_hit) auto
  ultimately show ?thesis using True h by (simp add: print_host_def)
next
  case False
  then show ?thesis by (auto simp: print_host_def rfind_index_None_iff)
qed

lemma rfind_behind:
  assumes "rfind_index P xs = Some i"
  shows "i < length xs"
  using assms by (elim rfind_index_split) auto

lemma bracket_before_port:
  "free_of '']'' s \<Longrightarrow> (case rfind_index (\<lambda>c. c = CHR '']'') (h @ CHR '':'' # s) of
      None \<Rightarrow> True | Some b \<Rightarrow> b < length h)"
proof (cases "CHR '']'' \<in> set h")
  case True
  assume f: "free_of '']'' s"
  from True obtain ys zs where h: "h = ys @ CHR '']'' # zs" "CHR '']'' \<notin> set zs" by (meson split_list_last)
  have "rfind_index (\<lambda>c. c = CHR '']'') (ys @ CHR '']'' # (zs @ CHR '':'' # s)) = Some (length ys)"
    using f h by (intro rfind_index_append_hit) (auto simp: free_of_iff)
  then show ?thesis using h by simp
next
  case False
  moreover assume "free_of '']'' s"
  ultimately have "rfind_index (\<lambda>c. c = CHR '']'') (h @ CHR '':'' # s) = None"
    by (auto simp: rfind_index_None_iff free_of_iff)
  then show ?thesis by simp
qed

lemma href_eq:
  assumes "url_ok u"
  shows "href u = scheme_of u @ ''://'' @ print_authority (user_info u) (host_of u) (port_of u) @
     print_tail (path_of u) (query_of u) (fragment_of u)"
proof -
  have "CHR '':'' \<in> set (host_of u) \<longleftrightarrow>
      find_index (\<lambda>c. c = CHR '':'') (host_of u) \<noteq> None \<and> hd (host_of u) \<noteq> CHR ''[''"
    using assms unfolding url_ok_def free_of_iff find_index_None_iff by (cases "host_of u") auto
  then show ?thesis unfolding href_def print_authority_def print_tail_def print_host_def by simp
qed

lemma to_lower_ascii_fixed: "to_lower_ascii_str (''['' @ h @ '']'') = ''['' @ to_lower_ascii_str h @ '']''"
  by (simp add: to_lower_ascii_str_def to_lower_ascii_def)

lemma to_lower_print_host: "to_lower_ascii_str h = h \<Longrightarrow> to_lower_ascii_str (print_host h) = print_host h"
  unfolding print_host_def using to_lower_ascii_fixed [of h] by (cases "CHR '':'' \<in> set h") (simp_all only: if_True if_False)

lemma strip_print_host:
  assumes "free_of ''@/?#[]'' h"
  shows "(if length (print_host h) \<ge> 2 \<and> hd (print_host h) = CHR ''['' \<and> last (print_host h) = CHR '']''
    then take (length (print_host h) - 2) (drop 1 (print_host h)) else print_host h) = h"
proof -
  have "h \<noteq> [] \<Longrightarrow> hd h \<noteq> CHR ''[''" using assms hd_in_set [of h] by (auto simp: free_of_iff)
  then show ?thesis by (cases h) (auto simp: print_host_def)
qed

lemma find_at:
  "free_of ''@'' ui \<Longrightarrow> find_index (\<lambda>c. c = CHR ''@'') (ui @ CHR ''@'' # r) = Some (length ui)"
  "free_of ''@'' r \<Longrightarrow> find_index (\<lambda>c. c = CHR ''@'') r = None"
  by (auto simp: free_of_iff find_index_None_iff intro!: find_index_append_hit)

text \<open>\<open>parse_authority\<close> behind the user information.\<close>

definition host_port :: "string \<Rightarrow> int \<Rightarrow> string" where
  "host_port h p = print_host h @ (if p \<noteq> -1 then '':'' @ to_string_int p else [])"

lemma host_port_no_at: "free_of ''@/?#[]'' h \<Longrightarrow> free_of ''@'' (host_port h p)"
  using to_string_int_free [of p] by (auto simp: host_port_def print_host_def free_of_iff)

lemma parse_host_port:
  assumes "free_of ''@/?#[]'' h" "to_lower_ascii_str h = h" "- (2 ^ 31) \<le> p" "p < 2 ^ 31"
  shows "parse_authority (host_port h p) url = (Inr (), url\<lparr>port_of := p, host_of := h\<rparr>)"
proof (cases "p = -1")
  case True
  from print_host_colon [OF assms(1)] strip_print_host [OF assms(1)] find_at(2) [OF host_port_no_at [OF assms(1), of p]]
  show ?thesis using True assms(2)
    by (auto simp: parse_authority_def port_position_def strip_brackets_def host_port_def Let_def to_lower_print_host split: if_splits)
next
  case False
  let ?a = "print_host h @ CHR '':'' # to_string_int p"
  have f: "free_of '':'' (to_string_int p)" "free_of '']'' (to_string_int p)"
    using to_string_int_free [of p] by (auto simp: free_of_iff)
  have c: "rfind_index (\<lambda>c. c = CHR '':'') ?a = Some (length (print_host h))"
    using f(1) by (intro rfind_index_append_hit) (auto simp: free_of_iff)
  have "from_chars_int (to_string_int p) = FC_ok p" using from_chars_to_string [OF assms(3,4), of "[]"] by simp
  with c bracket_before_port [OF f(2), of "print_host h"] strip_print_host [OF assms(1)]
    find_at(2) [OF host_port_no_at [OF assms(1), of p]]
  show ?thesis using False assms(2)
    by (auto simp: parse_authority_def port_position_def strip_brackets_def host_port_def Let_def to_lower_print_host split: if_splits option.splits)
qed

lemma parse_authority_user:
  assumes "free_of ''@'' ui" "free_of ''@'' a"
  shows "parse_authority (ui @ CHR ''@'' # a) url = parse_authority a (url\<lparr>user_info := ui\<rparr>)"
  using find_at(1) [OF assms(1)] find_at(2) [OF assms(2)] by (simp add: parse_authority_def Let_def)

lemma parse_print_authority:
  assumes "free_of ''@/?#'' ui" "free_of ''@/?#[]'' h" "to_lower_ascii_str h = h" "- (2 ^ 31) \<le> p" "p < 2 ^ 31"
    "user_info url = []"
  shows "parse_authority (print_authority ui h p) url = (Inr (), url\<lparr>user_info := ui, port_of := p, host_of := h\<rparr>)"
proof (cases "ui = []")
  case True
  moreover have "print_authority [] h p = host_port h p" by (simp add: print_authority_def host_port_def)
  ultimately show ?thesis using parse_host_port [OF assms(2-5), of url] assms(6) by simp
next
  case False
  then have "print_authority ui h p = ui @ CHR ''@'' # host_port h p" by (simp add: print_authority_def host_port_def)
  moreover have "free_of ''@'' ui" using assms(1) by (auto simp: free_of_iff)
  ultimately show ?thesis
    using parse_authority_user [OF _ host_port_no_at [OF assms(2)]] parse_host_port [OF assms(2-5)] by simp
qed

lemma parse_print_tail:
  assumes "free_of ''?#'' p" "free_of ''#'' q" "remove_dot_segments p = p"
    "query_of url = []" "fragment_of url = []"
  shows "parse_rest (print_tail p q f) url = url\<lparr>path_of := p, query_of := q, fragment_of := f\<rparr>"
proof -
  let ?pq = "p @ (if q \<noteq> [] then ''?'' @ q else [])"
  have np: "\<forall>c\<in>set p. c \<noteq> CHR ''?''" and nf: "\<forall>c\<in>set ?pq. c \<noteq> CHR ''#''"
    using assms(1,2) by (auto simp: free_of_iff)
  have F: "find_index (\<lambda>c. c = CHR ''#'') (print_tail p q f) = (if f = [] then None else Some (length ?pq))"
  proof (cases "f = []")
    case True
    then show ?thesis using nf by (auto simp: print_tail_def find_index_None_iff)
  next
    case False
    have "find_index (\<lambda>c. c = CHR ''#'') (?pq @ CHR ''#'' # f) = Some (length ?pq)"
      using nf by (intro find_index_append_hit) auto
    then show ?thesis using False by (simp add: print_tail_def)
  qed
  have Q: "q \<noteq> [] \<Longrightarrow> find_index (\<lambda>c. c = CHR ''?'') (p @ CHR ''?'' # r) = Some (length p)" for r
    using np by (intro find_index_append_hit) auto
  have Q0: "q = [] \<Longrightarrow> case find_index (\<lambda>c. c = CHR ''?'') (print_tail p q f) of None \<Rightarrow> True | Some i \<Rightarrow> f \<noteq> [] \<and> length p < i"
    using np by (auto simp: print_tail_def find_index_append_miss find_index_None_iff split: option.splits)
  show ?thesis
  proof (cases "q = []")
    case True
    then show ?thesis using F Q0 assms(3-5)
      by (auto simp: parse_rest_def print_tail_def Let_def split: option.splits if_splits)
  next
    case False
    then show ?thesis using F Q assms(3-5)
      by (auto simp: parse_rest_def print_tail_def Let_def split: option.splits if_splits)
  qed
qed

lemma print_authority_free:
  assumes "free_of ''@/?#'' ui" "free_of ''@/?#[]'' h"
  shows "\<forall>c\<in>set (print_authority ui h p). \<not> is_delim c"
proof -
  have "free_of ''/?#'' ui" "free_of ''/?#'' h" "free_of ''/?#'' (to_string_int p)"
    using assms to_string_int_free [of p] by (auto intro: free_of_mono)
  then show ?thesis unfolding is_delim_free print_authority_def print_host_def by simp
qed

lemma print_tail_head:
  "p = [] \<or> starts_with ''/'' p \<Longrightarrow> print_tail p q f = [] \<or> is_delim (hd (print_tail p q f))"
  by (auto simp: print_tail_def is_delim_def starts_with_iff)

lemma parse_rest_Nil: "parse_rest [] url = url\<lparr>path_of := []\<rparr>"
  by (simp add: parse_rest_def remove_dot_segments_def)

lemma parse_absolute:
  assumes "s \<noteq> []" "isalpha (hd s)" "free_of '':'' s" "to_lower_ascii_str s = s"
    "\<forall>c\<in>set a. \<not> is_delim c" "t = [] \<or> is_delim (hd t)"
  shows "parse (s @ ''://'' @ a @ t) =
    (case parse_authority a (default_url\<lparr>scheme_of := s\<rparr>) of (Inl e, _) \<Rightarrow> Inl e | (Inr _, u) \<Rightarrow> Inr (parse_rest t u))"
proof -
  have "find_index (\<lambda>c. c = CHR '':'') (s @ CHR '':'' # ''//'' @ a @ t) = Some (length s)"
    using assms(3) by (intro find_index_append_hit) (auto simp: free_of_iff)
  moreover have "find_index is_delim (a @ t) = (if t = [] then None else Some (length a))"
    using assms(5,6) find_index_append_hit [of a is_delim "hd t" "tl t"]
    by (cases t) (auto simp: find_index_None_iff)
  ultimately show ?thesis using assms(1,2,4)
    by (cases "t = []") (simp_all add: parse_def Let_def split: prod.split sum.split)
qed

text \<open>C20: \<open>parse\<close> inverts \<open>href\<close>: a well-formed \<open>Url\<close> printed and parsed again is the same object, with
  user information, an IPv6 host in brackets, a port, query and fragment each present or absent.\<close>

theorem parse_href:
  assumes "url_ok u"
  shows "parse (href u) = Inr u"
proof -
  let ?u = "default_url\<lparr>scheme_of := scheme_of u\<rparr>"
  let ?v = "?u\<lparr>user_info := user_info u, port_of := port_of u, host_of := host_of u\<rparr>"
  note ok = assms [unfolded url_ok_def]
  have "parse (href u) = (case parse_authority (print_authority (user_info u) (host_of u) (port_of u)) ?u of
      (Inl e, _) \<Rightarrow> Inl e
    | (Inr _, v) \<Rightarrow> Inr (parse_rest (print_tail (path_of u) (query_of u) (fragment_of u)) v))"
    unfolding href_eq [OF assms] using ok by (intro parse_absolute print_authority_free print_tail_head) auto
  also have "parse_authority (print_authority (user_info u) (host_of u) (port_of u)) ?u = (Inr (), ?v)"
    using ok by (intro parse_print_authority) (auto simp: default_url_def)
  finally have "parse (href u) = Inr (parse_rest (print_tail (path_of u) (query_of u) (fragment_of u)) ?v)"
    by simp
  also have "parse_rest (print_tail (path_of u) (query_of u) (fragment_of u)) ?v =
      ?v\<lparr>path_of := path_of u, query_of := query_of u, fragment_of := fragment_of u\<rparr>"
    using ok by (intro parse_print_tail) (auto simp: default_url_def)
  also have "\<dots> = u" by (simp add: default_url_def)
  finally show ?thesis .
qed

definition sample_url :: Url where
  "sample_url =
     \<lparr>scheme_of = ''https'', user_info = ''me:pw'', host_of = ''fe80::1'', port_of = 8443,
      path_of = ''/a/b'', query_of = ''q=/?'', fragment_of = ''top''\<rparr>"

theorem parse_href_witness: "url_ok sample_url \<and> parse (href sample_url) = Inr sample_url"
proof -
  have "remove_dot_segments ''/a/b'' = ''/a/b''"
    using remove_dot_segments_join [of "[''a'', ''b'']"] by simp
  then have "url_ok sample_url"
    by (simp add: url_ok_def sample_url_def isalpha_def free_of_def to_lower_ascii_str_def to_lower_ascii_def)
  with parse_href [of sample_url] show ?thesis by simp
qed

section \<open>What a parsed URL satisfies\<close>

lemma pop_segment_free: "free_of cs out \<Longrightarrow> free_of cs (pop_segment out)"
  by (auto simp: pop_segment_def free_of_sub split: option.splits)

lemma if_free: "(b \<Longrightarrow> free_of cs x) \<Longrightarrow> (\<not> b \<Longrightarrow> free_of cs y) \<Longrightarrow> free_of cs (if b then x else y)"
  by simp

lemma case_free:
  "(m = None \<Longrightarrow> free_of cs x) \<Longrightarrow> (\<And>i. m = Some i \<Longrightarrow> free_of cs (y i)) \<Longrightarrow>
    free_of cs (case m of None \<Rightarrow> x | Some i \<Rightarrow> y i)"
  by (cases m) simp_all

lemma loop_free: "free_of cs input \<Longrightarrow> free_of cs out \<Longrightarrow> free_of cs (dot_segments_loop input out)"
proof (induction "length input" arbitrary: input out rule: less_induct)
  case less
  note free = less(2,3) free_of_sub pop_segment_free
  have slash: "free_of cs ''/''" if "input = ''/.'' \<or> input = ''/..''" using that less(2) by auto
  show ?case
  proof (subst dot_segments_loop.simps, intro if_free case_free)
    assume "input = ''/.''"
    then show "free_of cs (dot_segments_loop ''/'' out)" using less slash by simp
  next
    assume "starts_with ''/../'' input \<or> input = ''/..''"
    then show "free_of cs (dot_segments_loop (if starts_with ''/../'' input then drop 3 input else ''/'') (pop_segment out))"
      using free slash by (intro less(1)) (auto simp: starts_with_iff)
  next
    fix i
    assume "\<not> starts_with ''/'' input" "find_index (\<lambda>c. c = CHR ''/'') input = Some i"
    then have "0 < i" "i < length input" by (auto dest: find_slash_later find_index_SomeD)
    then show "free_of cs (dot_segments_loop (drop i input) (out @ take i input))"
      using free by (intro less(1)) auto
  qed (use free in \<open>auto intro!: less(1)\<close>)
qed

lemma remove_dot_segments_free: "free_of cs p \<Longrightarrow> free_of cs (remove_dot_segments p)"
  by (simp add: remove_dot_segments_def loop_free)

lemma take_find_free: "find_index (\<lambda>c. c = k) s = Some i \<Longrightarrow> n \<le> i \<Longrightarrow> free_of [k] (take n s)"
  using find_index_SomeD [of "\<lambda>c. c = k" s i] set_take_subset_set_take [of n i s] by (auto simp: free_of_iff)

lemma find_None_free: "find_index (\<lambda>c. c = k) s = None \<Longrightarrow> free_of [k] s"
  by (auto simp: free_of_iff find_index_None_iff)

lemma free_of_insert: "free_of (a # b # cs) s \<longleftrightarrow> free_of [a] s \<and> free_of (b # cs) s"
  by (auto simp: free_of_iff)

lemma parse_rest_invariant:
  fixes rest url
  defines "u \<equiv> parse_rest rest url"
  assumes "query_of url = []"
  shows "free_of ''?#'' (path_of u)" "free_of ''#'' (query_of u)"
    "scheme_of u = scheme_of url" "host_of u = host_of url" "port_of u = port_of url" "user_info u = user_info url"
proof -
  let ?F = "find_index (\<lambda>c. c = CHR ''#'') rest"
  let ?r = "case ?F of None \<Rightarrow> rest | Some f \<Rightarrow> take f rest"
  have f: "free_of ''#'' ?r" by (auto simp: take_find_free find_None_free split: option.splits)
  show "scheme_of u = scheme_of url" "host_of u = host_of url" "port_of u = port_of url" "user_info u = user_info url"
    unfolding u_def parse_rest_def by (auto simp: Let_def split: option.splits prod.splits)
  show "free_of ''#'' (query_of u)"
    using f assms(2) unfolding u_def parse_rest_def
    by (auto simp: Let_def free_of_sub split: option.splits prod.splits if_splits)
  show "free_of ''?#'' (path_of u)"
    using f unfolding u_def parse_rest_def
    by (auto simp: Let_def free_of_sub free_of_insert [of "CHR ''?''"] take_find_free find_None_free
        intro!: remove_dot_segments_free split: option.splits prod.splits if_splits)
qed

lemma from_chars_range: "from_chars_int s = FC_ok v \<Longrightarrow> - (2 ^ 31) \<le> v \<and> v < 2 ^ 31"
  by (auto simp: from_chars_int_def Let_def split: if_splits)

lemma to_lower_sub:
  "to_lower_ascii_str s = s \<Longrightarrow> to_lower_ascii_str (take n (drop m s)) = take n (drop m s)"
  by (simp add: to_lower_ascii_str_def flip: take_map drop_map)

lemma strip_brackets_fields [simp]:
  "scheme_of (strip_brackets u) = scheme_of u" "user_info (strip_brackets u) = user_info u"
  "port_of (strip_brackets u) = port_of u" "path_of (strip_brackets u) = path_of u"
  "query_of (strip_brackets u) = query_of u" "fragment_of (strip_brackets u) = fragment_of u"
  by (simp_all add: strip_brackets_def)

lemma strip_brackets_lower:
  "to_lower_ascii_str (host_of u) = host_of u \<Longrightarrow>
    to_lower_ascii_str (host_of (strip_brackets u)) = host_of (strip_brackets u)"
  using to_lower_sub [of "host_of u" _ 1] by (simp add: strip_brackets_def)

lemma parse_authority_invariant:
  assumes "parse_authority a url = (Inr (), u)"
  shows "to_lower_ascii_str (host_of u) = host_of u \<and> - (2 ^ 31) \<le> port_of u \<and> port_of u < 2 ^ 31 \<and>
    scheme_of u = scheme_of url \<and> query_of u = query_of url \<and> fragment_of u = fragment_of url"
  using assms
  by (auto simp: parse_authority_def Let_def strip_brackets_lower dest!: from_chars_range
      split: option.splits from_chars_result.splits)



section \<open>Resolving references\<close>

text \<open>RFC 3986, 5.2.3: the reference replaces what stands behind the last slash of the base path.\<close>

definition merge_paths :: "string \<Rightarrow> string \<Rightarrow> string" where
  "merge_paths base p =
     (case rfind_index (\<lambda>c. c = CHR ''/'') base of None \<Rightarrow> ''/'' @ p | Some i \<Rightarrow> take (Suc i) base @ p)"

text \<open>The characters in front of the first slash.\<close>

definition first_segment :: "string \<Rightarrow> string" where
  "first_segment p = takeWhile (\<lambda>c. c \<noteq> CHR ''/'') p"

lemma find_index_takeWhile:
  "find_index P xs = Some i \<Longrightarrow> take i xs = takeWhile (\<lambda>x. \<not> P x) xs"
  by (induction xs arbitrary: i) (auto split: if_splits)

text \<open>A reference whose first segment has no colon does not look like an absolute URL.\<close>

lemma not_absolute:
  assumes "free_of '':'' (first_segment p)" "CHR ''/'' \<notin> set p \<Longrightarrow> r \<noteq> [] \<Longrightarrow> is_delim (hd r)"
    "find_index (\<lambda>c. c = CHR '':'') (p @ r) = Some i"
  shows "find_index is_delim (take i (p @ r)) \<noteq> None"
proof (cases "CHR ''/'' \<in> set p")
  case True
  then obtain a b where p: "p = a @ CHR ''/'' # b" "CHR ''/'' \<notin> set a" by (meson split_list_first)
  then have "first_segment p = a" by (auto simp: first_segment_def takeWhile_tail)
  then have "find_index (\<lambda>c. c = CHR '':'') (p @ r) = map_option ((+) (length a)) (find_index (\<lambda>c. c = CHR '':'') (CHR ''/'' # b @ r))"
    using assms(1) p by (simp add: find_index_append_miss free_of_iff)
  with assms(3) have "length a < i" by (auto split: if_splits)
  then have "CHR ''/'' \<in> set (take i (p @ r))" using p by (auto simp: take_Cons')
  then show ?thesis by (auto simp: find_index_None_iff is_delim_def)
next
  case False
  then have "first_segment p = p" by (auto simp: first_segment_def takeWhile_eq_all_conv)
  then have f: "find_index (\<lambda>c. c = CHR '':'') (p @ r) = map_option ((+) (length p)) (find_index (\<lambda>c. c = CHR '':'') r)"
    using assms(1) by (simp add: find_index_append_miss free_of_iff)
  with assms(3) obtain j where j: "find_index (\<lambda>c. c = CHR '':'') r = Some j" "i = length p + j" by auto
  then have r: "r \<noteq> []" by auto
  with assms(2) [OF False] have "is_delim (hd r)" by simp
  moreover have "j \<noteq> 0"
    using j(1) \<open>is_delim (hd r)\<close> r by (cases r) (auto simp: is_delim_def split: if_splits)
  ultimately have "hd r \<in> set (take i (p @ r))" using j(2) r by (cases r) (auto simp: take_Cons')
  then show ?thesis using \<open>is_delim (hd r)\<close> by (auto simp: find_index_None_iff)
qed

lemma split_tail:
  assumes "free_of ''?#'' p" "free_of ''#'' q"
  shows "(case find_index (\<lambda>c. c = CHR ''#'') (print_tail p q f) of
        None \<Rightarrow> (url, print_tail p q f)
      | Some i \<Rightarrow> (url\<lparr>fragment_of := drop (i + 1) (print_tail p q f)\<rparr>, take i (print_tail p q f))) =
    ((if f = [] then url else url\<lparr>fragment_of := f\<rparr>), print_tail p q [])"
    "find_index (\<lambda>c. c = CHR ''?'') (print_tail p q []) = (if q = [] then None else Some (length p))"
proof -
  have nf: "\<forall>c\<in>set (print_tail p q []). c \<noteq> CHR ''#''" and np: "\<forall>c\<in>set p. c \<noteq> CHR ''?''"
    using assms by (auto simp: free_of_iff print_tail_def)
  have "print_tail p q f = print_tail p q [] @ (if f = [] then [] else CHR ''#'' # f)" by (simp add: print_tail_def)
  moreover have "find_index (\<lambda>c. c = CHR ''#'') (print_tail p q [] @ CHR ''#'' # f) = Some (length (print_tail p q []))"
    using nf by (intro find_index_append_hit) auto
  moreover have "find_index (\<lambda>c. c = CHR ''#'') (print_tail p q []) = None" using nf by (auto simp: find_index_None_iff)
  ultimately show "(case find_index (\<lambda>c. c = CHR ''#'') (print_tail p q f) of
        None \<Rightarrow> (url, print_tail p q f)
      | Some i \<Rightarrow> (url\<lparr>fragment_of := drop (i + 1) (print_tail p q f)\<rparr>, take i (print_tail p q f))) =
    ((if f = [] then url else url\<lparr>fragment_of := f\<rparr>), print_tail p q [])" by simp
  have "find_index (\<lambda>c. c = CHR ''?'') (p @ CHR ''?'' # q) = Some (length p)"
    using np by (intro find_index_append_hit) auto
  moreover have "find_index (\<lambda>c. c = CHR ''?'') p = None" using np by (auto simp: find_index_None_iff)
  ultimately show "find_index (\<lambda>c. c = CHR ''?'') (print_tail p q []) = (if q = [] then None else Some (length p))"
    by (simp add: print_tail_def)
qed

lemma query_before_fragment:
  "u\<lparr>fragment_of := f, query_of := q\<rparr> = u\<lparr>query_of := q, fragment_of := f\<rparr>"
  by (cases u) simp

lemma resolve_relative:
  assumes "free_of '':'' (first_segment p)" "free_of ''?#'' p" "free_of ''#'' q" "p \<noteq> []"
  shows "resolve (print_tail p q f) base =
    map_option Inr (resolve_path p base (base\<lparr>query_of := q, fragment_of := f\<rparr>))"
proof -
  let ?t = "print_tail p q f"
  have "?t = p @ drop (length p) ?t" "drop (length p) ?t = [] \<or> is_delim (hd (drop (length p) ?t))"
    by (simp_all add: print_tail_def is_delim_def)
  then have "\<not> (case find_index (\<lambda>c. c = CHR '':'') ?t of None \<Rightarrow> False
      | Some i \<Rightarrow> find_index is_delim (take i ?t) = None)"
    using not_absolute [OF assms(1), of "drop (length p) ?t"] by (auto split: option.splits)
  moreover have "?t \<noteq> []" using assms(4) by (simp add: print_tail_def)
  ultimately have "resolve ?t base =
      (let (url, rest) = ((if f = [] then base\<lparr>query_of := [], fragment_of := []\<rparr>
              else base\<lparr>query_of := [], fragment_of := []\<rparr>\<lparr>fragment_of := f\<rparr>), print_tail p q [])
       in case find_index (\<lambda>c. c = CHR ''?'') rest of
              None \<Rightarrow> map_option Inr (resolve_path rest base url)
            | Some i \<Rightarrow> (let url = url\<lparr>query_of := drop (i + 1) rest\<rparr>; rest = take i rest
                 in if rest = [] then Some (Inr url) else map_option Inr (resolve_path rest base url)))"
    unfolding resolve_def Let_def split_tail(1) [OF assms(2,3)] by (simp only: if_False)
  then show ?thesis using split_tail(2) [OF assms(2,3)] assms(4)
    by (cases "q = []"; cases "f = []") (simp_all add: print_tail_def query_before_fragment)
qed

text \<open>A reference that has a path and neither scheme nor authority is resolved as RFC 3986, 5.2.2, asks:
  scheme and authority of the base, the path of the reference or its merge with the base path, without
  dot segments, and query and fragment of the reference.\<close>

theorem resolve_path_reference:
  assumes "p \<noteq> []" "\<not> starts_with ''//'' p" "free_of ''?#'' p" "free_of '':'' (first_segment p)" "free_of ''#'' q"
  shows "resolve (print_tail p q f) base = Some (Inr (base
    \<lparr>path_of := remove_dot_segments (if starts_with ''/'' p then p else merge_paths (path_of base) p),
     query_of := q, fragment_of := f\<rparr>))"
  unfolding resolve_relative [OF assms(4,3,5,1)] resolve_path_def merge_paths_def
  using assms(1,2) by (cases base) (auto simp: rfind_index_def split: option.splits)

text \<open>A reference that starts with an authority is never resolved. After \<open>parse_authority\<close> succeeded,
  \<open>resolve\<close> takes the branch written for its failure and reads the error of a result that has none,
  which is undefined.\<close>

theorem resolve_network_path_undefined:
  assumes "parse_authority a (base\<lparr>query_of := q, fragment_of := f\<rparr>) = (Inr (), u)" "free_of ''/?#'' a"
    "t = [] \<or> starts_with ''/'' t" "free_of ''?#'' t" "free_of ''#'' q"
  shows "resolve (print_tail (''//'' @ a @ t) q f) base = None"
proof -
  have "find_index is_delim (a @ t) = (if t = [] then None else Some (length a))"
    using assms(2,3) find_index_append_hit [of a is_delim "hd t" "tl t"]
    by (cases t) (auto simp: find_index_None_iff is_delim_free [symmetric] is_delim_def)
  moreover have "free_of '':'' (first_segment (''//'' @ a @ t))" by (simp add: first_segment_def)
  moreover have "free_of ''?#'' (''//'' @ a @ t)"
    using assms(2,4) by (auto intro: free_of_mono)
  ultimately show ?thesis
    using assms(1,5) by (subst resolve_relative) (auto simp: resolve_path_def Let_def)
qed

text \<open>A reference that is only a fragment, or empty: the first one loses the query of the base, which
  RFC 3986 keeps, and the second one keeps the fragment of the base, which RFC 3986 drops.\<close>

theorem resolve_without_path:
  "resolve [] base = Some (Inr base) \<and>
   resolve (''#'' @ f) base = Some (Inr (base\<lparr>query_of := [], fragment_of := f\<rparr>))"
  by (auto simp: resolve_def resolve_path_def is_delim_def split: option.split)

end
