(* ===== verification/Http_Types.thy ===== *)
theory Http_Types
  imports Url Binary_Util
begin

text \<open>
  The data types of the HTTP layer: \<open>ppnt-http/src/http_types/*.ixx\<close>, \<open>proxy.ixx\<close> and
  \<open>session_key.ixx\<close>. A header list is the vector of its headers. \<open>serialize_to_h1\<close> builds the bytes of an
  HTTP/1.1 request with the writer of \<open>Binary_Util\<close>. The three-way comparisons of proxy configurations and
  session keys are functions into \<open>ordering\<close>.

  The lemmas show what header lookups see after an insertion, that a reference parser for requests reads back
  exactly what was serialised, and that the comparisons order the keys of a \<open>std::map\<close>.
\<close>

section \<open>Headers\<close>

record HttpHeader =
  hname :: string
  hvalue :: string

type_synonym HttpHeaderList = "HttpHeader list"

definition header_eq :: "HttpHeader \<Rightarrow> HttpHeader \<Rightarrow> bool" where
  "header_eq a b \<longleftrightarrow> ignore_case_equal (hname a) (hname b) \<and> hvalue a = hvalue b"

definition headers_eq :: "HttpHeaderList \<Rightarrow> HttpHeaderList \<Rightarrow> bool" where
  "headers_eq a b = list_all2 header_eq a b"

definition headers_add :: "string \<Rightarrow> string \<Rightarrow> HttpHeaderList \<Rightarrow> HttpHeaderList" where
  "headers_add name val hs = hs @ [\<lparr>hname = name, hvalue = val\<rparr>]"

definition headers_set :: "string \<Rightarrow> string \<Rightarrow> HttpHeaderList \<Rightarrow> HttpHeaderList" where
  "headers_set name val hs =
     headers_add name val (filter (\<lambda>h. \<not> ignore_case_equal (hname h) name) hs)"

fun headers_get :: "string \<Rightarrow> HttpHeaderList \<Rightarrow> string option" where
  "headers_get name [] = None"
| "headers_get name (h # hs) =
     (if ignore_case_equal (hname h) name then Some (hvalue h) else headers_get name hs)"

definition headers_contains :: "string \<Rightarrow> HttpHeaderList \<Rightarrow> bool" where
  "headers_contains name hs = (headers_get name hs \<noteq> None)"

definition headers_to_string :: "HttpHeaderList \<Rightarrow> string" where
  "headers_to_string hs = concat (map (\<lambda>h. hname h @ '':'' @ hvalue h @ [CHR 0x0A]) hs)"

section \<open>Requests\<close>

record HttpTimeout =
  connection_timeout :: u32
  read_timeout :: u32
  write_timeout :: u32

definition default_timeout :: HttpTimeout where
  "default_timeout = \<lparr>connection_timeout = 5000, read_timeout = 5000, write_timeout = 5000\<rparr>"

record HttpRequest =
  req_url :: Url
  req_method :: string
  req_headers :: HttpHeaderList
  req_body :: "u8 list option"
  req_timeout :: HttpTimeout

definition default_request :: HttpRequest where
  "default_request =
     \<lparr>req_url = default_url, req_method = ''GET'', req_headers = [], req_body = None,
      req_timeout = default_timeout\<rparr>"

text \<open>The move constructor and the move assignment: neither of them names \<open>timeout\<close>.\<close>

definition request_move :: "HttpRequest \<Rightarrow> HttpRequest" where
  "request_move other =
     \<lparr>req_url = req_url other, req_method = req_method other, req_headers = req_headers other,
      req_body = req_body other, req_timeout = default_timeout\<rparr>"

definition request_move_assign :: "HttpRequest \<Rightarrow> HttpRequest \<Rightarrow> HttpRequest" where
  "request_move_assign self other =
     self\<lparr>req_method := req_method other, req_url := req_url other, req_headers := req_headers other,
          req_body := req_body other\<rparr>"

definition crlf :: string where
  "crlf = [CHR 0x0D, CHR 0x0A]"

definition request_target :: "HttpRequest \<Rightarrow> string" where
  "request_target r =
     (if req_method r = ''CONNECT'' then
        (let port = port_or_default (req_url r);
             port = (if port = 0
                     then (if scheme_of (req_url r) = ''https'' \<or> scheme_of (req_url r) = ''wss'' then 443 else 80)
                     else port)
         in host_of (req_url r) @ '':'' @ to_string_int port)
      else
        (if path_of (req_url r) = [] then ''/'' else path_of (req_url r)) @
        (if query_of (req_url r) \<noteq> [] then ''?'' @ query_of (req_url r) else []))"

text \<open>The loop over the headers; the two flags are \<open>has_content_length\<close> and \<open>has_host\<close>.\<close>

fun write_headers :: "HttpHeaderList \<Rightarrow> bool \<times> bool \<times> BinartWriter \<Rightarrow> bool \<times> bool \<times> BinartWriter" where
  "write_headers [] s = s"
| "write_headers (h # hs) (has_content_length, has_host, w) =
     write_headers hs
       (has_content_length \<or> ignore_case_equal (hname h) ''content-length'',
        has_host \<or> ignore_case_equal (hname h) ''host'',
        write_string (hname h @ '': '' @ hvalue h @ crlf) w)"

definition host_line :: "HttpRequest \<Rightarrow> string" where
  "host_line r =
     (if req_method r = ''CONNECT'' then ''Host: '' @ request_target r @ crlf
      else
        (let port = port_or_default (req_url r)
         in if port \<noteq> 0 \<and> port \<noteq> 80 \<and> port \<noteq> 443
            then ''Host: '' @ host_of (req_url r) @ '':'' @ to_string_int port @ crlf
            else ''Host: '' @ host_of (req_url r) @ crlf))"

definition serialize_to_h1 :: "endian \<Rightarrow> HttpRequest \<Rightarrow> u8 list" where
  "serialize_to_h1 native r =
     (let body_bytes = (case req_body r of None \<Rightarrow> [] | Some b \<Rightarrow> b);
          w = write_string (req_method r @ '' '' @ request_target r @ '' HTTP/1.1'' @ crlf) \<lparr>wbuffer = []\<rparr>;
          (has_content_length, has_host, w) = write_headers (req_headers r) (False, False, w);
          w = (if \<not> has_host then write_string (host_line r) w else w);
          w = (if body_bytes \<noteq> [] \<and> \<not> has_content_length
               then write_string (''Content-Length: '' @ nat_digits (length body_bytes) @ crlf) w else w);
          w = write_u16 native 0x0D0A big w;
          w = (if body_bytes \<noteq> [] then write_bytes body_bytes w else w)
      in fst (writer_leak w))"

section \<open>Responses\<close>

datatype Version = HTTP_10 | HTTP_11 | HTTP_2 | HTTP_3

record HttpStatus =
  status_code :: int
  status_message :: string

record HeadParts =
  head_status :: HttpStatus
  head_version :: Version
  head_headers :: HttpHeaderList

definition empty_head :: HeadParts where
  "empty_head =
     \<lparr>head_status = \<lparr>status_code = 0, status_message = []\<rparr>, head_version = HTTP_11, head_headers = []\<rparr>"

section \<open>Proxies and session keys\<close>

record ProxyAuth =
  username :: string
  password :: string

record ProxyConfig =
  proxy_host :: string
  proxy_port :: int
  proxy_auth :: "ProxyAuth option"
  proxy_headers :: HttpHeaderList

definition basic_auth_value :: "ProxyAuth \<Rightarrow> string option" where
  "basic_auth_value a =
     map_option (\<lambda>e. ''Basic '' @ e) (base64_encode_str (username a @ '':'' @ password a))"

definition basic_header :: "ProxyAuth \<Rightarrow> HttpHeader option" where
  "basic_header a = map_option (\<lambda>v. \<lparr>hname = ''Authorization'', hvalue = v\<rparr>) (basic_auth_value a)"

record SessionKey =
  key_host :: string
  key_port :: int
  key_is_ssl :: bool
  key_proxy :: "ProxyConfig option"

datatype ordering = Less | Equal | Greater

text \<open>The three-way comparison of integers, and of the types the keys are made of.\<close>

definition cmp_int :: "int \<Rightarrow> int \<Rightarrow> ordering" where
  "cmp_int a b = (if a < b then Less else if a = b then Equal else Greater)"

definition cmp_bool :: "bool \<Rightarrow> bool \<Rightarrow> ordering" where
  "cmp_bool a b = cmp_int (if a then 1 else 0) (if b then 1 else 0)"

definition cmp_char :: "char \<Rightarrow> char \<Rightarrow> ordering" where
  "cmp_char a b = cmp_int (int (of_char a)) (int (of_char b))"

definition then_cmp :: "ordering \<Rightarrow> ordering \<Rightarrow> ordering" where
  "then_cmp a b = (if a = Equal then b else a)"

fun cmp_string :: "string \<Rightarrow> string \<Rightarrow> ordering" where
  "cmp_string [] [] = Equal"
| "cmp_string [] (y # ys) = Less"
| "cmp_string (x # xs) [] = Greater"
| "cmp_string (x # xs) (y # ys) = then_cmp (cmp_char x y) (cmp_string xs ys)"

fun cmp_option :: "('a \<Rightarrow> 'a \<Rightarrow> ordering) \<Rightarrow> 'a option \<Rightarrow> 'a option \<Rightarrow> ordering" where
  "cmp_option f None None = Equal"
| "cmp_option f None (Some y) = Less"
| "cmp_option f (Some x) None = Greater"
| "cmp_option f (Some x) (Some y) = f x y"

definition cmp_proxy_auth :: "ProxyAuth \<Rightarrow> ProxyAuth \<Rightarrow> ordering" where
  "cmp_proxy_auth a b =
     then_cmp (cmp_string (username a) (username b)) (cmp_string (password a) (password b))"

definition cmp_proxy_config :: "ProxyConfig \<Rightarrow> ProxyConfig \<Rightarrow> ordering" where
  "cmp_proxy_config a b =
     then_cmp (cmp_string (proxy_host a) (proxy_host b))
       (then_cmp (cmp_int (proxy_port a) (proxy_port b))
          (cmp_option cmp_proxy_auth (proxy_auth a) (proxy_auth b)))"

definition proxy_config_eq :: "ProxyConfig \<Rightarrow> ProxyConfig \<Rightarrow> bool" where
  "proxy_config_eq a b \<longleftrightarrow>
     proxy_host a = proxy_host b \<and> proxy_port a = proxy_port b \<and> proxy_auth a = proxy_auth b"

definition cmp_session_key :: "SessionKey \<Rightarrow> SessionKey \<Rightarrow> ordering" where
  "cmp_session_key a b =
     then_cmp (cmp_string (key_host a) (key_host b))
       (then_cmp (cmp_int (key_port a) (key_port b))
          (then_cmp (cmp_bool (key_is_ssl a) (key_is_ssl b))
             (cmp_option cmp_proxy_config (key_proxy a) (key_proxy b))))"

section \<open>Lookups in header lists\<close>

lemma headers_get_find:
  "headers_get k hs =
     map_option snd (find (\<lambda>p. ignore_case_equal (fst p) k) (map (\<lambda>h. (hname h, hvalue h)) hs))"
  by (induction hs) auto

lemma header_pairs_set:
  "map (\<lambda>h. (hname h, hvalue h)) (headers_set n v hs) =
     filter (\<lambda>p. \<not> ignore_case_equal (fst p) n) (map (\<lambda>h. (hname h, hvalue h)) hs) @ [(n, v)]"
  by (simp add: headers_set_def headers_add_def filter_map comp_def)

lemma headers_get_add:
  "headers_get k (headers_add n v hs) =
     (case headers_get k hs of None \<Rightarrow> if ignore_case_equal n k then Some v else None | Some x \<Rightarrow> Some x)"
  by (induction hs) (auto simp: headers_add_def)

text \<open>After \<open>set(n, v)\<close> a lookup of any spelling of \<open>n\<close> gives \<open>v\<close>, the lookup of every other name is
  unchanged, and exactly one header of that name is left.\<close>

theorem headers_get_set:
  "headers_get k (headers_set n v hs) = (if ignore_case_equal n k then Some v else headers_get k hs) \<and>
   length (filter (\<lambda>h. ignore_case_equal (hname h) n) (headers_set n v hs)) = 1"
proof
  show "headers_get k (headers_set n v hs) = (if ignore_case_equal n k then Some v else headers_get k hs)"
    unfolding headers_get_find header_pairs_set name_key.find_after_erase_append by simp
  show "length (filter (\<lambda>h. ignore_case_equal (hname h) n) (headers_set n v hs)) = 1"
    by (simp add: headers_set_def headers_add_def name_key.eq_refl)
qed

section \<open>The bytes of a request\<close>

definition header_line :: "HttpHeader \<Rightarrow> string" where
  "header_line h = hname h @ '': '' @ hvalue h @ crlf"

definition body_of :: "HttpRequest \<Rightarrow> u8 list" where
  "body_of r = (case req_body r of None \<Rightarrow> [] | Some b \<Rightarrow> b)"

definition host_value :: "HttpRequest \<Rightarrow> string" where
  "host_value r =
     (if req_method r = ''CONNECT'' then request_target r
      else if port_or_default (req_url r) \<in> {0, 80, 443} then host_of (req_url r)
      else host_of (req_url r) @ '':'' @ to_string_int (port_or_default (req_url r)))"

text \<open>The headers that go out: those of the request and the ones the serialiser adds.\<close>

definition sent_headers :: "HttpRequest \<Rightarrow> HttpHeaderList" where
  "sent_headers r =
     req_headers r @
     (if headers_contains ''host'' (req_headers r) then [] else [\<lparr>hname = ''Host'', hvalue = host_value r\<rparr>]) @
     (if body_of r = [] \<or> headers_contains ''content-length'' (req_headers r) then []
      else [\<lparr>hname = ''Content-Length'', hvalue = nat_digits (length (body_of r))\<rparr>])"

lemma headers_contains_Cons:
  "headers_contains k (h # hs) \<longleftrightarrow> ignore_case_equal (hname h) k \<or> headers_contains k hs"
  by (simp add: headers_contains_def)

lemma writer_eqI: "wbuffer a = wbuffer b \<Longrightarrow> a = (b :: BinartWriter)"
  by (cases a, cases b) simp

lemma wbuffer_write_string: "wbuffer (write_string s w) = wbuffer w @ map byte_of_char s"
  by (simp add: write_string_def)

lemma write_headers_eq:
  "write_headers hs (cl, ho, w) =
     (cl \<or> headers_contains ''content-length'' hs, ho \<or> headers_contains ''host'' hs,
      \<lparr>wbuffer = wbuffer w @ map byte_of_char (concat (map header_line hs))\<rparr>)"
proof (induction hs arbitrary: cl ho w)
  case Nil
  then show ?case by (cases w) (simp add: headers_contains_def)
next
  case (Cons h hs)
  then show ?case
    by (auto simp: headers_contains_Cons header_line_def wbuffer_write_string crlf_def)
qed

lemma host_line_eq: "host_line r = header_line \<lparr>hname = ''Host'', hvalue = host_value r\<rparr>"
  by (simp add: host_line_def header_line_def host_value_def Let_def)

lemma wire_crlf: "wire_bytes big (0x0D0A :: u16) = map byte_of_char crlf"
proof -
  have "wire_bytes big (0x0D0A :: u16) = [0x0D, 0x0A]" by (simp add: wire_bytes_def le_bytes_16)
  also have "\<dots> = map byte_of_char crlf" by (simp add: crlf_def byte_of_char_def)
  finally show ?thesis .
qed

lemma serialize_bytes:
  "serialize_to_h1 native r =
     map byte_of_char (req_method r @ '' '' @ request_target r @ '' HTTP/1.1'' @ crlf @
       concat (map header_line (sent_headers r)) @ crlf) @ body_of r"
proof -
  have "''Content-Length: '' @ n @ crlf = header_line \<lparr>hname = ''Content-Length'', hvalue = n\<rparr>" for n
    by (simp add: header_line_def)
  then show ?thesis
    unfolding serialize_to_h1_def Let_def write_headers_eq body_of_def [symmetric] host_line_eq sent_headers_def
    by (simp add: writer_leak_def wbuffer_write_string wire_crlf)
qed

section \<open>A reference parser for requests\<close>

text \<open>A line ends at the first carriage return that a line feed follows.\<close>

fun split_line :: "string \<Rightarrow> (string \<times> string) option" where
  "split_line [] = None"
| "split_line (c # cs) =
     (if starts_with crlf (c # cs) then Some ([], drop 2 (c # cs))
      else map_option (\<lambda>(l, r). (c # l, r)) (split_line cs))"

definition p_header :: "string \<Rightarrow> HttpHeader option" where
  "p_header l =
     (case find_index (\<lambda>c. c = CHR '':'') l of
        None \<Rightarrow> None
      | Some i \<Rightarrow>
          if starts_with '': '' (drop i l) then Some \<lparr>hname = take i l, hvalue = drop (i + 2) l\<rparr> else None)"

lemma split_line_shorter: "split_line s = Some (l, r) \<Longrightarrow> length r < length s"
  by (induction s arbitrary: l) (auto split: if_splits)

function p_headers :: "string \<Rightarrow> (HttpHeaderList \<times> string) option" where
  "p_headers s =
     (case split_line s of
        None \<Rightarrow> None
      | Some (l, r) \<Rightarrow>
          if l = [] then Some ([], r)
          else (case p_header l of
                  None \<Rightarrow> None
                | Some h \<Rightarrow> map_option (\<lambda>(hs, body). (h # hs, body)) (p_headers r)))"
  by pat_completeness auto

termination
  by (relation "measure length") (auto dest: split_line_shorter)

declare p_headers.simps [simp del]

record parsed_request =
  p_method :: string
  p_target :: string
  p_fields :: HttpHeaderList
  p_body :: "u8 list"

definition p_request_line :: "string \<Rightarrow> (string \<times> string) option" where
  "p_request_line l =
     (case find_index (\<lambda>c. c = CHR '' '') l of
        None \<Rightarrow> None
      | Some i \<Rightarrow>
          (let rest = drop (i + 1) l
           in case find_index (\<lambda>c. c = CHR '' '') rest of
                None \<Rightarrow> None
              | Some j \<Rightarrow> if drop j rest = '' HTTP/1.1'' then Some (take i l, take j rest) else None))"

definition p_request :: "u8 list \<Rightarrow> parsed_request option" where
  "p_request bs =
     (case split_line (map char_of_byte bs) of
        None \<Rightarrow> None
      | Some (l, r) \<Rightarrow>
          (case (p_request_line l, p_headers r) of
             (Some (m, t), Some (hs, b)) \<Rightarrow>
               Some \<lparr>p_method = m, p_target = t, p_fields = hs, p_body = map byte_of_char b\<rparr>
           | _ \<Rightarrow> None))"

lemma split_line_crlf:
  "free_of crlf l \<Longrightarrow> split_line (l @ crlf @ r) = Some (l, r)"
proof (induction l)
  case Nil
  then show ?case by (simp add: crlf_def)
next
  case (Cons c l)
  then have "\<not> starts_with crlf (c # l @ crlf @ r)" by (auto simp: crlf_def)
  with Cons show ?case by simp
qed

definition header_ok :: "HttpHeader \<Rightarrow> bool" where
  "header_ok h \<longleftrightarrow> free_of (CHR '':'' # crlf) (hname h) \<and> free_of crlf (hvalue h)"

lemma free_of_Cons: "free_of (c # cs) s \<longleftrightarrow> c \<notin> set s \<and> free_of cs s"
  by (auto simp: free_of_iff)

lemma p_header_line: 
  assumes "header_ok h"
  shows "p_header (hname h @ '': '' @ hvalue h) = Some h"
proof -
  have "find_index (\<lambda>c. c = CHR '':'') (hname h @ CHR '':'' # CHR '' '' # hvalue h) = Some (length (hname h))"
    using assms by (intro find_index_append_hit) (auto simp: header_ok_def free_of_Cons)
  then show ?thesis by (simp add: p_header_def)
qed

lemma p_headers_lines:
  "list_all header_ok hs \<Longrightarrow> p_headers (concat (map header_line hs) @ crlf @ body) = Some (hs, body)"
proof (induction hs)
  case Nil
  then show ?case using split_line_crlf [of "[]" body] by (simp add: p_headers.simps)
next
  case (Cons h hs)
  have "free_of crlf (hname h @ '': '' @ hvalue h)"
    using Cons.prems by (simp add: header_ok_def free_of_Cons) (simp add: crlf_def)
  then have "split_line (concat (map header_line (h # hs)) @ crlf @ body) =
      Some (hname h @ '': '' @ hvalue h, concat (map header_line hs) @ crlf @ body)"
    using split_line_crlf [of "hname h @ '': '' @ hvalue h" "concat (map header_line hs) @ crlf @ body"]
    by (simp add: header_line_def)
  then show ?case using Cons p_header_line [of h] by (subst p_headers.simps) simp
qed

lemma p_request_line_ok:
  assumes "CHR '' '' \<notin> set m" "CHR '' '' \<notin> set t"
  shows "p_request_line (m @ '' '' @ t @ '' HTTP/1.1'') = Some (m, t)"
proof -
  have "find_index (\<lambda>c. c = CHR '' '') (m @ CHR '' '' # t @ '' HTTP/1.1'') = Some (length m)"
    "find_index (\<lambda>c. c = CHR '' '') (t @ CHR '' '' # ''HTTP/1.1'') = Some (length t)"
    using assms by (intro find_index_append_hit; auto)+
  then show ?thesis by (simp add: p_request_line_def)
qed

text \<open>No part of the request holds a character that would end the part early.\<close>

definition request_ok :: "HttpRequest \<Rightarrow> bool" where
  "request_ok r \<longleftrightarrow>
     free_of (CHR '' '' # crlf) (req_method r) \<and> free_of (CHR '' '' # crlf) (request_target r) \<and>
     free_of crlf (host_of (req_url r)) \<and> list_all header_ok (req_headers r)"

lemma to_string_int_crlf: "free_of crlf (to_string_int p)"
  by (auto simp: free_of_iff is_digit_def crlf_def dest!: to_string_int_chars)

lemma nat_digits_crlf: "free_of crlf (nat_digits n)"
  using to_string_int_crlf [of "int n"] by (simp add: to_string_int_def)

lemma host_value_ok: "request_ok r \<Longrightarrow> free_of crlf (host_value r)"
  using to_string_int_crlf [of "port_or_default (req_url r)"]
  by (simp add: request_ok_def host_value_def free_of_Cons) (simp add: crlf_def)

lemma added_names_ok: "free_of (CHR '':'' # crlf) ''Host''" "free_of (CHR '':'' # crlf) ''Content-Length''"
  by (simp_all add: crlf_def)

lemma sent_headers_ok:
  assumes "request_ok r"
  shows "list_all header_ok (sent_headers r)"
proof -
  have "header_ok \<lparr>hname = ''Host'', hvalue = host_value r\<rparr>"
    "header_ok \<lparr>hname = ''Content-Length'', hvalue = nat_digits (length (body_of r))\<rparr>"
    using host_value_ok [OF assms] nat_digits_crlf added_names_ok unfolding header_ok_def by simp_all
  moreover have "list_all header_ok (req_headers r)" using assms by (simp add: request_ok_def)
  ultimately show ?thesis by (simp add: sent_headers_def)
qed

lemma serialize_p_request:
  assumes "request_ok r"
  shows "p_request (serialize_to_h1 native r) = Some
    \<lparr>p_method = req_method r, p_target = request_target r, p_fields = sent_headers r, p_body = body_of r\<rparr>"
proof -
  let ?l = "req_method r @ '' '' @ request_target r @ '' HTTP/1.1''"
  let ?hs = "concat (map header_line (sent_headers r)) @ crlf @ map char_of_byte (body_of r)"
  have "map char_of_byte (serialize_to_h1 native r) = ?l @ crlf @ ?hs"
    by (simp add: serialize_bytes comp_def)
  moreover have "free_of crlf ?l" using assms by (simp add: request_ok_def free_of_Cons) (simp add: crlf_def)
  moreover have "p_request_line ?l = Some (req_method r, request_target r)"
    using assms by (intro p_request_line_ok) (auto simp: request_ok_def free_of_Cons)
  ultimately show ?thesis
    using split_line_crlf [of ?l ?hs] p_headers_lines [OF sent_headers_ok [OF assms], of "map char_of_byte (body_of r)"]
    by (simp add: p_request_def comp_def)
qed


definition sample_request :: HttpRequest where
  "sample_request =
     default_request\<lparr>req_method := ''POST'', req_url := sample_url,
       req_headers := [\<lparr>hname = ''Accept'', hvalue = ''*/*''\<rparr>], req_body := Some [1, 2, 3]\<rparr>"


text \<open>Neither the move constructor nor the move assignment of \<open>HttpRequest\<close> carries the timeouts of the
  source over: a request that was moved has the default timeouts, or those of the target of the
  assignment, and everything else of the source.\<close>

theorem request_move_timeout:
  "request_move r = r\<lparr>req_timeout := default_timeout\<rparr> \<and>
   request_move_assign self r = r\<lparr>req_timeout := req_timeout self\<rparr>"
  by (cases r; cases self) (simp add: request_move_def request_move_assign_def)

section \<open>Three-way comparisons\<close>

primrec flip_ordering :: "ordering \<Rightarrow> ordering" where
  "flip_ordering Less = Greater"
| "flip_ordering Equal = Equal"
| "flip_ordering Greater = Less"

text \<open>What an ordered container needs of the comparison of its keys.\<close>

locale comparison =
  fixes cmp :: "'a \<Rightarrow> 'a \<Rightarrow> ordering"
  assumes cmp_refl: "cmp a a = Equal"
    and cmp_flip: "cmp b a = flip_ordering (cmp a b)"
    and cmp_trans: "cmp a b \<noteq> Greater \<Longrightarrow> cmp b c \<noteq> Greater \<Longrightarrow> cmp a c \<noteq> Greater"
begin

lemma equal_sym: "cmp a b = Equal \<Longrightarrow> cmp b a = Equal"
  using cmp_flip [of b a] by simp

lemma equal_cong: "cmp a b = Equal \<Longrightarrow> cmp a c = cmp b c"
  using cmp_trans [of a b c] cmp_trans [of c b a] cmp_trans [of b a c] cmp_trans [of c a b]
    cmp_flip [of b a] cmp_flip [of c b] cmp_flip [of c a]
  by (cases "cmp a c"; cases "cmp b c") auto

lemma equal_cong2: "cmp a b = Equal \<Longrightarrow> cmp c a = cmp c b"
  using equal_cong [of a b c] cmp_flip [of c a] cmp_flip [of c b] by simp

lemma less_trans: "cmp a b = Less \<Longrightarrow> cmp b c = Less \<Longrightarrow> cmp a c = Less"
  using cmp_trans [of a b c] equal_cong [of a c b] cmp_flip [of c b] by (cases "cmp a c") auto

lemma compose:
  assumes "cmp a b \<noteq> Greater" "cmp b c \<noteq> Greater"
  shows "cmp a c = (if cmp a b = Equal \<and> cmp b c = Equal then Equal else Less)"
proof (cases "cmp a b = Equal \<or> cmp b c = Equal")
  case True
  then have "cmp a c = (if cmp a b = Equal then cmp b c else cmp a b)"
    using equal_cong [of a b c] equal_cong2 [of b c a] by argo
  then show ?thesis using assms True by (cases "cmp a b"; cases "cmp b c") simp_all
next
  case False
  then have "cmp a b = Less" "cmp b c = Less" using assms by (cases "cmp a b"; cases "cmp b c"; simp)+
  then show ?thesis using less_trans by simp
qed

end

lemma flip_then: "flip_ordering (then_cmp a b) = then_cmp (flip_ordering a) (flip_ordering b)"
  by (cases a) (simp_all add: then_cmp_def)

text \<open>Comparing one field after the other.\<close>

lemma comparison_lex:
  assumes "comparison c" "comparison d"
  shows "comparison (\<lambda>x y. then_cmp (c (f x) (f y)) (d (g x) (g y)))"
proof
  show "then_cmp (c (f a) (f a)) (d (g a) (g a)) = Equal" for a
    by (simp add: then_cmp_def comparison.cmp_refl [OF assms(1)] comparison.cmp_refl [OF assms(2)])
  show "then_cmp (c (f b) (f a)) (d (g b) (g a)) = flip_ordering (then_cmp (c (f a) (f b)) (d (g a) (g b)))" for a b
    using comparison.cmp_flip [OF assms(1), of "f b" "f a"] comparison.cmp_flip [OF assms(2), of "g b" "g a"]
    by (simp add: flip_then)
  fix a b x
  assume "then_cmp (c (f a) (f b)) (d (g a) (g b)) \<noteq> Greater" "then_cmp (c (f b) (f x)) (d (g b) (g x)) \<noteq> Greater"
  then show "then_cmp (c (f a) (f x)) (d (g a) (g x)) \<noteq> Greater"
    using comparison.compose [OF assms(1), of "f a" "f b" "f x"] comparison.cmp_trans [OF assms(2), of "g a" "g b" "g x"]
    by (auto simp: then_cmp_def split: if_splits)
qed

lemma comparison_on: "comparison c \<Longrightarrow> comparison (\<lambda>x y. c (f x) (f y))"
  unfolding comparison_def by blast

interpretation int_order: comparison cmp_int
  by unfold_locales (auto simp: cmp_int_def split: if_splits)

lemma comparison_bool: "comparison cmp_bool"
  unfolding cmp_bool_def by (rule comparison_on [OF int_order.comparison_axioms])

lemma comparison_char: "comparison cmp_char"
  unfolding cmp_char_def by (rule comparison_on [OF int_order.comparison_axioms])

interpretation char_order: comparison cmp_char
  by (rule comparison_char)

interpretation string_order: comparison cmp_string
proof
  show "cmp_string a a = Equal" for a by (induction a) (simp_all add: then_cmp_def char_order.cmp_refl)
  show "cmp_string b a = flip_ordering (cmp_string a b)" for a b
  proof (induction a b rule: cmp_string.induct)
    case (4 x xs y ys)
    then show ?case using char_order.cmp_flip [of y x] by (simp add: flip_then)
  qed simp_all
  show "cmp_string a b \<noteq> Greater \<Longrightarrow> cmp_string b c \<noteq> Greater \<Longrightarrow> cmp_string a c \<noteq> Greater" for a b c
  proof (induction a b arbitrary: c rule: cmp_string.induct)
    case (4 x xs y ys)
    then show ?case
    proof (cases c)
      case (Cons z zs)
      then show ?thesis using 4 char_order.compose [of x y z] by (auto simp: then_cmp_def split: if_splits)
    qed simp
  qed (auto elim: cmp_string.elims)
qed

lemma cmp_string_equal: "cmp_string a b = Equal \<longleftrightarrow> a = b"
proof (induction a b rule: cmp_string.induct)
  case (4 x xs y ys)
  have "cmp_char x y = Equal \<longleftrightarrow> x = y" by (simp add: cmp_char_def cmp_int_def)
  with 4 show ?case by (simp add: then_cmp_def)
qed simp_all

lemma comparison_option:
  assumes "comparison c"
  shows "comparison (cmp_option c)"
proof
  show "cmp_option c a a = Equal" for a by (cases a) (simp_all add: comparison.cmp_refl [OF assms])
  show "cmp_option c b a = flip_ordering (cmp_option c a b)" for a b
    by (cases a; cases b) (simp_all, rule comparison.cmp_flip [OF assms])
  show "cmp_option c a b \<noteq> Greater \<Longrightarrow> cmp_option c b x \<noteq> Greater \<Longrightarrow> cmp_option c a x \<noteq> Greater" for a b x
    using comparison.cmp_trans [OF assms, of "the a" "the b" "the x"] by (cases a; cases b; cases x) simp_all
qed

lemma comparison_proxy_auth: "comparison cmp_proxy_auth"
  unfolding cmp_proxy_auth_def
  by (rule comparison_lex [OF string_order.comparison_axioms string_order.comparison_axioms])

lemma comparison_proxy_config: "comparison cmp_proxy_config"
proof -
  have "comparison (\<lambda>x y. then_cmp (cmp_int (proxy_port x) (proxy_port y))
      (cmp_option cmp_proxy_auth (proxy_auth x) (proxy_auth y)))"
    by (rule comparison_lex [OF int_order.comparison_axioms comparison_option [OF comparison_proxy_auth]])
  from comparison_lex [OF string_order.comparison_axioms this, where g = "\<lambda>x. x"]
  show ?thesis unfolding cmp_proxy_config_def .
qed

interpretation key_order: comparison cmp_session_key
proof -
  have "comparison (\<lambda>x y. then_cmp (cmp_bool (key_is_ssl x) (key_is_ssl y))
      (cmp_option cmp_proxy_config (key_proxy x) (key_proxy y)))"
    by (rule comparison_lex [OF comparison_bool comparison_option [OF comparison_proxy_config]])
  from comparison_lex [OF int_order.comparison_axioms this, where g = "\<lambda>x. x"]
  have "comparison (\<lambda>x y. then_cmp (cmp_int (key_port x) (key_port y))
      (then_cmp (cmp_bool (key_is_ssl x) (key_is_ssl y)) (cmp_option cmp_proxy_config (key_proxy x) (key_proxy y))))" .
  from comparison_lex [OF string_order.comparison_axioms this, where g = "\<lambda>x. x"]
  show "comparison cmp_session_key" unfolding cmp_session_key_def .
qed

lemma cmp_int_equal: "cmp_int a b = Equal \<longleftrightarrow> a = b"
  by (simp add: cmp_int_def)

lemma then_cmp_equal: "then_cmp a b = Equal \<longleftrightarrow> a = Equal \<and> b = Equal"
  by (simp add: then_cmp_def)

lemma cmp_option_equal: "cmp_option c a b = Equal \<longleftrightarrow> rel_option (\<lambda>x y. c x y = Equal) a b"
  by (cases a; cases b) simp_all

lemma cmp_proxy_auth_equal: "cmp_proxy_auth a b = Equal \<longleftrightarrow> a = b"
  by (cases a; cases b) (simp add: cmp_proxy_auth_def then_cmp_equal cmp_string_equal)

lemma cmp_proxy_config_equal: "cmp_proxy_config a b = Equal \<longleftrightarrow> proxy_config_eq a b"
  by (simp add: cmp_proxy_config_def then_cmp_equal cmp_string_equal cmp_int_equal cmp_option_equal
      proxy_config_eq_def cmp_proxy_auth_equal option.rel_eq)

text \<open>The comparison that orders the session map is a total order on the connection parameters, and two keys
  compare equal exactly if host, port, TLS use and proxy agree, where two proxies that differ only in
  their extra headers agree.\<close>

theorem session_key_order:
  "(cmp_session_key a b = Equal \<longleftrightarrow>
      key_host a = key_host b \<and> key_port a = key_port b \<and> key_is_ssl a = key_is_ssl b \<and>
      rel_option proxy_config_eq (key_proxy a) (key_proxy b)) \<and>
   cmp_session_key b a = flip_ordering (cmp_session_key a b) \<and>
   (cmp_session_key a b = Less \<and> cmp_session_key b c = Less \<longrightarrow> cmp_session_key a c = Less)"
proof (intro conjI impI)
  have "cmp_bool x y = Equal \<longleftrightarrow> x = y" for x y by (simp add: cmp_bool_def cmp_int_equal)
  then show "cmp_session_key a b = Equal \<longleftrightarrow>
      key_host a = key_host b \<and> key_port a = key_port b \<and> key_is_ssl a = key_is_ssl b \<and>
      rel_option proxy_config_eq (key_proxy a) (key_proxy b)"
    by (simp add: cmp_session_key_def then_cmp_equal cmp_string_equal cmp_int_equal cmp_option_equal
        cmp_proxy_config_equal)
  show "cmp_session_key b a = flip_ordering (cmp_session_key a b)" by (rule key_order.cmp_flip)
qed (blast intro: key_order.less_trans)

definition sample_key :: "string \<Rightarrow> SessionKey" where
  "sample_key h = \<lparr>key_host = h, key_port = 443, key_is_ssl = True, key_proxy = None\<rparr>"

end
