(* ===== verification/Session_Pool.thy ===== *)
theory Session_Pool
  imports Http_Types "HOL-Library.Multiset"
begin

text \<open>
  The connection pool and the client on top of it: \<open>ppnt-http/src/session.cpp\<close>, \<open>session.ixx\<close>,
  \<open>client.cpp\<close>.

  A session is a number. \<open>sessions_\<close> is a \<open>std::map\<close>: a list of groups, sorted by the comparison of the
  keys. What a session answers to \<open>is_valid\<close> and \<open>get_http_version\<close> belongs to its connection and is
  passed in. \<open>acquire_session\<close> suspends while a connection is made, with a reference into the map in its
  hands: the model has the part before and the part after that point, and a count of the calls of
  \<open>sessions_.clear()\<close>, so that the second part knows whether its reference is still good.

  The lemmas describe each operation, and the step relation at the end interleaves them with the connections
  and responses of a client.
\<close>

section \<open>The ordered map\<close>

fun smap_get :: "('k \<Rightarrow> 'k \<Rightarrow> ordering) \<Rightarrow> 'k \<Rightarrow> ('k \<times> 'v) list \<Rightarrow> 'v option" where
  "smap_get cmp k [] = None"
| "smap_get cmp k ((k', v) # m) =
     (case cmp k k' of Less \<Rightarrow> None | Equal \<Rightarrow> Some v | Greater \<Rightarrow> smap_get cmp k m)"

text \<open>\<open>operator[]\<close> followed by a change of the element: a missing element is inserted with the default value.\<close>

fun smap_at ::
    "('k \<Rightarrow> 'k \<Rightarrow> ordering) \<Rightarrow> 'v \<Rightarrow> 'k \<Rightarrow> ('v \<Rightarrow> 'v) \<Rightarrow> ('k \<times> 'v) list \<Rightarrow> ('k \<times> 'v) list" where
  "smap_at cmp d k f [] = [(k, f d)]"
| "smap_at cmp d k f ((k', v) # m) =
     (case cmp k k' of
        Less \<Rightarrow> (k, f d) # (k', v) # m
      | Equal \<Rightarrow> (k', f v) # m
      | Greater \<Rightarrow> (k', v) # smap_at cmp d k f m)"

definition smap_ok :: "('k \<Rightarrow> 'k \<Rightarrow> ordering) \<Rightarrow> ('k \<times> 'v) list \<Rightarrow> bool" where
  "smap_ok cmp m \<longleftrightarrow> sorted_wrt (\<lambda>a b. cmp (fst a) (fst b) = Less) m"

context comparison
begin

lemma smap_at_keys:
  "y \<in> set (smap_at cmp d k f m) \<Longrightarrow> fst y = k \<or> (\<exists>z\<in>set m. fst z = fst y)"
  by (induction m) (force split: ordering.splits)+

lemma smap_ok_at: "smap_ok cmp m \<Longrightarrow> smap_ok cmp (smap_at cmp d k f m)"
proof (induction m)
  case (Cons x m)
  obtain k' v where x: "x = (k', v)" by (cases x)
  have m: "smap_ok cmp m" "\<forall>y\<in>set m. cmp k' (fst y) = Less" using Cons.prems x by (auto simp: smap_ok_def)
  show ?case
  proof (cases "cmp k k'")
    case Less
    then have "\<forall>y\<in>set m. cmp k (fst y) = Less" using m(2) less_trans by blast
    then show ?thesis using Less Cons.prems x by (auto simp: smap_ok_def)
  next
    case Equal
    then show ?thesis using Cons.prems x by (auto simp: smap_ok_def)
  next
    case Greater
    then have "cmp k' k = Less" using cmp_flip [of k' k] by simp
    then have "\<forall>y\<in>set (smap_at cmp d k f m). cmp k' (fst y) = Less"
      using m(2) smap_at_keys [of _ d k f m] by metis
    then show ?thesis using Greater Cons.IH [OF m(1)] x by (simp add: smap_ok_def)
  qed
qed (simp add: smap_ok_def)

lemma smap_get_None: "\<forall>y\<in>set m. cmp k (fst y) = Less \<Longrightarrow> smap_get cmp k m = None"
  by (cases m) auto

lemma smap_get_at:
  assumes "smap_ok cmp m"
  shows "smap_get cmp k' (smap_at cmp d k f m) =
    (if cmp k' k = Equal then Some (f (case smap_get cmp k m of None \<Rightarrow> d | Some v \<Rightarrow> v)) else smap_get cmp k' m)"
  using assms
proof (induction m)
  case Nil
  then show ?case by (cases "cmp k' k") simp_all
next
  case (Cons x m)
  obtain y v where x: "x = (y, v)" by (cases x)
  have m: "smap_ok cmp m" "\<forall>z\<in>set m. cmp y (fst z) = Less" using Cons.prems x by (auto simp: smap_ok_def)
  note IH = Cons.IH [OF m(1)]
  show ?case
  proof (cases "cmp k y")
    case Less
    then show ?thesis using x less_trans [of k' k y] by (cases "cmp k' k") simp_all
  next
    case Equal
    then show ?thesis using x equal_cong2 [of k y k'] by (cases "cmp k' y") simp_all
  next
    case Greater
    then have "cmp y k = Less" using cmp_flip [of y k] by simp
    then have "cmp k' k = Equal \<Longrightarrow> cmp k' y = Greater" using equal_cong [of k' k y] Greater by simp
    then show ?thesis using x IH Greater by (cases "cmp k' y") auto
  qed
qed

end

section \<open>The pool\<close>

record HostGroup =
  h2_session :: "nat option"
  h1_idle :: "nat option list"

definition empty_group :: HostGroup where
  "empty_group = \<lparr>h2_session = None, h1_idle = []\<rparr>"

type_synonym session_map = "(SessionKey \<times> HostGroup) list"

record SessionPool =
  sessions :: session_map
  clears :: nat

definition is_h1 :: "Version \<Rightarrow> bool" where
  "is_h1 v \<longleftrightarrow> v = HTTP_11 \<or> v = HTTP_10"

definition group_at :: "SessionKey \<Rightarrow> (HostGroup \<Rightarrow> HostGroup) \<Rightarrow> SessionPool \<Rightarrow> SessionPool" where
  "group_at key f p = p\<lparr>sessions := smap_at cmp_session_key empty_group key f (sessions p)\<rparr>"

definition group_get :: "SessionKey \<Rightarrow> SessionPool \<Rightarrow> HostGroup" where
  "group_get key p = (case smap_get cmp_session_key key (sessions p) of None \<Rightarrow> empty_group | Some g \<Rightarrow> g)"

text \<open>The loop that takes sessions from the idle queue until one is valid; \<open>None\<close> is a null pointer access.\<close>

fun pop_valid :: "(nat \<Rightarrow> bool) \<Rightarrow> nat option list \<Rightarrow> (nat option \<times> nat option list) option" where
  "pop_valid is_valid [] = Some (None, [])"
| "pop_valid is_valid (None # q) = None"
| "pop_valid is_valid (Some s # q) = (if is_valid s then Some (Some s, q) else pop_valid is_valid q)"

text \<open>The head of \<open>acquire_session\<close>: a session of the pool, or \<open>None\<close> when a connection has to be made.\<close>

definition prune_group :: "(nat \<Rightarrow> bool) \<Rightarrow> HostGroup \<Rightarrow> HostGroup" where
  "prune_group is_valid g =
     g\<lparr>h2_session := (case h2_session g of Some s \<Rightarrow> if \<not> is_valid s then None else Some s | None \<Rightarrow> None),
       h1_idle := filter (\<lambda>s. \<not> (s = None \<or> \<not> is_valid (the s))) (h1_idle g)\<rparr>"

definition acquire_begin ::
    "(nat \<Rightarrow> bool) \<Rightarrow> SessionKey \<Rightarrow> SessionPool \<Rightarrow> (nat option \<times> SessionPool) option" where
  "acquire_begin is_valid key p =
     (let p = group_at key (prune_group is_valid) p;
          g = group_get key p
      in case h2_session g of
           Some s \<Rightarrow> Some (Some s, p)
         | None \<Rightarrow>
             (case pop_valid is_valid (h1_idle g) of
                None \<Rightarrow> None
              | Some (r, q) \<Rightarrow> Some (r, group_at key (\<lambda>g. g\<lparr>h1_idle := q\<rparr>) p)))"

text \<open>
  The tail of \<open>acquire_session\<close>, after \<open>session_connect\<close> gave \<open>res\<close>; \<open>c\<close> is the number of clears at the
  time the reference to the group was taken. Writing through it after the map was cleared is undefined.
\<close>

definition acquire_finish ::
    "(nat \<Rightarrow> Version) \<Rightarrow> SessionKey \<Rightarrow> nat \<Rightarrow> nat result \<Rightarrow> SessionPool \<Rightarrow> (nat result \<times> SessionPool) option" where
  "acquire_finish version key c res p =
     (case res of
        Inl e \<Rightarrow> Some (Inl e, p)
      | Inr s \<Rightarrow>
          if version s = HTTP_2
          then (if c = clears p then Some (Inr s, group_at key (\<lambda>g. g\<lparr>h2_session := Some s\<rparr>) p) else None)
          else Some (Inr s, p))"

text \<open>\<open>release_h1_session\<close>; the second component is the session that \<open>close()\<close> was called on.\<close>

definition release_h1_session ::
    "(nat \<Rightarrow> bool) \<Rightarrow> (nat \<Rightarrow> Version) \<Rightarrow> SessionKey \<Rightarrow> nat option \<Rightarrow> SessionPool \<Rightarrow> SessionPool \<times> nat option" where
  "release_h1_session is_valid version key session p =
     (case session of
        None \<Rightarrow> (p, None)
      | Some s \<Rightarrow>
          if \<not> is_valid s then (p, None)
          else if is_h1 (version s) then
            (let p = group_at key id p
             in if length (h1_idle (group_get key p)) < 100
                then (group_at key (\<lambda>g. g\<lparr>h1_idle := h1_idle g @ [Some s]\<rparr>) p, None)
                else (p, Some s))
          else (p, None))"

text \<open>
  \<open>close_async\<close>: the idle queue of one group, one group, and the loop over the groups. The result of
  \<open>session->close_async()\<close> is the parameter \<open>close_res\<close>; the first failure ends the loop and leaves the
  rest of the pool as it is.
\<close>

fun close_idle :: "(nat \<Rightarrow> unit result) \<Rightarrow> nat option list \<Rightarrow> unit result \<times> nat option list" where
  "close_idle close_res [] = (Inr (), [])"
| "close_idle close_res (None # q) = close_idle close_res q"
| "close_idle close_res (Some s # q) =
     (case close_res s of Inl e \<Rightarrow> (Inl e, q) | Inr _ \<Rightarrow> close_idle close_res q)"

definition close_group :: "(nat \<Rightarrow> unit result) \<Rightarrow> HostGroup \<Rightarrow> unit result \<times> HostGroup" where
  "close_group close_res g =
     (case (case h2_session g of None \<Rightarrow> Inr () | Some s \<Rightarrow> close_res s) of
        Inl e \<Rightarrow> (Inl e, g)
      | Inr _ \<Rightarrow>
          (case close_idle close_res (h1_idle g) of
             (r, q) \<Rightarrow> (r, g\<lparr>h2_session := None, h1_idle := q\<rparr>)))"

fun close_groups :: "(nat \<Rightarrow> unit result) \<Rightarrow> session_map \<Rightarrow> unit result \<times> session_map" where
  "close_groups close_res [] = (Inr (), [])"
| "close_groups close_res ((k, g) # m) =
     (case close_group close_res g of
        (Inl e, g) \<Rightarrow> (Inl e, (k, g) # m)
      | (Inr _, g) \<Rightarrow> (case close_groups close_res m of (r, m) \<Rightarrow> (r, (k, g) # m)))"

definition pool_close_async :: "(nat \<Rightarrow> unit result) \<Rightarrow> SessionPool \<Rightarrow> unit result \<times> SessionPool" where
  "pool_close_async close_res p =
     (case close_groups close_res (sessions p) of
        (Inl e, m) \<Rightarrow> (Inl e, p\<lparr>sessions := m\<rparr>)
      | (Inr _, m) \<Rightarrow> (Inr (), p\<lparr>sessions := [], clears := clears p + 1\<rparr>))"

section \<open>The client\<close>

text \<open>The key under which \<open>HttpClient::request\<close> asks the pool for a session.\<close>

definition client_key :: "HttpRequest \<Rightarrow> ProxyConfig option \<Rightarrow> SessionKey" where
  "client_key req proxy_config =
     \<lparr>key_host = host_of (req_url req), key_port = port_or_default (req_url req),
      key_is_ssl = (scheme_of (req_url req) = ''https''), key_proxy = proxy_config\<rparr>"

text \<open>
  A response that the client handed out: its session, the key captured by the hook if one was set, and the
  flag that keeps the hook from running twice.
\<close>

record Response =
  session_owner :: nat
  hook_key :: "SessionKey option"
  body_consumed :: bool

definition client_response :: "(nat \<Rightarrow> Version) \<Rightarrow> SessionKey \<Rightarrow> nat \<Rightarrow> Response" where
  "client_response version key s =
     \<lparr>session_owner = s,
      hook_key = (if version s = HTTP_11 \<or> version s = HTTP_10 then Some key else None),
      body_consumed = False\<rparr>"

text \<open>
  \<open>HttpResponse::body_full\<close> after the session delivered a body (\<open>success\<close>) or an error, with the hook of the
  client: the session goes back to the pool or is closed.
\<close>

definition body_full_done ::
    "(nat \<Rightarrow> bool) \<Rightarrow> (nat \<Rightarrow> Version) \<Rightarrow> bool \<Rightarrow> Response \<Rightarrow> SessionPool \<Rightarrow> Response \<times> SessionPool \<times> nat option" where
  "body_full_done is_valid version success r p =
     (if body_consumed r then (r, p, None)
      else
        (let r' = r\<lparr>body_consumed := True\<rparr>
         in case hook_key r of
              None \<Rightarrow> (r', p, None)
            | Some key \<Rightarrow>
                if success
                then (case release_h1_session is_valid version key (Some (session_owner r)) p of (p, c) \<Rightarrow> (r', p, c))
                else (r', p, Some (session_owner r))))"

section \<open>The operations\<close>

lemma smap_at_all:
  assumes "list_all (\<lambda>x. P (snd x)) m" "P (f (case smap_get cmp k m of None \<Rightarrow> d | Some v \<Rightarrow> v))"
  shows "list_all (\<lambda>x. P (snd x)) (smap_at cmp d k f m)"
  using assms by (induction m) (auto split: ordering.splits)

lemma smap_get_all: "list_all (\<lambda>x. P (snd x)) m \<Longrightarrow> smap_get cmp k m = Some v \<Longrightarrow> P v"
  by (induction m) (auto split: ordering.splits)

definition group_ok :: "HostGroup \<Rightarrow> bool" where
  "group_ok g \<longleftrightarrow> length (h1_idle g) \<le> 100 \<and> None \<notin> set (h1_idle g)"

definition pool_ok :: "SessionPool \<Rightarrow> bool" where
  "pool_ok p \<longleftrightarrow> smap_ok cmp_session_key (sessions p) \<and> list_all (\<lambda>x. group_ok (snd x)) (sessions p)"

lemma group_ok_empty [simp]: "group_ok empty_group"
  by (simp add: group_ok_def empty_group_def)

lemma pool_ok_get: "pool_ok p \<Longrightarrow> group_ok (group_get k p)"
  by (auto simp: pool_ok_def group_get_def dest: smap_get_all split: option.splits)

lemma group_get_at:
  "pool_ok p \<Longrightarrow> group_get k' (group_at k f p) =
    (if cmp_session_key k' k = Equal then f (group_get k p) else group_get k' p)"
  by (simp add: pool_ok_def group_get_def group_at_def key_order.smap_get_at)

lemma pool_ok_at:
  assumes "pool_ok p" "group_ok (f (group_get k p))"
  shows "pool_ok (group_at k f p)"
proof -
  have "list_all (\<lambda>x. group_ok (snd x)) (smap_at cmp_session_key empty_group k f (sessions p))"
    using assms by (intro smap_at_all) (simp_all add: pool_ok_def group_get_def)
  then show ?thesis using assms(1) by (simp add: pool_ok_def group_at_def key_order.smap_ok_at)
qed

lemma pop_valid_eq:
  "None \<notin> set q \<Longrightarrow> pop_valid is_valid q =
    (case dropWhile (\<lambda>s. \<not> is_valid (the s)) q of [] \<Rightarrow> Some (None, []) | s # r \<Rightarrow> Some (s, r))"
  by (induction is_valid q rule: pop_valid.induct) auto

lemma pop_valid_filtered:
  assumes "v = filter (\<lambda>s. \<not> (s = None \<or> \<not> is_valid (the s))) q"
  shows "pop_valid is_valid v = Some (if v = [] then None else hd v, tl v)"
proof (cases v)
  case (Cons x xs)
  then have "x \<in> set v" by simp
  then have "x \<noteq> None" "is_valid (the x)" using assms by auto
  then show ?thesis using Cons by (cases x) auto
qed simp

lemma prune_group_ok: "group_ok g \<Longrightarrow> group_ok (prune_group is_valid g)"
  by (auto simp: group_ok_def prune_group_def intro: le_trans [OF length_filter_le])

lemma acquire_begin_run:
  assumes "pool_ok p" "g = prune_group is_valid (group_get key p)"
  shows "\<exists>p'. acquire_begin is_valid key p =
      Some (if h2_session g \<noteq> None then h2_session g else if h1_idle g = [] then None else hd (h1_idle g), p') \<and>
    pool_ok p' \<and>
    group_get key p' = (if h2_session g \<noteq> None then g else g\<lparr>h1_idle := tl (h1_idle g)\<rparr>) \<and>
    (\<forall>k. cmp_session_key k key \<noteq> Equal \<longrightarrow> group_get k p' = group_get k p)"
proof -
  let ?p = "group_at key (prune_group is_valid) p"
  have ok: "group_ok g" unfolding assms(2) by (rule prune_group_ok [OF pool_ok_get [OF assms(1)]])
  have p: "pool_ok ?p" using assms ok by (simp add: pool_ok_at)
  have g: "group_get key ?p = g" using assms by (simp add: group_get_at key_order.cmp_refl)
  have v: "pop_valid is_valid (h1_idle g) = Some (if h1_idle g = [] then None else hd (h1_idle g), tl (h1_idle g))"
    unfolding assms(2) prune_group_def by (intro pop_valid_filtered) simp
  have t: "group_ok (g\<lparr>h1_idle := tl (h1_idle g)\<rparr>)"
    using ok by (cases "h1_idle g") (auto simp: group_ok_def)
  let ?p' = "group_at key (\<lambda>g'. g'\<lparr>h1_idle := tl (h1_idle g)\<rparr>) ?p"
  have "pool_ok ?p'" using p g t by (simp add: pool_ok_at)
  moreover have "group_get key ?p' = g\<lparr>h1_idle := tl (h1_idle g)\<rparr>"
    using p g by (simp add: group_get_at key_order.cmp_refl)
  moreover have "\<forall>k. cmp_session_key k key \<noteq> Equal \<longrightarrow> group_get k ?p' = group_get k p \<and> group_get k ?p = group_get k p"
    using p assms(1) by (simp add: group_get_at)
  ultimately show ?thesis
    using p g v by (cases "h2_session g") (auto simp: acquire_begin_def Let_def)
qed

text \<open>The first part of \<open>acquire_session\<close> never touches a null pointer. It returns the valid HTTP/2 session of
  the group, else the valid idle HTTP/1 session that waited longest, which leaves the queue, else nothing.
  Invalid sessions are gone from the group, and every other group is as before.\<close>

theorem acquire_begin_spec:
  assumes "pool_ok p" "g = prune_group is_valid (group_get key p)"
  shows "\<exists>p'. acquire_begin is_valid key p =
      Some (if h2_session g \<noteq> None then h2_session g else if h1_idle g = [] then None else hd (h1_idle g), p') \<and>
    pool_ok p' \<and>
    group_get key p' = (if h2_session g \<noteq> None then g else g\<lparr>h1_idle := tl (h1_idle g)\<rparr>) \<and>
    (\<forall>k. cmp_session_key k key \<noteq> Equal \<longrightarrow> group_get k p' = group_get k p)"
  by (rule acquire_begin_run [OF assms])

definition sample_pool :: SessionPool where
  "sample_pool =
     \<lparr>sessions = [(sample_key ''a'', \<lparr>h2_session = Some 7, h1_idle = [Some 1, Some 2, Some 3]\<rparr>)], clears = 0\<rparr>"

lemma sample_pool_ok: "pool_ok sample_pool"
  by (simp add: pool_ok_def sample_pool_def smap_ok_def group_ok_def)

lemma release_run:
  assumes "pool_ok p" "release_h1_session is_valid version key session p = (p', closed)"
  shows "pool_ok p' \<and>
    (\<forall>k. cmp_session_key k key \<noteq> Equal \<longrightarrow> group_get k p' = group_get k p) \<and>
    h2_session (group_get key p') = h2_session (group_get key p) \<and>
    (case session of
       Some s \<Rightarrow>
         if is_valid s \<and> is_h1 (version s) then
           (if length (h1_idle (group_get key p)) < 100
            then h1_idle (group_get key p') = h1_idle (group_get key p) @ [Some s] \<and> closed = None
            else h1_idle (group_get key p') = h1_idle (group_get key p) \<and> closed = Some s)
         else p' = p \<and> closed = None
     | None \<Rightarrow> p' = p \<and> closed = None)"
proof -
  let ?p = "group_at key id p"
  have p: "pool_ok ?p" using assms(1) by (simp add: pool_ok_at pool_ok_get)
  have g: "group_get key ?p = group_get key p" using assms(1) by (simp add: group_get_at key_order.cmp_refl)
  have "length (h1_idle (group_get key p)) < 100 \<Longrightarrow>
      pool_ok (group_at key (\<lambda>g. g\<lparr>h1_idle := h1_idle g @ [Some s]\<rparr>) ?p)" for s
    using p pool_ok_get [OF assms(1), of key] g by (auto intro!: pool_ok_at [OF p] simp: group_ok_def)
  then show ?thesis
    using assms p g
    by (auto simp: release_h1_session_def Let_def group_get_at key_order.cmp_refl split: option.splits if_splits)
qed

text \<open>\<open>release_h1_session\<close> keeps the pool well-formed: no group ever holds more than 100 idle sessions. A valid
  HTTP/1 session is appended to the queue of its key, or closed when the queue is full; an invalid one and
  an HTTP/2 session are not put back.\<close>

theorem release_spec:
  assumes "pool_ok p" "release_h1_session is_valid version key session p = (p', closed)"
  shows "pool_ok p' \<and>
    (\<forall>k. cmp_session_key k key \<noteq> Equal \<longrightarrow> group_get k p' = group_get k p) \<and>
    h2_session (group_get key p') = h2_session (group_get key p) \<and>
    (case session of
       Some s \<Rightarrow>
         if is_valid s \<and> is_h1 (version s) then
           (if length (h1_idle (group_get key p)) < 100
            then h1_idle (group_get key p') = h1_idle (group_get key p) @ [Some s] \<and> closed = None
            else h1_idle (group_get key p') = h1_idle (group_get key p) \<and> closed = Some s)
         else p' = p \<and> closed = None
     | None \<Rightarrow> p' = p \<and> closed = None)"
  by (rule release_run [OF assms])

section \<open>The client as a transition system\<close>

text \<open>
  The state of a client: its pool, the calls of \<open>acquire_session\<close> that wait for a connection (key and number of
  clears), the requests that run on a session, the responses handed out, and what is known of the sessions:
  which of them are valid, their versions and the next unused number.
\<close>

record client_state =
  pool :: SessionPool
  connecting :: "(SessionKey \<times> nat) list"
  requesting :: "(SessionKey \<times> nat) list"
  responses :: "Response list"
  valid_now :: "nat \<Rightarrow> bool"
  versions :: "nat \<Rightarrow> Version"
  next_session :: nat

definition init_client :: client_state where
  "init_client =
     \<lparr>pool = \<lparr>sessions = [], clears = 0\<rparr>, connecting = [], requesting = [], responses = [],
      valid_now = (\<lambda>_. False), versions = (\<lambda>_. HTTP_11), next_session = 0\<rparr>"

text \<open>What \<open>close_async\<close> has done to the pool at any of its suspension points: sessions were taken out.\<close>

definition group_shrinks :: "HostGroup \<Rightarrow> HostGroup \<Rightarrow> bool" where
  "group_shrinks g g' \<longleftrightarrow>
     (h2_session g' = h2_session g \<or> h2_session g' = None) \<and> (\<exists>n. h1_idle g' = drop n (h1_idle g))"

definition map_shrinks :: "session_map \<Rightarrow> session_map \<Rightarrow> bool" where
  "map_shrinks m m' \<longleftrightarrow> list_all2 (\<lambda>x y. fst y = fst x \<and> group_shrinks (snd x) (snd y)) m m'"

definition mark_closed :: "nat option \<Rightarrow> (nat \<Rightarrow> bool) \<Rightarrow> nat \<Rightarrow> bool" where
  "mark_closed c v = (case c of None \<Rightarrow> v | Some s \<Rightarrow> v(s := False))"

inductive client_step :: "client_state \<Rightarrow> client_state \<Rightarrow> bool" where
  acquire_hit: "acquire_begin (valid_now s) key (pool s) = Some (Some sid, p) \<Longrightarrow>
    client_step s (s\<lparr>pool := p, requesting := (key, sid) # requesting s\<rparr>)"
| acquire_miss: "acquire_begin (valid_now s) key (pool s) = Some (None, p) \<Longrightarrow>
    client_step s (s\<lparr>pool := p, connecting := (key, clears p) # connecting s\<rparr>)"
| connected: "(key, c) \<in> set (connecting s) \<Longrightarrow> sid = next_session s \<Longrightarrow> v = HTTP_11 \<or> v = HTTP_2 \<Longrightarrow>
    acquire_finish ((versions s)(sid := v)) key c (Inr sid) (pool s) = Some (Inr sid, p) \<Longrightarrow>
    client_step s (s\<lparr>pool := p, connecting := remove1 (key, c) (connecting s),
      requesting := (key, sid) # requesting s, valid_now := (valid_now s)(sid := True),
      versions := (versions s)(sid := v), next_session := sid + 1\<rparr>)"
| connect_failed: "(key, c) \<in> set (connecting s) \<Longrightarrow>
    acquire_finish (versions s) key c (Inl e) (pool s) = Some (Inl e, p) \<Longrightarrow>
    client_step s (s\<lparr>pool := p, connecting := remove1 (key, c) (connecting s)\<rparr>)"
| answered: "(key, sid) \<in> set (requesting s) \<Longrightarrow>
    client_step s (s\<lparr>requesting := remove1 (key, sid) (requesting s),
      responses := client_response (versions s) key sid # responses s\<rparr>)"
| request_failed: "(key, sid) \<in> set (requesting s) \<Longrightarrow>
    client_step s (s\<lparr>requesting := remove1 (key, sid) (requesting s)\<rparr>)"
| body_done: "i < length (responses s) \<Longrightarrow>
    body_full_done (valid_now s) (versions s) success (responses s ! i) (pool s) = (r, p, c) \<Longrightarrow>
    client_step s (s\<lparr>responses := (responses s)[i := r], pool := p, valid_now := mark_closed c (valid_now s)\<rparr>)"
| response_dropped: "r \<in> set (responses s) \<Longrightarrow>
    client_step s (s\<lparr>responses := remove1 r (responses s)\<rparr>)"
| connection_lost: "client_step s (s\<lparr>valid_now := (valid_now s)(sid := False)\<rparr>)"
| closing: "map_shrinks (sessions (pool s)) m \<Longrightarrow>
    client_step s (s\<lparr>pool := (pool s)\<lparr>sessions := m\<rparr>\<rparr>)"
| cleared: "client_step s (s\<lparr>pool := (pool s)\<lparr>sessions := [], clears := clears (pool s) + 1\<rparr>\<rparr>)"

inductive client_reachable :: "client_state \<Rightarrow> bool" where
  start: "client_reachable init_client"
| step: "client_reachable s \<Longrightarrow> client_step s t \<Longrightarrow> client_reachable t"

text \<open>The idle HTTP/1 sessions of the pool, and the HTTP/1 sessions that a request or an unread response uses.\<close>

definition idle_sessions :: "SessionPool \<Rightarrow> nat multiset" where
  "idle_sessions p = (\<Sum>x\<leftarrow>sessions p. mset (map the (h1_idle (snd x))))"

definition used_sessions :: "client_state \<Rightarrow> nat multiset" where
  "used_sessions s =
     mset (map snd (filter (\<lambda>x. versions s (snd x) \<noteq> HTTP_2) (requesting s))) +
     mset (map session_owner (filter (\<lambda>r. \<not> body_consumed r \<and> hook_key r \<noteq> None) (responses s)))"

lemma idle_group_at:
  "idle_sessions (group_at k f p) + mset (map the (h1_idle (group_get k p))) =
     idle_sessions p + mset (map the (h1_idle (f (group_get k p))))"
proof -
  have "(\<Sum>x\<leftarrow>smap_at cmp_session_key empty_group k f m. mset (map the (h1_idle (snd x)))) +
      mset (map the (h1_idle (case smap_get cmp_session_key k m of None \<Rightarrow> empty_group | Some g \<Rightarrow> g))) =
    (\<Sum>x\<leftarrow>m. mset (map the (h1_idle (snd x)))) +
      mset (map the (h1_idle (f (case smap_get cmp_session_key k m of None \<Rightarrow> empty_group | Some g \<Rightarrow> g))))" for m
    by (induction m) (auto simp: empty_group_def ac_simps split: ordering.splits)
  then show ?thesis by (simp add: idle_sessions_def group_at_def group_get_def)
qed

lemma idle_keep: "h1_idle (f (group_get k p)) = h1_idle (group_get k p) \<Longrightarrow> idle_sessions (group_at k f p) = idle_sessions p"
  using idle_group_at [of k f p] by simp

lemma idle_shrink:
  assumes "mset (h1_idle (f (group_get k p))) \<subseteq># mset (h1_idle (group_get k p))"
  shows "idle_sessions (group_at k f p) \<subseteq># idle_sessions p"
proof -
  have "mset (map the (h1_idle (f (group_get k p)))) \<subseteq># mset (map the (h1_idle (group_get k p)))"
    using image_mset_subseteq_mono [OF assms, of the] by simp
  then show ?thesis using idle_group_at [of k f p]
    by (metis mset_subset_eq_add_left mset_subset_eq_mono_add_right_cancel subset_mset.add_left_mono)
qed

text \<open>The HTTP/2 sessions of the pool satisfy a predicate.\<close>

definition h2_sat :: "(nat \<Rightarrow> bool) \<Rightarrow> HostGroup \<Rightarrow> bool" where
  "h2_sat Q g \<longleftrightarrow> (\<forall>s. h2_session g = Some s \<longrightarrow> Q s)"

definition h2_all :: "(nat \<Rightarrow> bool) \<Rightarrow> SessionPool \<Rightarrow> bool" where
  "h2_all Q p \<longleftrightarrow> list_all (\<lambda>x. h2_sat Q (snd x)) (sessions p)"

lemma h2_all_get: "h2_all Q p \<Longrightarrow> h2_sat Q (group_get k p)"
  using smap_get_all [of "h2_sat Q" "sessions p" cmp_session_key k]
  by (auto simp: h2_all_def group_get_def empty_group_def h2_sat_def [of Q "\<lparr>h2_session = None, h1_idle = []\<rparr>"] split: option.splits)

lemma h2_all_at: "h2_all Q p \<Longrightarrow> h2_sat Q (f (group_get k p)) \<Longrightarrow> h2_all Q (group_at k f p)"
  by (simp add: h2_all_def group_at_def group_get_def smap_at_all)

lemma h2_all_mono: "h2_all Q p \<Longrightarrow> (\<And>s. Q s \<Longrightarrow> R s) \<Longrightarrow> h2_all R p"
  by (auto simp: h2_all_def list_all_iff h2_sat_def)

lemma prune_idle: "mset (h1_idle (prune_group v g)) \<subseteq># mset (h1_idle g)"
  by (simp add: prune_group_def multiset_filter_subset)

lemma prune_h2: "h2_session (prune_group v g) = Some s \<Longrightarrow> h2_session g = Some s"
  by (auto simp: prune_group_def split: option.splits if_splits)

lemma acquire_begin_idle:
  assumes "pool_ok p" "acquire_begin v key p = Some (r, p')"
  shows "case r of
      None \<Rightarrow> idle_sessions p' \<subseteq># idle_sessions p
    | Some s \<Rightarrow> (h2_session (group_get key p) = Some s \<and> idle_sessions p' \<subseteq># idle_sessions p) \<or>
        add_mset s (idle_sessions p') \<subseteq># idle_sessions p"
proof -
  let ?p = "group_at key (prune_group v) p" and ?g = "prune_group v (group_get key p)"
  have g: "group_get key ?p = ?g" using assms(1) by (simp add: group_get_at key_order.cmp_refl)
  have sub: "idle_sessions ?p \<subseteq># idle_sessions p" by (rule idle_shrink) (rule prune_idle)
  have pop: "pop_valid v (h1_idle ?g) = Some (if h1_idle ?g = [] then None else hd (h1_idle ?g), tl (h1_idle ?g))"
    unfolding prune_group_def by (intro pop_valid_filtered) simp
  show ?thesis
  proof (cases "h2_session ?g")
    case (Some s)
    then have "r = Some s" "p' = ?p" using assms(2) g by (simp_all add: acquire_begin_def Let_def)
    then show ?thesis using sub prune_h2 [OF Some] by simp
  next
    case None
    let ?p' = "group_at key (\<lambda>g. g\<lparr>h1_idle := tl (h1_idle ?g)\<rparr>) ?p"
    have r: "r = (if h1_idle ?g = [] then None else hd (h1_idle ?g))" "p' = ?p'"
      using assms(2) g None pop by (auto simp: acquire_begin_def Let_def)
    show ?thesis
    proof (cases "h1_idle ?g")
      case Nil
      then have "idle_sessions ?p' = idle_sessions ?p" using g by (intro idle_keep) simp
      then show ?thesis using Nil r sub by simp
    next
      case (Cons x q)
      then have "x \<in> set (h1_idle ?g)" by simp
      then obtain s where s: "x = Some s" by (auto simp: prune_group_def)
      have "add_mset s (idle_sessions ?p') = idle_sessions ?p"
        using idle_group_at [of key "\<lambda>g. g\<lparr>h1_idle := tl (h1_idle ?g)\<rparr>" ?p] g Cons s by simp
      then show ?thesis using Cons r s sub by simp
    qed
  qed
qed

lemma prune_h2_sat: "h2_sat Q g \<Longrightarrow> h2_sat Q (prune_group v g)"
  by (auto simp: h2_sat_def dest: prune_h2)

lemma acquire_begin_h2:
  assumes "acquire_begin v key p = Some (r, p')" "h2_all Q p"
  shows "h2_all Q p'"
proof -
  let ?p = "group_at key (prune_group v) p"
  have p: "h2_all Q ?p" by (simp add: h2_all_at prune_h2_sat h2_all_get assms(2))
  have "h2_sat Q ((group_get key ?p)\<lparr>h1_idle := q\<rparr>)" for q
    using h2_all_get [OF p, of key] by (simp add: h2_sat_def)
  then have "h2_all Q (group_at key (\<lambda>g. g\<lparr>h1_idle := q\<rparr>) ?p)" for q
    using p by (simp add: h2_all_at)
  then show ?thesis using assms(1) p by (auto simp: acquire_begin_def Let_def split: option.splits)
qed

lemma acquire_begin_ok: "pool_ok p \<Longrightarrow> acquire_begin v key p = Some (r, p') \<Longrightarrow> pool_ok p'"
  using acquire_begin_run [OF _ refl, of p v key] by auto

lemma release_idle:
  assumes "pool_ok p" "release_h1_session v ver key (Some s) p = (p', c)"
  shows "idle_sessions p' \<subseteq># add_mset s (idle_sessions p) \<and> (s \<in># idle_sessions p' - idle_sessions p \<longrightarrow> is_h1 (ver s))"
proof -
  let ?p = "group_at key id p"
  have p: "pool_ok ?p" using assms(1) by (simp add: pool_ok_at pool_ok_get)
  have e: "idle_sessions ?p = idle_sessions p" by (rule idle_keep) simp
  have "idle_sessions (group_at key (\<lambda>g. g\<lparr>h1_idle := h1_idle g @ [Some s]\<rparr>) ?p) = add_mset s (idle_sessions p)"
    using idle_group_at [of key "\<lambda>g. g\<lparr>h1_idle := h1_idle g @ [Some s]\<rparr>" ?p] e by simp
  then show ?thesis using assms(2) e by (auto simp: release_h1_session_def Let_def split: if_splits)
qed

lemma release_ok: "pool_ok p \<Longrightarrow> release_h1_session v ver key s p = (p', c) \<Longrightarrow> pool_ok p'"
  using release_run by blast

lemma release_h2:
  assumes "release_h1_session v ver key s p = (p', c)" "h2_all Q p"
  shows "h2_all Q p'"
proof -
  have p: "h2_all Q (group_at key id p)" using assms(2) by (simp add: h2_all_at h2_all_get)
  have "h2_sat Q ((group_get key (group_at key id p))\<lparr>h1_idle := q\<rparr>)" for q
    using h2_all_get [OF p, of key] by (simp add: h2_sat_def)
  then have "h2_all Q (group_at key (\<lambda>g. g\<lparr>h1_idle := h1_idle g @ [Some x]\<rparr>) (group_at key id p))" for x
    using p by (simp add: h2_all_at)
  then show ?thesis using assms p by (auto simp: release_h1_session_def Let_def split: option.splits if_splits)
qed

lemma mset_drop_subset: "mset (drop n xs) \<subseteq># mset xs"
  by (metis append_take_drop_id mset_append mset_subset_eq_add_right)

lemma image_drop_subset: "image_mset f (mset (drop n xs)) \<subseteq># image_mset f (mset xs)"
  by (rule image_mset_subseteq_mono [OF mset_drop_subset])

lemma shrink_idle: "map_shrinks m m' \<Longrightarrow> sessions p = m \<Longrightarrow> idle_sessions (p\<lparr>sessions := m'\<rparr>) \<subseteq># idle_sessions p"
  unfolding map_shrinks_def idle_sessions_def
proof (induction arbitrary: p rule: list_all2_induct)
  case (Cons x xs y ys)
  have "mset (map the (h1_idle (snd y))) \<subseteq># mset (map the (h1_idle (snd x)))"
    using Cons(1) by (auto simp: group_shrinks_def intro: image_drop_subset)
  moreover have "(\<Sum>x\<leftarrow>ys. mset (map the (h1_idle (snd x)))) \<subseteq># (\<Sum>x\<leftarrow>xs. mset (map the (h1_idle (snd x))))"
    using Cons(3) [of "p\<lparr>sessions := xs\<rparr>"] by simp
  ultimately show ?case using Cons(4) by (simp add: subset_mset.add_mono)
qed simp

lemma shrink_groups:
  assumes "map_shrinks m m'"
  shows "smap_ok cmp m \<Longrightarrow> smap_ok cmp m'"
    and "list_all (\<lambda>x. group_ok (snd x)) m \<Longrightarrow> list_all (\<lambda>x. group_ok (snd x)) m'"
    and "list_all (\<lambda>x. h2_sat Q (snd x)) m \<Longrightarrow> list_all (\<lambda>x. h2_sat Q (snd x)) m'"
proof -
  have len: "length m' = length m" using assms by (simp add: map_shrinks_def list_all2_lengthD)
  have nth: "i < length m \<Longrightarrow> fst (m' ! i) = fst (m ! i) \<and> group_shrinks (snd (m ! i)) (snd (m' ! i))" for i
    using assms by (simp add: map_shrinks_def list_all2_conv_all_nth)
  show "smap_ok cmp m \<Longrightarrow> smap_ok cmp m'" using len nth by (auto simp: smap_ok_def sorted_wrt_iff_nth_less)
  have "group_shrinks g g' \<Longrightarrow> group_ok g \<Longrightarrow> group_ok g'" for g g'
    by (auto simp: group_shrinks_def group_ok_def dest: in_set_dropD)
  then show "list_all (\<lambda>x. group_ok (snd x)) m \<Longrightarrow> list_all (\<lambda>x. group_ok (snd x)) m'"
    using len nth by (auto simp: list_all_length)
  have "group_shrinks g g' \<Longrightarrow> h2_sat Q g \<Longrightarrow> h2_sat Q g'" for g g'
    by (auto simp: group_shrinks_def h2_sat_def)
  then show "list_all (\<lambda>x. h2_sat Q (snd x)) m \<Longrightarrow> list_all (\<lambda>x. h2_sat Q (snd x)) m'"
    using len nth by (auto simp: list_all_length)
qed

text \<open>
  The invariant: an HTTP/1 session stands at most once among the idle sessions and the ones in use; it was
  created before; the HTTP/2 sessions are kept apart from them.
\<close>

definition single_use :: "nat \<Rightarrow> (nat \<Rightarrow> Version) \<Rightarrow> nat multiset \<Rightarrow> bool" where
  "single_use n ver M \<longleftrightarrow> (\<forall>x. count M x \<le> 1) \<and> (\<forall>x\<in>#M. x < n \<and> ver x \<noteq> HTTP_2)"

lemma single_use_mono: "single_use n ver M \<Longrightarrow> N \<subseteq># M \<Longrightarrow> single_use n ver N"
  unfolding single_use_def by (meson le_trans mset_subset_eqD mset_subset_eq_count)

definition client_inv :: "client_state \<Rightarrow> bool" where
  "client_inv s \<longleftrightarrow>
     pool_ok (pool s) \<and> single_use (next_session s) (versions s) (idle_sessions (pool s) + used_sessions s) \<and>
     h2_all (\<lambda>x. x < next_session s \<and> versions s x = HTTP_2) (pool s) \<and>
     (\<forall>x\<in>set (requesting s). snd x < next_session s) \<and>
     (\<forall>r\<in>set (responses s). session_owner r < next_session s)"

lemma client_inv_init: "client_inv init_client"
  by (simp add: client_inv_def init_client_def pool_ok_def smap_ok_def single_use_def idle_sessions_def
      used_sessions_def h2_all_def)

lemmas used_simps = used_sessions_def mset_map [symmetric] mset_filter [symmetric]

lemma inv_acquire_hit:
  assumes "client_inv s" "acquire_begin (valid_now s) key (pool s) = Some (Some sid, p)"
  shows "client_inv (s\<lparr>pool := p, requesting := (key, sid) # requesting s\<rparr>)"
proof -
  have ok: "pool_ok (pool s)" and h2: "h2_all (\<lambda>x. x < next_session s \<and> versions s x = HTTP_2) (pool s)"
    and su: "single_use (next_session s) (versions s) (idle_sessions (pool s) + used_sessions s)"
    using assms(1) by (auto simp: client_inv_def)
  let ?s = "s\<lparr>pool := p, requesting := (key, sid) # requesting s\<rparr>"
  from acquire_begin_idle [OF ok assms(2)] consider
      (a) "h2_session (group_get key (pool s)) = Some sid" "idle_sessions p \<subseteq># idle_sessions (pool s)"
    | (b) "add_mset sid (idle_sessions p) \<subseteq># idle_sessions (pool s)" by auto
  then have "sid < next_session s \<and> idle_sessions p + used_sessions ?s \<subseteq># idle_sessions (pool s) + used_sessions s"
  proof cases
    case a
    then have "sid < next_session s" "versions s sid = HTTP_2" using h2_all_get [OF h2, of key] by (auto simp: h2_sat_def)
    then show ?thesis using a by (simp add: used_sessions_def)
  next
    case b
    then have "sid \<in># idle_sessions (pool s)" by (meson mset_subset_eqD union_single_eq_member)
    then have "sid < next_session s" "versions s sid \<noteq> HTTP_2" using su by (auto simp: single_use_def)
    then show ?thesis using b by (simp add: used_sessions_def)
  qed
  then show ?thesis
    using assms(1) single_use_mono [OF su] acquire_begin_ok [OF ok assms(2)] acquire_begin_h2 [OF assms(2) h2]
    by (simp add: client_inv_def)
qed

lemma used_other_fields [simp]:
  "used_sessions (s\<lparr>pool := p\<rparr>) = used_sessions s"
  "used_sessions (s\<lparr>connecting := c\<rparr>) = used_sessions s"
  "used_sessions (s\<lparr>valid_now := v\<rparr>) = used_sessions s"
  by (simp_all add: used_sessions_def)

lemma inv_shrink:
  assumes "client_inv s" "next_session t = next_session s" "versions t = versions s"
    "pool_ok (pool t)" "h2_all (\<lambda>x. x < next_session s \<and> versions s x = HTTP_2) (pool t)"
    "idle_sessions (pool t) + used_sessions t \<subseteq># idle_sessions (pool s) + used_sessions s"
    "\<forall>x\<in>set (requesting t). snd x < next_session s" "\<forall>r\<in>set (responses t). session_owner r < next_session s"
  shows "client_inv t"
  using assms single_use_mono by (simp add: client_inv_def) blast

lemma used_remove:
  assumes "(key, sid) \<in> set (requesting s)"
  shows "used_sessions (s\<lparr>requesting := remove1 (key, sid) (requesting s)\<rparr>) \<subseteq># used_sessions s"
    and "used_sessions (s\<lparr>requesting := remove1 (key, sid) (requesting s),
      responses := client_response (versions s) key sid # responses s\<rparr>) \<subseteq># used_sessions s"
proof -
  have "(key, sid) \<in># mset (requesting s)" using assms by simp
  then obtain B where "mset (requesting s) = add_mset (key, sid) B" by (rule mset_add)
  then show "used_sessions (s\<lparr>requesting := remove1 (key, sid) (requesting s)\<rparr>) \<subseteq># used_sessions s"
    "used_sessions (s\<lparr>requesting := remove1 (key, sid) (requesting s),
      responses := client_response (versions s) key sid # responses s\<rparr>) \<subseteq># used_sessions s"
    by (auto simp: used_sessions_def client_response_def)
qed

lemma used_drop_response:
  assumes "r \<in> set (responses s)"
  shows "used_sessions (s\<lparr>responses := remove1 r (responses s)\<rparr>) \<subseteq># used_sessions s"
proof -
  have "r \<in># mset (responses s)" using assms by simp
  then obtain B where "mset (responses s) = add_mset r B" by (rule mset_add)
  then show ?thesis by (simp add: used_sessions_def)
qed

lemma body_done_idle:
  assumes "pool_ok (pool s)" "i < length (responses s)"
    "body_full_done v ver ok (responses s ! i) (pool s) = (r, p, c)"
  shows "pool_ok p \<and> session_owner r = session_owner (responses s ! i) \<and> (h2_all Q (pool s) \<longrightarrow> h2_all Q p) \<and>
    idle_sessions p + used_sessions (s\<lparr>responses := (responses s)[i := r]\<rparr>) \<subseteq>#
      idle_sessions (pool s) + used_sessions s"
proof -
  let ?r = "responses s ! i"
  have "?r \<in># mset (responses s)" using assms(2) by simp
  then obtain B where B: "mset (responses s) = add_mset ?r B" by (rule mset_add)
  then have upd: "mset ((responses s)[i := r]) = add_mset r B" using assms(2) by (simp add: mset_update)
  show ?thesis
  proof (cases "body_consumed ?r \<or> hook_key ?r = None")
    case True
    then have "p = pool s" "hook_key r = hook_key ?r" "session_owner r = session_owner ?r"
        "body_consumed r = (body_consumed ?r \<or> hook_key ?r = None)"
      using assms(3) by (auto simp: body_full_done_def Let_def split: if_splits)
    then show ?thesis using True B upd assms(1) by (auto simp: used_sessions_def)
  next
    case False
    then obtain key where key: "hook_key ?r = Some key" by auto
    then have r: "r = ?r\<lparr>body_consumed := True\<rparr>"
      using False assms(3) by (auto simp: body_full_done_def Let_def split: if_splits prod.splits)
    have used: "used_sessions s = add_mset (session_owner ?r) (used_sessions (s\<lparr>responses := (responses s)[i := r]\<rparr>))"
      using False key r B upd by (simp add: used_sessions_def)
    show ?thesis
    proof (cases ok)
      case True
      then have rel: "release_h1_session v ver key (Some (session_owner ?r)) (pool s) = (p, c)"
        using False key assms(3) by (auto simp: body_full_done_def Let_def split: prod.splits)
      then show ?thesis using r used release_idle [OF assms(1) rel] release_ok [OF assms(1) rel] release_h2 [OF rel]
        by (auto simp: subset_mset.add_mono)
    next
      case False
      then have "p = pool s" using key \<open>\<not> (body_consumed ?r \<or> hook_key ?r = None)\<close> assms(3)
        by (auto simp: body_full_done_def Let_def)
      then show ?thesis using r used assms(1) by simp
    qed
  qed
qed

lemma inv_connected:
  assumes "client_inv s" "sid = next_session s"
    "acquire_finish ((versions s)(sid := v)) key c (Inr sid) (pool s) = Some (Inr sid, p)"
  shows "client_inv (s\<lparr>pool := p, connecting := cs, requesting := (key, sid) # requesting s,
    valid_now := va, versions := (versions s)(sid := v), next_session := sid + 1\<rparr>)"
proof -
  let ?ver = "(versions s)(sid := v)"
  have inv: "pool_ok (pool s)" "single_use sid (versions s) (idle_sessions (pool s) + used_sessions s)"
    "h2_all (\<lambda>x. x < sid \<and> versions s x = HTTP_2) (pool s)" "\<forall>x\<in>set (requesting s). snd x < sid"
    "\<forall>r\<in>set (responses s). session_owner r < sid"
    using assms(1,2) by (auto simp: client_inv_def)
  have old: "filter (\<lambda>x. ?ver (snd x) \<noteq> HTTP_2) (requesting s) = filter (\<lambda>x. versions s (snd x) \<noteq> HTTP_2) (requesting s)"
    using inv(4) by (intro filter_cong) auto
  have h2: "h2_all (\<lambda>x. x < sid + 1 \<and> ?ver x = HTTP_2) (pool s)"
    using inv(3) by (rule h2_all_mono) auto
  have used: "used_sessions (s\<lparr>pool := p, connecting := cs, requesting := (key, sid) # requesting s,
      valid_now := va, versions := ?ver, next_session := sid + 1\<rparr>) =
    (if v = HTTP_2 then used_sessions s else add_mset sid (used_sessions s))"
    using old by (simp add: used_sessions_def)
  have p: "pool_ok p" "idle_sessions p = idle_sessions (pool s)" "h2_all (\<lambda>x. x < sid + 1 \<and> ?ver x = HTTP_2) p"
  proof (atomize (full), cases "v = HTTP_2")
    case True
    let ?f = "\<lambda>g. g\<lparr>h2_session := Some sid\<rparr>"
    have "p = group_at key ?f (pool s)" using assms(3) True by (auto simp: acquire_finish_def split: if_splits)
    moreover have "pool_ok (group_at key ?f (pool s))"
      using inv(1) pool_ok_get [OF inv(1), of key] by (intro pool_ok_at) (auto simp: group_ok_def)
    moreover have "idle_sessions (group_at key ?f (pool s)) = idle_sessions (pool s)" by (rule idle_keep) simp
    moreover have "h2_all (\<lambda>x. x < sid + 1 \<and> ?ver x = HTTP_2) (group_at key ?f (pool s))"
      using h2 True by (intro h2_all_at) (auto simp: h2_sat_def)
    ultimately show "pool_ok p \<and> idle_sessions p = idle_sessions (pool s) \<and> h2_all (\<lambda>x. x < sid + 1 \<and> ?ver x = HTTP_2) p"
      by simp
  next
    case False
    then show "pool_ok p \<and> idle_sessions p = idle_sessions (pool s) \<and> h2_all (\<lambda>x. x < sid + 1 \<and> ?ver x = HTTP_2) p"
      using assms(3) inv(1) h2 by (auto simp: acquire_finish_def split: if_splits)
  qed
  have "single_use (sid + 1) ?ver (idle_sessions p + (if v = HTTP_2 then used_sessions s else add_mset sid (used_sessions s)))"
    using inv(2) p(2) unfolding single_use_def by (auto simp: not_in_iff [symmetric] less_Suc_eq)
  then show ?thesis using p inv(4,5) used by (auto simp: client_inv_def less_Suc_eq)
qed

lemma client_inv_step:
  assumes "client_step s t" "client_inv s"
  shows "client_inv t"
proof -
  have inv: "pool_ok (pool s)" "h2_all (\<lambda>x. x < next_session s \<and> versions s x = HTTP_2) (pool s)"
    "\<forall>x\<in>set (requesting s). snd x < next_session s" "\<forall>r\<in>set (responses s). session_owner r < next_session s"
    using assms(2) by (auto simp: client_inv_def)
  from assms(1) show ?thesis
  proof cases
    case (acquire_hit key sid p)
    then show ?thesis using inv_acquire_hit [OF assms(2)] by simp
  next
    case (acquire_miss key p)
    from acquire_begin_idle [OF inv(1) acquire_miss(2)] acquire_begin_ok [OF inv(1) acquire_miss(2)]
      acquire_begin_h2 [OF acquire_miss(2) inv(2)] inv(3,4)
    show ?thesis unfolding acquire_miss(1) by (intro inv_shrink [OF assms(2)]) simp_all
  next
    case (connected key c sid v p)
    then show ?thesis using inv_connected [OF assms(2)] by simp
  next
    case (connect_failed key c e p)
    with inv show ?thesis by (intro inv_shrink [OF assms(2)]) (simp_all add: acquire_finish_def)
  next
    case (answered key sid)
    then have "sid < next_session s" using inv(3) by auto
    then show ?thesis using inv used_remove(2) [OF answered(2)] unfolding answered(1)
      by (intro inv_shrink [OF assms(2)]) (auto simp: client_response_def dest: set_remove1_subset [THEN subsetD])
  next
    case (request_failed key sid)
    then show ?thesis using inv used_remove(1) [OF request_failed(2)] unfolding request_failed(1)
      by (intro inv_shrink [OF assms(2)]) (auto dest: set_remove1_subset [THEN subsetD])
  next
    case (body_done i success r p c)
    note d = body_done_idle [OF inv(1) body_done(2,3)]
    have "session_owner x < next_session s" if "x \<in> set ((responses s)[i := r])" for x
      using that inv(4) d body_done(2) set_update_subset_insert [of "responses s" i r] by auto
    with d inv show ?thesis unfolding body_done(1)
      by (intro inv_shrink [OF assms(2)]) (simp_all add: used_sessions_def)
  next
    case (response_dropped r)
    then show ?thesis using inv used_drop_response [OF response_dropped(2)] unfolding response_dropped(1)
      by (intro inv_shrink [OF assms(2)]) (auto dest: set_remove1_subset [THEN subsetD])
  next
    case (connection_lost sid)
    with inv show ?thesis by (intro inv_shrink [OF assms(2)]) simp_all
  next
    case (closing m)
    with inv shrink_idle [OF closing(2) refl] shrink_groups [OF closing(2)] show ?thesis
      by (intro inv_shrink [OF assms(2)]) (simp_all add: pool_ok_def h2_all_def)
  next
    case cleared
    with inv show ?thesis
      by (intro inv_shrink [OF assms(2)]) (simp_all add: pool_ok_def h2_all_def smap_ok_def idle_sessions_def)
  qed
qed

lemma client_reachable_inv: "client_reachable s \<Longrightarrow> client_inv s"
  by (induction rule: client_reachable.induct) (auto intro: client_inv_init client_inv_step)

text \<open>C4: However the requests, connections, responses and the closing of a client interleave, no HTTP/1 session
  is used twice: it stands at most once among the idle sessions of the pool, the requests under way and
  the responses whose body is still unread. The pool stays well-formed.\<close>

theorem h1_session_exclusive:
  assumes "client_reachable s"
  shows "count (idle_sessions (pool s) + used_sessions s) x \<le> 1 \<and> pool_ok (pool s)"
  using client_reachable_inv [OF assms] by (simp add: client_inv_def single_use_def)

definition one_connecting :: client_state where
  "one_connecting =
     init_client\<lparr>pool := group_at (sample_key ''a'') (prune_group (\<lambda>_. False)) (pool init_client),
       connecting := [(sample_key ''a'', 0)]\<rparr>"

lemma one_connecting_reachable: "client_reachable one_connecting"
proof -
  let ?key = "sample_key ''a''"
  let ?p = "group_at ?key (prune_group (\<lambda>_. False)) (pool init_client)"
  have "acquire_begin (valid_now init_client) ?key (pool init_client) = Some (None, ?p)"
    by (simp add: acquire_begin_def init_client_def group_at_def group_get_def prune_group_def empty_group_def
        key_order.cmp_refl Let_def)
  from acquire_miss [OF this] have "client_step init_client (init_client\<lparr>pool := ?p, connecting := [(?key, clears ?p)]\<rparr>)"
    by (simp add: init_client_def)
  from client_reachable.step [OF client_reachable.start this] show ?thesis
    by (simp add: one_connecting_def init_client_def group_at_def)
qed

theorem h1_session_exclusive_witness:
  "client_reachable one_connecting \<and> count (idle_sessions (pool one_connecting) + used_sessions one_connecting) 0 \<le> 1"
  using h1_session_exclusive [OF one_connecting_reachable, of 0] one_connecting_reachable by simp

text \<open>The reference into the map that \<open>acquire_session\<close> holds while it connects does not survive
  \<open>close_async\<close>: there is a run in which a client that is connecting is closed and the connection then turns
  out to be HTTP/2, and the write of the session goes through a dangling reference.\<close>

theorem acquire_dangling_reference:
  "\<exists>s key c sid. client_reachable s \<and> (key, c) \<in> set (connecting s) \<and> sid = next_session s \<and>
     acquire_finish ((versions s)(sid := HTTP_2)) key c (Inr sid) (pool s) = None"
proof -
  let ?s = "one_connecting\<lparr>pool := (pool one_connecting)\<lparr>sessions := [], clears := clears (pool one_connecting) + 1\<rparr>\<rparr>"
  have "client_reachable ?s" by (rule client_reachable.step [OF one_connecting_reachable client_step.cleared])
  moreover have "(sample_key ''a'', 0) \<in> set (connecting ?s)" by (simp add: one_connecting_def)
  moreover have "acquire_finish ((versions ?s)(next_session ?s := HTTP_2)) (sample_key ''a'') 0 (Inr (next_session ?s)) (pool ?s) = None"
    by (simp add: acquire_finish_def)
  ultimately show ?thesis by blast
qed

section \<open>Closing the pool\<close>

definition group_holds :: "nat \<Rightarrow> HostGroup \<Rightarrow> bool" where
  "group_holds s g \<longleftrightarrow> h2_session g = Some s \<or> Some s \<in> set (h1_idle g)"

lemma close_idle_spec:
  "case close_idle cr q of
     (Inr _, q') \<Rightarrow> q' = [] \<and> (\<forall>s. Some s \<in> set q \<longrightarrow> cr s = Inr ())
   | (Inl e, q') \<Rightarrow> (\<exists>n. q' = drop n q) \<and> (\<exists>s. Some s \<in> set q \<and> cr s = Inl e)"
proof (induction cr q rule: close_idle.induct)
  case (2 cr q)
  then show ?case by (auto split: prod.splits sum.splits intro: exI [of _ "Suc _"])
next
  case (3 cr s q)
  show ?case
  proof (cases "cr s")
    case (Inl e)
    then show ?thesis by (auto intro: exI [of _ 1])
  next
    case (Inr u)
    then show ?thesis using 3 [OF Inr] by (auto split: prod.splits sum.splits) (metis drop_Suc_Cons)+
  qed
qed simp

lemma close_group_spec:
  "case close_group cr g of
     (Inr _, g') \<Rightarrow> g' = empty_group \<and> (\<forall>s. group_holds s g \<longrightarrow> cr s = Inr ())
   | (Inl e, g') \<Rightarrow> group_shrinks g g' \<and> (\<exists>s. group_holds s g \<and> cr s = Inl e)"
proof (cases "case h2_session g of None \<Rightarrow> Inr () | Some s \<Rightarrow> cr s")
  case (Inl e)
  then show ?thesis
    by (auto simp: close_group_def group_shrinks_def group_holds_def intro: exI [of _ 0] split: option.splits)
next
  case (Inr u)
  then have h2: "\<forall>s. h2_session g = Some s \<longrightarrow> cr s = Inr ()" by (auto split: option.splits)
  show ?thesis using close_idle_spec [of "h1_idle g" cr] Inr h2
    by (cases g) (auto simp: close_group_def group_shrinks_def group_holds_def empty_group_def split: prod.splits sum.splits)
qed

lemma group_shrinks_refl: "group_shrinks g g"
  by (auto simp: group_shrinks_def intro: exI [of _ 0])

lemma group_shrinks_empty: "group_shrinks g empty_group"
  by (auto simp: group_shrinks_def empty_group_def intro: exI [of _ "length (h1_idle g)"])

lemma map_shrinks_refl: "map_shrinks m m"
  by (simp add: map_shrinks_def list_all2_same group_shrinks_refl)

lemma close_groups_spec:
  "case close_groups cr m of
     (Inr _, m') \<Rightarrow> map_shrinks m m' \<and> (\<forall>x\<in>set m. \<forall>s. group_holds s (snd x) \<longrightarrow> cr s = Inr ())
   | (Inl e, m') \<Rightarrow> map_shrinks m m' \<and> (\<exists>x\<in>set m. \<exists>s. group_holds s (snd x) \<and> cr s = Inl e)"
proof (induction cr m rule: close_groups.induct)
  case (1 cr)
  then show ?case by (simp add: map_shrinks_def)
next
  case (2 cr k g m)
  obtain r g' where g: "close_group cr g = (r, g')" by fastforce
  note G = close_group_spec [where cr = cr and g = g, unfolded g]
  show ?case
  proof (cases r)
    case (Inl e)
    then have "map_shrinks ((k, g) # m) ((k, g') # m)"
      using G map_shrinks_refl [of m] by (simp add: map_shrinks_def)
    then show ?thesis using G g Inl by auto
  next
    case (Inr u)
    obtain r' m' where m: "close_groups cr m = (r', m')" by fastforce
    note M = 2 [OF g [symmetric] Inr, unfolded m]
    have "map_shrinks ((k, g) # m) ((k, g') # m')"
      using M G Inr group_shrinks_empty by (auto simp: map_shrinks_def split: sum.splits)
    then show ?thesis using M G g m Inr by (auto split: sum.splits)
  qed
qed

text \<open>\<open>close_async\<close> of the pool succeeds exactly if every session it holds closes, and then the pool is empty. If it
  fails, the error is the one that a held session returned, and sessions were only taken out of the pool, so
  that a second call can go on.\<close>

theorem close_async_spec:
  "case pool_close_async cr p of
     (Inr _, p') \<Rightarrow> sessions p' = [] \<and> (\<forall>x\<in>set (sessions p). \<forall>s. group_holds s (snd x) \<longrightarrow> cr s = Inr ())
   | (Inl e, p') \<Rightarrow> map_shrinks (sessions p) (sessions p') \<and>
       (\<exists>x\<in>set (sessions p). \<exists>s. group_holds s (snd x) \<and> cr s = Inl e)"
  using close_groups_spec [where cr = cr and m = "sessions p"]
  by (auto simp: pool_close_async_def split: prod.splits sum.splits)

section \<open>Making a connection\<close>

text \<open>
  What \<open>make_proxy_stream\<close> and \<open>session_connect\<close> ask of the network: name resolution, TCP connections, the
  answer of a peer to a request on a fresh HTTP/1 session, and TLS. A stream is a number. \<open>net_request\<close> gets the
  bytes that go out.
\<close>

record network =
  resolve_first :: "string \<Rightarrow> int \<Rightarrow> nat result"
  tcp_connect :: "nat \<Rightarrow> u32 \<Rightarrow> nat result"
  net_request :: "nat \<Rightarrow> u8 list \<Rightarrow> HttpStatus result"
  tls_client :: "nat result"
  tls_connect :: "nat \<Rightarrow> nat \<Rightarrow> string \<Rightarrow> (nat \<times> bool) result"

text \<open>The request that opens the tunnel; \<open>None\<close> if the encoding of the credentials is undefined.\<close>

definition connect_request :: "Url \<Rightarrow> ProxyConfig \<Rightarrow> HttpRequest option" where
  "connect_request target proxy_config =
     (let req = default_request\<lparr>req_method := ''CONNECT''\<rparr>
      in case (case proxy_auth proxy_config of
                 None \<Rightarrow> Some []
               | Some a \<Rightarrow> map_option (\<lambda>h. [h]) (basic_header a)) of
           None \<Rightarrow> None
         | Some hs \<Rightarrow> Some (req\<lparr>req_headers := hs @ proxy_headers proxy_config, req_url := target\<rparr>))"

definition make_proxy_stream :: "endian \<Rightarrow> network \<Rightarrow> Url \<Rightarrow> ProxyConfig \<Rightarrow> nat result option" where
  "make_proxy_stream native net target proxy_config =
     (case resolve_first net (proxy_host proxy_config) (proxy_port proxy_config) of
        Inl e \<Rightarrow> Some (Inl e)
      | Inr addr \<Rightarrow>
          (case tcp_connect net addr 0 of
             Inl e \<Rightarrow> Some (Inl e)
           | Inr tcp_stream \<Rightarrow>
               (case connect_request target proxy_config of
                  None \<Rightarrow> None
                | Some req \<Rightarrow>
                    (case net_request net tcp_stream (serialize_to_h1 native (request_move req)) of
                       Inl e \<Rightarrow> Some (Inl e)
                     | Inr status \<Rightarrow>
                         if status_code status = 200 then Some (Inr tcp_stream)
                         else Some (Inl (Error not_connected
                                (''Proxy connect: '' @ to_string_int (status_code status))))))))"

definition connect_stream :: "endian \<Rightarrow> network \<Rightarrow> SessionKey \<Rightarrow> u32 \<Rightarrow> nat result option" where
  "connect_stream native net key timeout_ms =
     (case key_proxy key of
        Some proxy \<Rightarrow>
          (case parse (''http://'' @ key_host key @ '':'' @ to_string_int (key_port key)) of
             Inl e \<Rightarrow> Some (Inl e)
           | Inr target_url \<Rightarrow> make_proxy_stream native net target_url proxy)
      | None \<Rightarrow>
          Some (case resolve_first net (key_host key) (key_port key) of
                  Inl e \<Rightarrow> Inl e
                | Inr addr \<Rightarrow> tcp_connect net addr timeout_ms))"

text \<open>The result of \<open>session_connect\<close>: the version of the session that was created, and its stream.\<close>

definition session_connect ::
    "endian \<Rightarrow> network \<Rightarrow> SessionKey \<Rightarrow> u32 \<Rightarrow> nat option \<Rightarrow> (Version \<times> nat) result option" where
  "session_connect native net key timeout_ms tls_ctx =
     (case connect_stream native net key timeout_ms of
        None \<Rightarrow> None
      | Some (Inl e) \<Rightarrow> Some (Inl e)
      | Some (Inr tcp_stream) \<Rightarrow>
          Some
            (if key_is_ssl key then
               (case (case tls_ctx of Some c \<Rightarrow> Inr c | None \<Rightarrow> tls_client net) of
                  Inl e \<Rightarrow> Inl e
                | Inr ctx \<Rightarrow>
                    (case tls_connect net tcp_stream ctx (key_host key) of
                       Inl e \<Rightarrow> Inl e
                     | Inr (stream, is_h2) \<Rightarrow> Inr (if is_h2 then HTTP_2 else HTTP_11, stream)))
             else Inr (HTTP_11, tcp_stream)))"

lemma host_target_parses:
  assumes "free_of ''@/?#[]:'' h" "to_lower_ascii_str h = h" "- (2 ^ 31) \<le> p" "p < 2 ^ 31" "p \<noteq> -1"
  shows "parse (''http://'' @ h @ '':'' @ to_string_int p) =
    Inr (default_url\<lparr>scheme_of := ''http'', host_of := h, port_of := p, path_of := []\<rparr>)"
proof -
  have h: "free_of ''@/?#[]'' h" "CHR '':'' \<notin> set h" using assms(1) by (auto simp: free_of_iff)
  then have hp: "host_port h p = h @ '':'' @ to_string_int p"
    using assms(5) by (simp add: host_port_def print_host_def)
  have "free_of ''/?#'' (h @ '':'' @ to_string_int p)"
    using h(1) to_string_int_free [of p] by (auto simp: free_of_iff)
  then have "parse (''http'' @ ''://'' @ (h @ '':'' @ to_string_int p) @ []) =
    (case parse_authority (h @ '':'' @ to_string_int p) (default_url\<lparr>scheme_of := ''http''\<rparr>) of
       (Inl e, _) \<Rightarrow> Inl e | (Inr _, u) \<Rightarrow> Inr (parse_rest [] u))"
    by (intro parse_absolute)
      (simp_all only: is_delim_free, simp_all add: isalpha_def to_lower_ascii_str_def to_lower_ascii_def)
  moreover have "parse_authority (h @ '':'' @ to_string_int p) (default_url\<lparr>scheme_of := ''http''\<rparr>) =
      (Inr (), default_url\<lparr>scheme_of := ''http'', port_of := p, host_of := h\<rparr>)"
    using parse_host_port [OF h(1) assms(2-4)] hp by simp
  ultimately show ?thesis by (simp add: parse_rest_Nil default_url_def)
qed

lemma base64_chars_crlf: "i < 64 \<Longrightarrow> free_of crlf [base64_chars ! i]"
proof -
  assume i: "i < 64"
  have "list_all (\<lambda>c. c \<notin> set crlf) base64_chars" by (simp add: base64_chars_def crlf_def)
  moreover have "length base64_chars = 64" by (simp add: base64_chars_def)
  ultimately show ?thesis using i by (auto simp: list_all_length)
qed

lemma rfc4648_group_less:
  assumes "a < 256" "b < 256" "c < 256"
  shows "list_all (\<lambda>i. i < 64) (rfc4648_group a b c)"
proof -
  have "a * 65536 + b * 256 + c < 16777216" using assms by linarith
  then show ?thesis by (simp add: rfc4648_group_def Let_def less_mult_imp_div_less)
qed

lemma map_base64_crlf: "list_all (\<lambda>i. i < 64) is \<Longrightarrow> free_of crlf (map ((!) base64_chars) is)"
  using base64_chars_crlf by (induction "is") auto

lemma rfc4648_crlf: "free_of crlf (rfc4648 bs)"
proof (induction bs rule: rfc4648.induct)
  case (2 a)
  have "list_all (\<lambda>i. i < 64) (take 2 (rfc4648_group (unat a) 0 0))"
    using rfc4648_group_less [of "unat a" 0 0] by (auto simp: list_all_iff dest: in_set_takeD)
  then show ?case using map_base64_crlf by (simp add: crlf_def)
next
  case (3 a b)
  have "list_all (\<lambda>i. i < 64) (take 3 (rfc4648_group (unat a) (unat b) 0))"
    using rfc4648_group_less [of "unat a" "unat b" 0] by (auto simp: list_all_iff dest: in_set_takeD)
  then show ?case using map_base64_crlf by (simp add: crlf_def)
next
  case (4 a b c r)
  then show ?case using map_base64_crlf [OF rfc4648_group_less [of "unat a" "unat b" "unat c"]] by simp
qed simp

text \<open>The headers of the tunnel request before the serialiser adds its own.\<close>

definition tunnel_headers :: "ProxyConfig \<Rightarrow> HttpHeaderList" where
  "tunnel_headers proxy =
     (case proxy_auth proxy of
        None \<Rightarrow> []
      | Some a \<Rightarrow>
          [\<lparr>hname = ''Authorization'',
            hvalue = ''Basic '' @ rfc4648 (map byte_of_char (username a @ '':'' @ password a))\<rparr>]) @
     proxy_headers proxy"

definition proxy_ok :: "ProxyConfig \<Rightarrow> bool" where
  "proxy_ok proxy \<longleftrightarrow>
     list_all header_ok (proxy_headers proxy) \<and>
     (case proxy_auth proxy of None \<Rightarrow> True | Some a \<Rightarrow> length (username a) + length (password a) + 1 < 2 ^ 31)"

lemma connect_request_eq:
  "proxy_ok proxy \<Longrightarrow> connect_request url proxy =
     Some (default_request\<lparr>req_method := ''CONNECT'', req_headers := tunnel_headers proxy, req_url := url\<rparr>)"
  by (auto simp: connect_request_def tunnel_headers_def proxy_ok_def basic_header_def basic_auth_value_def
      base64_encode_str_rfc split: option.splits)

lemma tunnel_headers_ok: "proxy_ok proxy \<Longrightarrow> list_all header_ok (tunnel_headers proxy)"
proof -
  have "free_of (CHR '':'' # crlf) ''Authorization''" "free_of crlf ''Basic ''" by (simp_all add: crlf_def)
  then have "header_ok \<lparr>hname = ''Authorization'', hvalue = ''Basic '' @ rfc4648 bs\<rparr>" for bs
    unfolding header_ok_def using rfc4648_crlf [of bs] by simp
  moreover assume "proxy_ok proxy"
  ultimately show ?thesis by (simp add: tunnel_headers_def proxy_ok_def split: option.split)
qed

text \<open>The tunnel through a proxy is asked for with the right bytes: for a host without special characters the
  request that reaches the proxy is a \<open>CONNECT\<close> for host and port of the session key, with the encoded
  credentials first, the configured headers, and no body; the connection is used exactly if the proxy
  answers 200.\<close>

theorem tunnel_request:
  assumes "key_proxy key = Some proxy" "proxy_ok proxy"
    "free_of (crlf @ '' @/?#[]:'') (key_host key)" "to_lower_ascii_str (key_host key) = key_host key"
    "0 < key_port key" "key_port key < 65536"
  shows "\<exists>bs. p_request bs = Some
      \<lparr>p_method = ''CONNECT'', p_target = key_host key @ '':'' @ to_string_int (key_port key),
       p_fields = tunnel_headers proxy @
         (if headers_contains ''host'' (tunnel_headers proxy) then []
          else [\<lparr>hname = ''Host'', hvalue = key_host key @ '':'' @ to_string_int (key_port key)\<rparr>]),
       p_body = []\<rparr> \<and>
    connect_stream native net key t = Some
      (case resolve_first net (proxy_host proxy) (proxy_port proxy) of Inl e \<Rightarrow> Inl e
       | Inr addr \<Rightarrow> (case tcp_connect net addr 0 of Inl e \<Rightarrow> Inl e
         | Inr s \<Rightarrow> (case net_request net s bs of Inl e \<Rightarrow> Inl e
           | Inr st \<Rightarrow> if status_code st = 200 then Inr s
               else Inl (Error not_connected (''Proxy connect: '' @ to_string_int (status_code st))))))"
proof -
  let ?url = "default_url\<lparr>scheme_of := ''http'', host_of := key_host key, port_of := key_port key, path_of := []\<rparr>"
  let ?req = "default_request\<lparr>req_method := ''CONNECT'', req_headers := tunnel_headers proxy, req_url := ?url\<rparr>"
  let ?bs = "serialize_to_h1 native (request_move ?req)"
  have url: "parse (''http://'' @ key_host key @ '':'' @ to_string_int (key_port key)) = Inr ?url"
    using assms(3-6) by (intro host_target_parses) (auto intro: free_of_mono)
  have target: "request_target (request_move ?req) = key_host key @ '':'' @ to_string_int (key_port key)"
    using assms(5) by (simp add: request_target_def request_move_def port_or_default_def)
  have "free_of (CHR '' '' # crlf) (to_string_int (key_port key))"
    by (auto simp: free_of_iff is_digit_def crlf_def dest!: to_string_int_chars)
  moreover have "free_of (CHR '' '' # crlf) (key_host key)" "free_of crlf (key_host key)"
    using assms(3) by (auto intro: free_of_mono)
  moreover have "free_of (CHR '' '' # crlf) ''CONNECT:''" by (simp add: crlf_def)
  ultimately have "request_ok (request_move ?req)"
    unfolding request_ok_def target using tunnel_headers_ok [OF assms(2)] by (simp add: request_move_def)
  moreover have "sent_headers (request_move ?req) = tunnel_headers proxy @
      (if headers_contains ''host'' (tunnel_headers proxy) then []
       else [\<lparr>hname = ''Host'', hvalue = key_host key @ '':'' @ to_string_int (key_port key)\<rparr>])"
    using target by (simp add: sent_headers_def host_value_def body_of_def request_move_def default_request_def)
  ultimately have "p_request ?bs = Some
      \<lparr>p_method = ''CONNECT'', p_target = key_host key @ '':'' @ to_string_int (key_port key),
       p_fields = tunnel_headers proxy @
         (if headers_contains ''host'' (tunnel_headers proxy) then []
          else [\<lparr>hname = ''Host'', hvalue = key_host key @ '':'' @ to_string_int (key_port key)\<rparr>]),
       p_body = []\<rparr>"
    using serialize_p_request [of "request_move ?req" native] target
    by (simp add: body_of_def request_move_def default_request_def)
  moreover have "connect_stream native net key t = Some
      (case resolve_first net (proxy_host proxy) (proxy_port proxy) of Inl e \<Rightarrow> Inl e
       | Inr addr \<Rightarrow> (case tcp_connect net addr 0 of Inl e \<Rightarrow> Inl e
         | Inr s \<Rightarrow> (case net_request net s ?bs of Inl e \<Rightarrow> Inl e
           | Inr st \<Rightarrow> if status_code st = 200 then Inr s
               else Inl (Error not_connected (''Proxy connect: '' @ to_string_int (status_code st))))))"
    using assms(1) url connect_request_eq [OF assms(2)]
    by (simp add: connect_stream_def make_proxy_stream_def split: sum.split)
  ultimately show ?thesis by blast
qed

end
