(* ===== verification/Ring_Buffer.thy ===== *)
theory Ring_Buffer
  imports Ppnt_Prelude
begin

text \<open>
  Ring buffers as the kernel and liburing share them: indices are machine words that run freely and wrap
  around, a slot is the index masked by the size of the ring, which is a power of two. The lemmas hold at
  every word size, so that they serve the 32-bit submission and completion rings and the 16-bit ring of
  provided buffers.

  The locale \<open>bounded_fifo\<close> is the contract of such a ring: a producer that appends unless the ring is full
  and a consumer that takes from the front. Its consequence, that whatever the two do, what was taken
  followed by what is still there is what was put, is proved once.
\<close>

section \<open>Free-running indices\<close>

lemma unat_add_nat:
  assumes "unat x + n < 2 ^ LENGTH('a)"
  shows "unat (x + of_nat n :: 'a::len word) = unat x + n"
proof -
  have "unat (x + of_nat n) = (unat x + n) mod 2 ^ LENGTH('a)"
    by (simp add: unat_word_ariths unsigned_of_nat take_bit_eq_mod mod_simps)
  then show ?thesis using assms by simp
qed

lemma unat_sub_nat:
  assumes "n \<le> unat (x :: 'a::len word)"
  shows "unat (x - of_nat n) = unat x - n"
proof -
  have "unat (of_nat (unat x - n) :: 'a word) = unat x - n"
    by (simp only: unsigned_of_nat of_nat_id) (rule take_bit_nat_eq_self, rule le_less_trans [OF diff_le_self], simp)
  moreover have "x - of_nat n = of_nat (unat x - n)"
    using assms by (simp add: of_nat_diff)
  ultimately show ?thesis by simp
qed

lemma unat_diff_add:
  assumes "unat (t - h :: 'a::len word) + n < 2 ^ LENGTH('a)"
  shows "unat (t + of_nat n - h) = unat (t - h) + n"
  using unat_add_nat [OF assms] by (simp only: add_diff_eq diff_add_eq)

lemma unat_diff_sub:
  assumes "n \<le> unat (t - h :: 'a::len word)"
  shows "unat (t - (h + of_nat n)) = unat (t - h) - n"
  using unat_sub_nat [OF assms] by (simp only: diff_diff_eq)

lemma unat_push_bit:
  assumes "2 ^ s * unat (x :: 'a::len word) < 2 ^ LENGTH('a)"
  shows "unat (push_bit s x) = 2 ^ s * unat x"
proof -
  have "unat (push_bit s x) = take_bit LENGTH('a) (push_bit s (unat x))"
    by (rule unsigned_push_bit_eq)
  also have "\<dots> = 2 ^ s * unat x"
    using assms by (simp add: take_bit_eq_mod push_bit_eq_mult mult.commute)
  finally show ?thesis .
qed

lemma unat_pow2 [simp]: "k < LENGTH('a) \<Longrightarrow> unat (2 ^ k :: 'a::len word) = 2 ^ k"
  using unat_push_bit [of k "1 :: 'a word"] by (simp add: push_bit_eq_mult)

section \<open>Slots\<close>

definition ring_slots :: "'a::len word \<Rightarrow> 'a word \<Rightarrow> nat \<Rightarrow> 'a word list" where
  "ring_slots msk head n = map (\<lambda>i. (head + of_nat i) AND msk) [0..<n]"

lemma length_ring_slots [simp]: "length (ring_slots msk h n) = n"
  by (simp add: ring_slots_def)

lemma ring_slots_0 [simp]: "ring_slots msk h 0 = []"
  by (simp add: ring_slots_def)

lemma ring_slots_snoc: "ring_slots msk h (Suc n) = ring_slots msk h n @ [(h + of_nat n) AND msk]"
  by (simp add: ring_slots_def)

lemma ring_slots_Cons: "ring_slots msk h (Suc n) = (h AND msk) # ring_slots msk (h + 1) n"
  by (simp add: ring_slots_def upt_rec [of 0] map_Suc_upt [symmetric] ac_simps del: upt_Suc map_Suc_upt)

lemma ring_slots_drop: "drop m (ring_slots msk h n) = ring_slots msk (h + of_nat m) (n - m)"
  by (rule nth_equalityI) (auto simp: ring_slots_def add.assoc)

lemma unat_slot:
  fixes h :: "'a::len word"
  assumes "k \<le> LENGTH('a)"
  shows "unat ((h + of_nat i) AND mask k) = (unat h + i) mod 2 ^ k"
proof -
  have "(2 :: nat) ^ k dvd 2 ^ LENGTH('a)"
    using assms by (rule le_imp_power_dvd)
  moreover have "unat ((h + of_nat i) AND mask k) = take_bit k (unat (h + of_nat i))"
    by (simp add: unsigned_take_bit_eq flip: take_bit_eq_mask)
  ultimately show ?thesis
    by (simp add: unat_word_ariths unsigned_of_nat take_bit_eq_mod mod_mod_cancel mod_simps)
qed

lemma mod_cancel_small:
  assumes "(a + i) mod m = (a + j) mod (m :: nat)" "i < m" "j < m"
  shows "i = j"
proof -
  have "int i mod int m = int j mod int m"
    using assms(1) by (metis add_diff_cancel_left' mod_diff_left_eq of_nat_add of_nat_mod)
  then show ?thesis
    using assms(2, 3) by (simp flip: of_nat_mod)
qed

lemma distinct_ring_slots:
  fixes h :: "'a::len word"
  assumes "k \<le> LENGTH('a)" "n \<le> 2 ^ k"
  shows "distinct (ring_slots (mask k) h n)"
  unfolding ring_slots_def distinct_map
proof (intro conjI inj_onI)
  fix i j assume ij: "i \<in> set [0..<n]" "j \<in> set [0..<n]"
    and eq: "(h + of_nat i) AND mask k = (h + of_nat j) AND mask k"
  have "(unat h + i) mod 2 ^ k = (unat h + j) mod 2 ^ k"
    using arg_cong [OF eq, of unat] assms(1) by (simp add: unat_slot)
  then show "i = j"
    by (rule mod_cancel_small) (use ij assms(2) in auto)
qed simp

lemma ring_slots_less:
  fixes h :: "'a::len word"
  assumes "k \<le> LENGTH('a)" "x \<in> set (ring_slots (mask k) h n)"
  shows "unat x < 2 ^ k"
  using assms by (auto simp: ring_slots_def unat_slot)


section \<open>The contract of a ring\<close>

text \<open>
  A run of producer and consumer: the producer puts an entry, which has no effect when the ring is full, or
  makes its entries visible; the consumer takes at most the given number of visible entries. The result is
  the entries that were accepted, the entries that were taken, and the final state.
\<close>

datatype 'a ring_event = Put 'a | Publish | Take nat

fun ring_run ::
  "('s \<Rightarrow> 'a list) \<Rightarrow> ('s \<Rightarrow> nat) \<Rightarrow> ('a \<Rightarrow> 's \<Rightarrow> 's option) \<Rightarrow> ('s \<Rightarrow> 's) \<Rightarrow> (nat \<Rightarrow> 's \<Rightarrow> 's) \<Rightarrow>
    'a ring_event list \<Rightarrow> 's \<Rightarrow> 'a list \<times> 'a list \<times> 's" where
  "ring_run contents visible put publish consume [] s = ([], [], s)"
| "ring_run contents visible put publish consume (Put x # es) s = (case put x s of
      None \<Rightarrow> ring_run contents visible put publish consume es s
    | Some s' \<Rightarrow> (case ring_run contents visible put publish consume es s' of (ps, ts, t) \<Rightarrow> (x # ps, ts, t)))"
| "ring_run contents visible put publish consume (Publish # es) s =
    ring_run contents visible put publish consume es (publish s)"
| "ring_run contents visible put publish consume (Take n # es) s = (let m = min n (visible s) in
    (case ring_run contents visible put publish consume es (consume m s) of
      (ps, ts, t) \<Rightarrow> (ps, take m (contents s) @ ts, t)))"

locale bounded_fifo =
  fixes contents :: "'s \<Rightarrow> 'a list"
    and visible :: "'s \<Rightarrow> nat"
    and capacity :: "'s \<Rightarrow> nat"
    and ok :: "'s \<Rightarrow> bool"
    and put :: "'a \<Rightarrow> 's \<Rightarrow> 's option"
    and publish :: "'s \<Rightarrow> 's"
    and consume :: "nat \<Rightarrow> 's \<Rightarrow> 's"
  assumes visible_le: "ok s \<Longrightarrow> visible s \<le> length (contents s)"
    and contents_le: "ok s \<Longrightarrow> length (contents s) \<le> capacity s"
    and put_None: "ok s \<Longrightarrow> put x s = None \<longleftrightarrow> length (contents s) = capacity s"
    and put_Some: "ok s \<Longrightarrow> put x s = Some s' \<Longrightarrow>
      ok s' \<and> contents s' = contents s @ [x] \<and> capacity s' = capacity s \<and> visible s' = visible s"
    and publish: "ok s \<Longrightarrow> ok (publish s) \<and> contents (publish s) = contents s \<and>
      capacity (publish s) = capacity s \<and> visible (publish s) = length (contents s)"
    and consume: "ok s \<Longrightarrow> n \<le> visible s \<Longrightarrow> ok (consume n s) \<and> contents (consume n s) = drop n (contents s) \<and>
      capacity (consume n s) = capacity s"
begin

lemma run_fifo:
  assumes "ok s" "ring_run contents visible put publish consume es s = (ps, ts, t)"
  shows "ok t \<and> contents s @ ps = ts @ contents t \<and> capacity t = capacity s"
  using assms
proof (induction es arbitrary: s ps ts t)
  case (Cons e es)
  show ?case
  proof (cases e)
    case (Put x)
    then show ?thesis
      using Cons.prems put_Some [OF Cons.prems(1), of x]
      by (auto split: option.splits prod.splits dest!: Cons.IH [rotated])
  next
    case Publish
    then show ?thesis
      using Cons.IH [of "publish s"] Cons.prems publish [OF Cons.prems(1)] by simp
  next
    case (Take n)
    let ?m = "min n (visible s)"
    have c: "ok (consume ?m s)" "contents (consume ?m s) = drop ?m (contents s)"
      "capacity (consume ?m s) = capacity s"
      using consume [OF Cons.prems(1), of ?m] by simp_all
    obtain ps' ts' t' where r: "ring_run contents visible put publish consume es (consume ?m s) = (ps', ts', t')"
      by (metis prod_cases3)
    moreover have "(ps, ts, t) = (ps', take ?m (contents s) @ ts', t')"
      using Cons.prems(2) Take r by (simp add: Let_def)
    ultimately show ?thesis
      using Cons.IH [OF c(1) r] c(2, 3) by (metis append.assoc append_take_drop_id prod.inject)
  qed
qed simp

lemma run_bounded:
  assumes "ok s" "ring_run contents visible put publish consume es s = (ps, ts, t)"
  shows "length ps + length (contents s) \<le> length ts + capacity s"
proof -
  have "length (contents s @ ps) = length (ts @ contents t)" "length (contents t) \<le> capacity s"
    using run_fifo [OF assms] contents_le [of t] by auto
  then show ?thesis by simp
qed

end

end
