(* ===== verification/Liburing.thy ===== *)
theory Liburing
  imports Ring_Buffer
begin

text \<open>
  The part of liburing that the runtime calls (\<open>third-party/liburing\<close>: \<open>liburing.h\<close>, \<open>io_uring.h\<close>,
  \<open>queue.c\<close>): the entries of the submission and completion queues, the functions that fill an entry in, the two
  rings shared with the kernel, and the ring of provided buffers.

  The record \<open>io_uring_sqe\<close> has one field for each storage unit of the C structure; the members of a union
  share a field (\<open>off\<close> and \<open>addr2\<close>; \<open>rw_flags\<close>, \<open>msg_flags\<close> and the other flags of an operation;
  \<open>buf_index\<close> and \<open>buf_group\<close>). A pointer is its address, an \<open>int\<close> the word with its bits; a conversion to
  a wider type extends by the sign exactly where the C type is signed. A pointer into one of the arrays of a
  ring is the index of the element.

  The kernel is a parameter: \<open>enter\<close> stands for the system call \<open>io_uring_enter\<close>, which may change the rings and
  has a state of its own.
\<close>

section \<open>Entries of the submission queue\<close>

definition IORING_OP_TIMEOUT :: u32 where "IORING_OP_TIMEOUT = 11"
definition IORING_OP_ACCEPT :: u32 where "IORING_OP_ACCEPT = 13"
definition IORING_OP_LINK_TIMEOUT :: u32 where "IORING_OP_LINK_TIMEOUT = 15"
definition IORING_OP_CONNECT :: u32 where "IORING_OP_CONNECT = 16"
definition IORING_OP_CLOSE :: u32 where "IORING_OP_CLOSE = 19"
definition IORING_OP_READ :: u32 where "IORING_OP_READ = 22"
definition IORING_OP_WRITE :: u32 where "IORING_OP_WRITE = 23"
definition IORING_OP_RECV :: u32 where "IORING_OP_RECV = 27"
definition IORING_OP_PROVIDE_BUFFERS :: u32 where "IORING_OP_PROVIDE_BUFFERS = 31"

definition IOSQE_IO_LINK :: u32 where "IOSQE_IO_LINK = push_bit 2 1"
definition IOSQE_BUFFER_SELECT :: u32 where "IOSQE_BUFFER_SELECT = push_bit 5 1"
definition IORING_ACCEPT_MULTISHOT :: u32 where "IORING_ACCEPT_MULTISHOT = push_bit 0 1"

record io_uring_sqe =
  sqe_opcode :: u8
  sqe_flags :: u8
  sqe_ioprio :: u16
  sqe_fd :: u32
  sqe_off :: u64
  sqe_addr :: u64
  sqe_len :: u32
  sqe_op_flags :: u32
  sqe_user_data :: u64
  sqe_buf_index :: u16
  sqe_personality :: u16
  sqe_file_index :: u32
  sqe_addr3 :: u64
  sqe_pad2 :: u64

definition uring_ptr_to_u64 :: "u64 \<Rightarrow> u64" where
  "uring_ptr_to_u64 ptr = ptr"

definition io_uring_sqe_set_data :: "io_uring_sqe \<Rightarrow> u64 \<Rightarrow> io_uring_sqe" where
  "io_uring_sqe_set_data sqe data = sqe\<lparr>sqe_user_data := data\<rparr>"

definition io_uring_initialize_sqe :: "io_uring_sqe \<Rightarrow> io_uring_sqe" where
  "io_uring_initialize_sqe sqe =
     sqe\<lparr>sqe_flags := 0, sqe_ioprio := 0, sqe_op_flags := 0, sqe_buf_index := 0,
         sqe_personality := 0, sqe_file_index := 0, sqe_addr3 := 0, sqe_pad2 := 0\<rparr>"

definition io_uring_prep_rw :: "u32 \<Rightarrow> io_uring_sqe \<Rightarrow> u32 \<Rightarrow> u64 \<Rightarrow> u32 \<Rightarrow> u64 \<Rightarrow> io_uring_sqe" where
  "io_uring_prep_rw op sqe fd addr len offset =
     sqe\<lparr>sqe_opcode := ucast op, sqe_fd := fd, sqe_off := offset, sqe_addr := addr, 
         sqe_len := len\<rparr>"

definition io_uring_prep_timeout :: "io_uring_sqe \<Rightarrow> u64 \<Rightarrow> u32 \<Rightarrow> u32 \<Rightarrow> io_uring_sqe" where
  "io_uring_prep_timeout sqe ts count flags =
    (let sqe = io_uring_prep_rw IORING_OP_TIMEOUT sqe (- 1) ts 1 (ucast count)
     in sqe\<lparr>sqe_op_flags := flags\<rparr>)"

definition io_uring_prep_accept :: "io_uring_sqe \<Rightarrow> u32 \<Rightarrow> u64 \<Rightarrow> u64 \<Rightarrow> u32 \<Rightarrow> io_uring_sqe" where
  "io_uring_prep_accept sqe fd addr addrlen flags =
    (let sqe = io_uring_prep_rw IORING_OP_ACCEPT sqe fd addr 0 (uring_ptr_to_u64 addrlen)
     in sqe\<lparr>sqe_op_flags := flags\<rparr>)"

definition io_uring_prep_multishot_accept :: "io_uring_sqe \<Rightarrow> u32 \<Rightarrow> u64 \<Rightarrow> u64 \<Rightarrow> u32 \<Rightarrow> io_uring_sqe" where
  "io_uring_prep_multishot_accept sqe fd addr addrlen flags =
    (let sqe = io_uring_prep_accept sqe fd addr addrlen flags
     in sqe\<lparr>sqe_ioprio := sqe_ioprio sqe OR ucast IORING_ACCEPT_MULTISHOT\<rparr>)"

definition io_uring_prep_link_timeout :: "io_uring_sqe \<Rightarrow> u64 \<Rightarrow> u32 \<Rightarrow> io_uring_sqe" where
  "io_uring_prep_link_timeout sqe ts flags =
    (let sqe = io_uring_prep_rw IORING_OP_LINK_TIMEOUT sqe (- 1) ts 1 0
     in sqe\<lparr>sqe_op_flags := flags\<rparr>)"

definition io_uring_prep_connect :: "io_uring_sqe \<Rightarrow> u32 \<Rightarrow> u64 \<Rightarrow> u32 \<Rightarrow> io_uring_sqe" where
  "io_uring_prep_connect sqe fd addr addrlen =
     io_uring_prep_rw IORING_OP_CONNECT sqe fd addr 0 (ucast addrlen)"

definition io_uring_prep_close :: "io_uring_sqe \<Rightarrow> u32 \<Rightarrow> io_uring_sqe" where
  "io_uring_prep_close sqe fd =
     io_uring_prep_rw IORING_OP_CLOSE sqe fd 0 0 0"

definition io_uring_prep_read :: "io_uring_sqe \<Rightarrow> u32 \<Rightarrow> u64 \<Rightarrow> u32 \<Rightarrow> u64 \<Rightarrow> io_uring_sqe" where
  "io_uring_prep_read sqe fd buf nbytes offset =
     io_uring_prep_rw IORING_OP_READ sqe fd buf nbytes offset"

definition io_uring_prep_write :: "io_uring_sqe \<Rightarrow> u32 \<Rightarrow> u64 \<Rightarrow> u32 \<Rightarrow> u64 \<Rightarrow> io_uring_sqe" where
  "io_uring_prep_write sqe fd buf nbytes offset =
     io_uring_prep_rw IORING_OP_WRITE sqe fd buf nbytes offset"

definition io_uring_prep_recv :: "io_uring_sqe \<Rightarrow> u32 \<Rightarrow> u64 \<Rightarrow> u64 \<Rightarrow> u32 \<Rightarrow> io_uring_sqe" where
  "io_uring_prep_recv sqe sockfd buf len flags =
    (let sqe = io_uring_prep_rw IORING_OP_RECV sqe sockfd buf (ucast len) 0
     in sqe\<lparr>sqe_op_flags := flags\<rparr>)"

definition io_uring_prep_provide_buffers :: "io_uring_sqe \<Rightarrow> u64 \<Rightarrow> u32 \<Rightarrow> u32 \<Rightarrow> u32 \<Rightarrow> u32 \<Rightarrow> io_uring_sqe" where
  "io_uring_prep_provide_buffers sqe addr len nr bgid bid =
    (let sqe = io_uring_prep_rw IORING_OP_PROVIDE_BUFFERS sqe nr addr len (scast bid)
     in sqe\<lparr>sqe_buf_index := ucast bgid\<rparr>)"

section \<open>The rings\<close>

definition IORING_SETUP_SQPOLL :: u32 where "IORING_SETUP_SQPOLL = push_bit 1 1"
definition IORING_SETUP_SQE128 :: u32 where "IORING_SETUP_SQE128 = push_bit 10 1"
definition IORING_SETUP_CQE32 :: u32 where "IORING_SETUP_CQE32 = push_bit 11 1"
definition IORING_SETUP_SQ_REWIND :: u32 where "IORING_SETUP_SQ_REWIND = push_bit 20 1"
definition IORING_SQ_NEED_WAKEUP :: u32 where "IORING_SQ_NEED_WAKEUP = push_bit 0 1"
definition IORING_SQ_CQ_OVERFLOW :: u32 where "IORING_SQ_CQ_OVERFLOW = push_bit 1 1"
definition IORING_SQ_TASKRUN :: u32 where "IORING_SQ_TASKRUN = push_bit 2 1"
definition IORING_ENTER_GETEVENTS :: u32 where "IORING_ENTER_GETEVENTS = push_bit 0 1"
definition IORING_ENTER_SQ_WAKEUP :: u32 where "IORING_ENTER_SQ_WAKEUP = push_bit 1 1"
definition IORING_ENTER_REGISTERED_RING :: u32 where "IORING_ENTER_REGISTERED_RING = push_bit 4 1"
definition IORING_ENTER_NO_IOWAIT :: u32 where "IORING_ENTER_NO_IOWAIT = push_bit 7 1"
definition INT_FLAG_CQ_ENTER :: u8 where "INT_FLAG_CQ_ENTER = 4"
definition IORING_CQE_F_BUFFER :: u32 where "IORING_CQE_F_BUFFER = push_bit 0 1"
definition IORING_CQE_F_MORE :: u32 where "IORING_CQE_F_MORE = push_bit 1 1"
definition IORING_CQE_F_32 :: u32 where "IORING_CQE_F_32 = push_bit 15 1"

record io_uring_cqe =
  cqe_user_data :: u64
  cqe_res :: u32
  cqe_flags :: u32

record io_uring_sq =
  sq_khead :: u32
  sq_ktail :: u32
  sq_kflags :: u32
  sqes :: "io_uring_sqe list"
  sqe_head :: u32
  sqe_tail :: u32
  sq_ring_mask :: u32
  sq_ring_entries :: u32

record io_uring_cq =
  cq_khead :: u32
  cq_ktail :: u32
  cqes :: "io_uring_cqe list"
  cq_ring_mask :: u32
  cq_ring_entries :: u32

record io_uring =
  sq :: io_uring_sq
  cq :: io_uring_cq
  ring_flags :: u32
  int_flags :: u8

definition flag_set :: "u32 \<Rightarrow> u32 \<Rightarrow> bool" where
  "flag_set w f \<longleftrightarrow> w AND f \<noteq> 0"

definition io_uring_sqe_shift :: "io_uring \<Rightarrow> nat" where
  "io_uring_sqe_shift ring = (if flag_set (ring_flags ring) IORING_SETUP_SQE128 then 1 else 0)"

definition io_uring_cqe_shift :: "io_uring \<Rightarrow> nat" where
  "io_uring_cqe_shift ring = (if flag_set (ring_flags ring) IORING_SETUP_CQE32 then 1 else 0)"

definition io_uring_load_sq_head :: "io_uring \<Rightarrow> u32" where
  "io_uring_load_sq_head ring =
     (if flag_set (ring_flags ring) IORING_SETUP_SQ_REWIND then 0 else sq_khead (sq ring))"

definition io_uring_sq_ready :: "io_uring \<Rightarrow> u32" where
  "io_uring_sq_ready ring = sqe_tail (sq ring) - io_uring_load_sq_head ring"

definition io_uring_cq_ready :: "io_uring \<Rightarrow> u32" where
  "io_uring_cq_ready ring = cq_ktail (cq ring) - cq_khead (cq ring)"

text \<open>A store through the pointer to entry \<open>i\<close>.\<close>

definition sqe_write :: "u32 \<Rightarrow> (io_uring_sqe \<Rightarrow> io_uring_sqe) \<Rightarrow> io_uring \<Rightarrow> io_uring" where
  "sqe_write i f ring =
     ring\<lparr>sq := (sq ring)\<lparr>sqes := (sqes (sq ring))[unat i := f (sqes (sq ring) ! unat i)]\<rparr>\<rparr>"

definition io_uring_get_sqe :: "io_uring \<Rightarrow> (u32 \<times> io_uring) option" where
  "io_uring_get_sqe ring =
    (let head = io_uring_load_sq_head ring; tail = sqe_tail (sq ring) in
     if sq_ring_entries (sq ring) \<le> tail - head then None
     else let sqe = push_bit (io_uring_sqe_shift ring) (tail AND sq_ring_mask (sq ring));
              ring = ring\<lparr>sq := (sq ring)\<lparr>sqe_tail := tail + 1\<rparr>\<rparr>
          in Some (sqe, sqe_write sqe io_uring_initialize_sqe ring))"

subsection \<open>Submission\<close>

definition ring_enter_flags :: "io_uring \<Rightarrow> u32" where
  "ring_enter_flags ring = ucast (int_flags ring) AND (IORING_ENTER_REGISTERED_RING OR IORING_ENTER_NO_IOWAIT)"

definition sq_ring_needs_enter :: "io_uring \<Rightarrow> u32 \<Rightarrow> u32 \<Rightarrow> bool \<times> u32" where
  "sq_ring_needs_enter ring submit flags =
    (if submit = 0 then (False, flags)
     else if \<not> flag_set (ring_flags ring) IORING_SETUP_SQPOLL then (True, flags)
     else if flag_set (sq_kflags (sq ring)) IORING_SQ_NEED_WAKEUP then (True, flags OR IORING_ENTER_SQ_WAKEUP)
     else (False, flags))"

definition cq_ring_needs_flush :: "io_uring \<Rightarrow> bool" where
  "cq_ring_needs_flush ring = flag_set (sq_kflags (sq ring)) (IORING_SQ_CQ_OVERFLOW OR IORING_SQ_TASKRUN)"

definition cq_ring_needs_enter :: "io_uring \<Rightarrow> bool" where
  "cq_ring_needs_enter ring \<longleftrightarrow> int_flags ring AND INT_FLAG_CQ_ENTER \<noteq> 0 \<or> cq_ring_needs_flush ring"

definition io_uring_flush_sq :: "io_uring \<Rightarrow> u32 \<times> io_uring" where
  "io_uring_flush_sq ring =
    (let tail = sqe_tail (sq ring) in
     if flag_set (ring_flags ring) IORING_SETUP_SQ_REWIND
     then (tail, ring\<lparr>sq := (sq ring)\<lparr>sqe_tail := 0\<rparr>\<rparr>)
     else let ring = (if sqe_head (sq ring) \<noteq> tail
                      then ring\<lparr>sq := (sq ring)\<lparr>sqe_head := tail, sq_ktail := tail\<rparr>\<rparr> else ring)
          in (tail - sq_khead (sq ring), ring))"

text \<open>The arguments of the system call: the number of entries to submit, the completions to wait for, flags.\<close>

type_synonym 'k enter = "u32 \<Rightarrow> u32 \<Rightarrow> u32 \<Rightarrow> 'k \<times> io_uring \<Rightarrow> int \<times> 'k \<times> io_uring"

definition io_uring_submit_flushed :: "'k enter \<Rightarrow> u32 \<Rightarrow> u32 \<Rightarrow> bool \<Rightarrow> 'k \<times> io_uring \<Rightarrow> int \<times> 'k \<times> io_uring" where
  "io_uring_submit_flushed enter submitted wait_nr getevents s =
    (let ring = snd s;
         cq_needs_enter = (getevents \<or> wait_nr \<noteq> 0 \<or> cq_ring_needs_enter ring);
         (needs, flags) = sq_ring_needs_enter ring submitted (ring_enter_flags ring) in
     if needs \<or> cq_needs_enter
     then let flags = (if cq_needs_enter then flags OR IORING_ENTER_GETEVENTS else flags)
          in enter submitted wait_nr flags s
     else (sint submitted, s))"

definition io_uring_submit_and_wait :: "'k enter \<Rightarrow> u32 \<Rightarrow> 'k \<times> io_uring \<Rightarrow> int \<times> 'k \<times> io_uring" where
  "io_uring_submit_and_wait enter wait_nr s =
    (let (submitted, ring) = io_uring_flush_sq (snd s)
     in io_uring_submit_flushed enter submitted wait_nr False (fst s, ring))"

definition io_uring_submit :: "'k enter \<Rightarrow> 'k \<times> io_uring \<Rightarrow> int \<times> 'k \<times> io_uring" where
  "io_uring_submit enter s = io_uring_submit_and_wait enter 0 s"

subsection \<open>Completions\<close>

record io_uring_cqe_iter =
  it_cqes :: "io_uring_cqe list"
  it_mask :: u32
  it_shift :: nat
  it_head :: u32
  it_tail :: u32

definition io_uring_cqe_iter_init :: "io_uring \<Rightarrow> io_uring_cqe_iter" where
  "io_uring_cqe_iter_init ring =
     \<lparr>it_cqes = cqes (cq ring), it_mask = cq_ring_mask (cq ring), it_shift = io_uring_cqe_shift ring,
      it_head = cq_khead (cq ring), it_tail = cq_ktail (cq ring)\<rparr>"

definition io_uring_cqe_iter_next :: "io_uring_cqe_iter \<Rightarrow> (io_uring_cqe \<times> io_uring_cqe_iter) option" where
  "io_uring_cqe_iter_next iter =
    (if it_head iter = it_tail iter then None
     else let cqe = it_cqes iter ! unat (push_bit (it_shift iter) (it_head iter AND it_mask iter));
              iter = iter\<lparr>it_head := it_head iter + 1\<rparr>
          in Some (cqe, if flag_set (cqe_flags cqe) IORING_CQE_F_32 then iter\<lparr>it_head := it_head iter + 1\<rparr> else iter))"

definition io_uring_cq_advance :: "io_uring \<Rightarrow> u32 \<Rightarrow> io_uring" where
  "io_uring_cq_advance ring nr =
    (if nr \<noteq> 0 then ring\<lparr>cq := (cq ring)\<lparr>cq_khead := cq_khead (cq ring) + nr\<rparr>\<rparr> else ring)"

subsection \<open>Provided buffers\<close>

record io_uring_buf =
  buf_addr :: u64
  buf_len :: u32
  buf_bid :: u16

record io_uring_buf_ring =
  bufs :: "io_uring_buf list"
  br_tail :: u16

definition io_uring_buf_ring_init :: "io_uring_buf_ring \<Rightarrow> io_uring_buf_ring" where
  "io_uring_buf_ring_init br = br\<lparr>br_tail := 0\<rparr>"

definition io_uring_buf_ring_add ::
  "io_uring_buf_ring \<Rightarrow> u64 \<Rightarrow> u32 \<Rightarrow> u16 \<Rightarrow> u32 \<Rightarrow> u32 \<Rightarrow> io_uring_buf_ring" where
  "io_uring_buf_ring_add br addr len bid msk buf_offset =
     br\<lparr>bufs := (bufs br)[unat ((ucast (br_tail br) + buf_offset) AND msk) :=
         \<lparr>buf_addr = addr, buf_len = len, buf_bid = bid\<rparr>]\<rparr>"

definition io_uring_buf_ring_advance :: "io_uring_buf_ring \<Rightarrow> u32 \<Rightarrow> io_uring_buf_ring" where
  "io_uring_buf_ring_advance br count = br\<lparr>br_tail := ucast (ucast (br_tail br) + count :: u32)\<rparr>"

section \<open>The submission queue is a queue\<close>

text \<open>
  The entries between the kernel's head and the tail of the application are the contents of the queue, those
  before the published tail are visible to the kernel. \<open>sq_ok\<close> is the invariant: the number of entries is a power of
  two, and no more entries are in use than there are.
\<close>

definition sq_ok :: "io_uring \<Rightarrow> bool" where
  "sq_ok ring \<longleftrightarrow> \<not> flag_set (ring_flags ring) IORING_SETUP_SQ_REWIND \<and>
     (\<exists>k<32. sq_ring_entries (sq ring) = 2 ^ k \<and> sq_ring_mask (sq ring) = mask k \<and>
       length (sqes (sq ring)) = 2 ^ (k + io_uring_sqe_shift ring) \<and>
       unat (sqe_tail (sq ring) - sq_khead (sq ring)) \<le> 2 ^ k) \<and>
     unat (sq_ktail (sq ring) - sq_khead (sq ring)) \<le> unat (sqe_tail (sq ring) - sq_khead (sq ring)) \<and>
     sqe_head (sq ring) = sq_ktail (sq ring)"

definition sq_slots :: "io_uring \<Rightarrow> nat list" where
  "sq_slots ring = map (\<lambda>i. unat (push_bit (io_uring_sqe_shift ring) i))
     (ring_slots (sq_ring_mask (sq ring)) (sq_khead (sq ring)) (unat (io_uring_sq_ready ring)))"

definition sq_entries :: "io_uring \<Rightarrow> io_uring_sqe list" where
  "sq_entries ring = map (\<lambda>i. sqes (sq ring) ! i) (sq_slots ring)"

definition sq_visible :: "io_uring \<Rightarrow> nat" where
  "sq_visible ring = unat (sq_ktail (sq ring) - sq_khead (sq ring))"

definition sq_put :: "io_uring_sqe \<Rightarrow> io_uring \<Rightarrow> io_uring option" where
  "sq_put x ring = map_option (\<lambda>(i, r). sqe_write i (\<lambda>_. x) r) (io_uring_get_sqe ring)"

definition sq_consume :: "nat \<Rightarrow> io_uring \<Rightarrow> io_uring" where
  "sq_consume n ring = ring\<lparr>sq := (sq ring)\<lparr>sq_khead := sq_khead (sq ring) + of_nat n\<rparr>\<rparr>"

lemma sqe_shift_update [simp]:
  "io_uring_sqe_shift (ring\<lparr>sq := x\<rparr>) = io_uring_sqe_shift ring"
  by (simp add: io_uring_sqe_shift_def)

lemma sqe_shift_write [simp]: "io_uring_sqe_shift (sqe_write i f ring) = io_uring_sqe_shift ring"
  by (simp add: sqe_write_def)

lemma sqe_shift_le: "io_uring_sqe_shift ring \<le> 1"
  by (simp add: io_uring_sqe_shift_def)

lemma unat_shifted:
  assumes "unat (x :: u32) < 2 ^ k" "k < 32" "s \<le> 1"
  shows "unat (push_bit s x) = 2 ^ s * unat x"
proof (rule unat_push_bit)
  have "2 ^ s * unat x < 2 ^ s * 2 ^ k" using assms(1) by simp
  also have "\<dots> = (2 :: nat) ^ (s + k)" by (rule power_add [symmetric])
  also have "\<dots> \<le> 2 ^ 32" using assms(2, 3) by (intro power_increasing) simp_all
  finally show "2 ^ s * unat x < 2 ^ LENGTH(32)" by simp
qed

lemma sq_slots_distinct:
  assumes "sq_ok ring"
  shows "distinct (sq_slots ring)" and "x \<in> set (sq_slots ring) \<Longrightarrow> x < length (sqes (sq ring))"
proof -
  obtain k where k: "k < 32" "sq_ring_mask (sq ring) = mask k"
    "length (sqes (sq ring)) = 2 ^ (k + io_uring_sqe_shift ring)"
    "unat (sqe_tail (sq ring) - sq_khead (sq ring)) \<le> 2 ^ k"
    and r: "io_uring_load_sq_head ring = sq_khead (sq ring)"
    using assms by (auto simp: sq_ok_def io_uring_load_sq_head_def)
  let ?xs = "ring_slots (mask k) (sq_khead (sq ring)) (unat (sqe_tail (sq ring) - sq_khead (sq ring)))"
  have less: "unat x < 2 ^ k" if "x \<in> set ?xs" for x
    using ring_slots_less [OF _ that] k(1) by simp
  have eq: "sq_slots ring = map (\<lambda>i. 2 ^ io_uring_sqe_shift ring * unat i) ?xs"
    using less unat_shifted [OF _ k(1) sqe_shift_le [of ring]]
    by (auto simp: sq_slots_def io_uring_sq_ready_def r k(2))
  have "distinct ?xs"
    by (rule distinct_ring_slots) (use k(1, 4) in simp_all)
  then show "distinct (sq_slots ring)"
    unfolding eq by (simp add: distinct_map inj_on_def word_unat_eq_iff)
  show "x < length (sqes (sq ring))" if "x \<in> set (sq_slots ring)"
    using that less unfolding eq k(3) by (auto simp: power_add)
qed


lemma sq_ready_eq: "sq_ok ring \<Longrightarrow> io_uring_sq_ready ring = sqe_tail (sq ring) - sq_khead (sq ring)"
  by (simp add: sq_ok_def io_uring_sq_ready_def io_uring_load_sq_head_def)

lemma length_sq_slots [simp]: "length (sq_slots ring) = unat (io_uring_sq_ready ring)"
  by (simp add: sq_slots_def)

lemma length_sq_entries [simp]: "length (sq_entries ring) = unat (io_uring_sq_ready ring)"
  by (simp add: sq_entries_def)

lemma get_sqe_None:
  assumes "sq_ok ring"
  shows "io_uring_get_sqe ring = None \<longleftrightarrow> unat (io_uring_sq_ready ring) = unat (sq_ring_entries (sq ring))"
  using assms by (auto simp: sq_ok_def io_uring_get_sqe_def io_uring_sq_ready_def io_uring_load_sq_head_def Let_def
      word_le_nat_alt unsigned_of_nat)

text \<open>A new entry takes the slot behind the last one in use, which no other entry has.\<close>

lemma get_sqe_Some:
  assumes "sq_ok ring" "io_uring_get_sqe ring = Some (i, r)"
  shows "sq_ok r" and "sq_slots r = sq_slots ring @ [unat i]"
    and "sqes (sq r) = (sqes (sq ring))[unat i := io_uring_initialize_sqe (sqes (sq ring) ! unat i)]"
    and "sq_visible r = sq_visible ring" and "sq_ring_entries (sq r) = sq_ring_entries (sq ring)"
    and "unat i < length (sqes (sq ring))" and "unat i \<notin> set (sq_slots ring)"
proof -
  obtain k where k: "k < 32" "sq_ring_entries (sq ring) = 2 ^ k" "sq_ring_mask (sq ring) = mask k"
    "length (sqes (sq ring)) = 2 ^ (k + io_uring_sqe_shift ring)"
    "unat (sqe_tail (sq ring) - sq_khead (sq ring)) \<le> 2 ^ k"
    using assms(1) by (auto simp: sq_ok_def)
  let ?n = "unat (sqe_tail (sq ring) - sq_khead (sq ring))"
  have h: "io_uring_load_sq_head ring = sq_khead (sq ring)"
    using assms(1) by (simp add: sq_ok_def io_uring_load_sq_head_def)
  have i: "i = push_bit (io_uring_sqe_shift ring) (sqe_tail (sq ring) AND mask k)"
    and r: "r = sqe_write i io_uring_initialize_sqe (ring\<lparr>sq := (sq ring)\<lparr>sqe_tail := sqe_tail (sq ring) + 1\<rparr>\<rparr>)"
    and free: "\<not> 2 ^ k \<le> sqe_tail (sq ring) - sq_khead (sq ring)"
    using assms(2) k(2, 3) by (auto simp: io_uring_get_sqe_def h Let_def split: if_splits)
  have n: "?n < 2 ^ k"
    using free k(1) by (simp add: word_le_nat_alt unsigned_of_nat)
  moreover have "(2 :: nat) ^ k < 2 ^ 32"
    using k(1) by (intro power_strict_increasing) simp_all
  ultimately have n1: "unat (sqe_tail (sq ring) + 1 - sq_khead (sq ring)) = Suc ?n"
    using unat_diff_add [of "sqe_tail (sq ring)" "sq_khead (sq ring)" 1] by simp
  have fields: "sq_khead (sq r) = sq_khead (sq ring)" "sq_ktail (sq r) = sq_ktail (sq ring)"
    "sqe_tail (sq r) = sqe_tail (sq ring) + 1" "sq_ring_mask (sq r) = mask k" "sqe_head (sq r) = sqe_head (sq ring)"
    "ring_flags r = ring_flags ring" "sq_ring_entries (sq r) = 2 ^ k" "io_uring_sqe_shift r = io_uring_sqe_shift ring"
    by (simp_all add: r sqe_write_def k(2, 3))
  show sqes: "sqes (sq r) = (sqes (sq ring))[unat i := io_uring_initialize_sqe (sqes (sq ring) ! unat i)]"
    by (simp add: r sqe_write_def)
  show "sq_ok r"
    unfolding sq_ok_def fields sqes using assms(1) k n n1 by (auto simp: sq_ok_def)
  then have "io_uring_sq_ready r = sqe_tail (sq ring) + 1 - sq_khead (sq ring)"
    by (simp add: sq_ready_eq fields)
  then show slots: "sq_slots r = sq_slots ring @ [unat i]"
    using n1 by (simp add: sq_slots_def fields sq_ready_eq [OF assms(1)] k(3) i ring_slots_snoc)
  show "sq_visible r = sq_visible ring" "sq_ring_entries (sq r) = sq_ring_entries (sq ring)"
    by (simp_all add: sq_visible_def fields k(2))
  show "unat i < length (sqes (sq ring))" "unat i \<notin> set (sq_slots ring)"
    using sq_slots_distinct [OF \<open>sq_ok r\<close>] unfolding slots sqes by simp_all
qed


lemma sq_put_Some:
  assumes "sq_ok ring" "sq_put x ring = Some r"
  shows "sq_ok r \<and> sq_entries r = sq_entries ring @ [x] \<and>
    sq_ring_entries (sq r) = sq_ring_entries (sq ring) \<and> sq_visible r = sq_visible ring"
proof -
  obtain i r' where g: "io_uring_get_sqe ring = Some (i, r')" and r: "r = sqe_write i (\<lambda>_. x) r'"
    using assms(2) by (auto simp: sq_put_def)
  note r' = get_sqe_Some [OF assms(1) g]
  have fields: "sq_slots r = sq_slots r'" "sq_ok r \<longleftrightarrow> sq_ok r'" "sq_visible r = sq_visible r'"
    "sq_ring_entries (sq r) = sq_ring_entries (sq r')"
    by (simp_all add: r sqe_write_def sq_slots_def sq_ok_def sq_visible_def io_uring_sq_ready_def
        io_uring_load_sq_head_def)
  have "sqes (sq r) = (sqes (sq ring))[unat i := x]"
    by (simp add: r sqe_write_def r'(3))
  then have "sq_entries r = sq_entries ring @ [x]"
    using r'(6, 7) by (auto simp: sq_entries_def fields r'(2) intro: nth_list_update_neq)
  then show ?thesis
    using fields r' by simp
qed

lemma sq_publish:
  assumes "sq_ok ring"
  shows "sq_ok (snd (io_uring_flush_sq ring))" "sq_entries (snd (io_uring_flush_sq ring)) = sq_entries ring"
    "sq_ring_entries (sq (snd (io_uring_flush_sq ring))) = sq_ring_entries (sq ring)"
    "sq_visible (snd (io_uring_flush_sq ring)) = length (sq_entries ring)"
    "fst (io_uring_flush_sq ring) = io_uring_sq_ready ring"
  using assms
  by (auto simp: io_uring_flush_sq_def sq_ok_def sq_entries_def sq_slots_def sq_visible_def io_uring_sq_ready_def
      io_uring_load_sq_head_def Let_def)

lemma sq_consume_drop:
  assumes "sq_ok ring" "n \<le> sq_visible ring"
  shows "sq_ok (sq_consume n ring)" "sq_entries (sq_consume n ring) = drop n (sq_entries ring)"
    "sq_ring_entries (sq (sq_consume n ring)) = sq_ring_entries (sq ring)"
proof -
  have le: "n \<le> unat (sq_ktail (sq ring) - sq_khead (sq ring))" "n \<le> unat (sqe_tail (sq ring) - sq_khead (sq ring))"
    using assms by (auto simp: sq_visible_def sq_ok_def)
  note sub = unat_diff_sub [OF le(1)] unat_diff_sub [OF le(2)]
  show "sq_ok (sq_consume n ring)"
    using assms(1) le by (auto simp: sq_ok_def sq_consume_def sub intro!: exI)
  then have "sq_slots (sq_consume n ring) = drop n (sq_slots ring)"
    using sub(2) by (simp add: sq_slots_def sq_ready_eq [OF assms(1)] sq_ready_eq drop_map ring_slots_drop)
      (simp add: sq_consume_def)
  then show "sq_entries (sq_consume n ring) = drop n (sq_entries ring)"
    by (simp add: sq_entries_def drop_map) (simp add: sq_consume_def)
  show "sq_ring_entries (sq (sq_consume n ring)) = sq_ring_entries (sq ring)"
    by (simp add: sq_consume_def)
qed

interpretation submission: bounded_fifo sq_entries sq_visible "\<lambda>r. unat (sq_ring_entries (sq r))" sq_ok sq_put
  "\<lambda>r. snd (io_uring_flush_sq r)" sq_consume
proof
  fix ring x assume ok: "sq_ok ring"
  show "sq_visible ring \<le> length (sq_entries ring)"
    using ok by (simp add: sq_visible_def sq_ready_eq) (simp add: sq_ok_def)
  show "length (sq_entries ring) \<le> unat (sq_ring_entries (sq ring))"
    using ok by (simp add: sq_ready_eq) (auto simp: sq_ok_def)
  show "sq_put x ring = None \<longleftrightarrow> length (sq_entries ring) = unat (sq_ring_entries (sq ring))"
    using get_sqe_None [OF ok] by (simp add: sq_put_def)
qed (simp_all add: sq_put_Some sq_publish sq_consume_drop)


text \<open>C16: The submission queue is a bounded first-in first-out queue, at every position of the 32-bit indices and
  across their wrap-around: whatever the application puts and publishes and however the kernel takes, the
  entries that were taken followed by the entries still queued are the initial entries followed by those
  that were accepted. So no entry is overwritten before the kernel has it, lost, duplicated or reordered, and a
  put is refused only when the ring is full.\<close>

theorem submission_queue_fifo:
  assumes "sq_ok ring"
    and "ring_run sq_entries sq_visible sq_put (\<lambda>r. snd (io_uring_flush_sq r)) sq_consume es ring = (accepted, taken, r)"
  shows "sq_ok r \<and> sq_entries ring @ accepted = taken @ sq_entries r \<and>
    length (sq_entries r) \<le> unat (sq_ring_entries (sq r)) \<and>
    (io_uring_get_sqe r = None \<longleftrightarrow> length (sq_entries r) = unat (sq_ring_entries (sq r)))"
  using submission.run_fifo [OF assms] submission.contents_le [of r] get_sqe_None [of r] by simp

definition zero_sqe :: io_uring_sqe where
  "zero_sqe = \<lparr>sqe_opcode = 0, sqe_flags = 0, sqe_ioprio = 0, sqe_fd = 0, sqe_off = 0, sqe_addr = 0, sqe_len = 0,
     sqe_op_flags = 0, sqe_user_data = 0, sqe_buf_index = 0, sqe_personality = 0, sqe_file_index = 0, sqe_addr3 = 0,
     sqe_pad2 = 0\<rparr>"

text \<open>An empty ring of two entries whose indices are about to wrap around.\<close>

definition sample_ring :: io_uring where
  "sample_ring =
     \<lparr>sq = \<lparr>sq_khead = 0xFFFFFFFF, sq_ktail = 0xFFFFFFFF, sq_kflags = 0, sqes = [zero_sqe, zero_sqe],
            sqe_head = 0xFFFFFFFF, sqe_tail = 0xFFFFFFFF, sq_ring_mask = 1, sq_ring_entries = 2\<rparr>,
      cq = \<lparr>cq_khead = 0, cq_ktail = 0, cqes = replicate 4 \<lparr>cqe_user_data = 0, cqe_res = 0, cqe_flags = 0\<rparr>,
            cq_ring_mask = 3, cq_ring_entries = 4\<rparr>,
      ring_flags = 0, int_flags = 0\<rparr>"

definition sample_events :: "io_uring_sqe ring_event list" where
  "sample_events =
     [Put (zero_sqe\<lparr>sqe_fd := 1\<rparr>), Put (zero_sqe\<lparr>sqe_fd := 2\<rparr>), Put (zero_sqe\<lparr>sqe_fd := 3\<rparr>), Publish, Take 1,
      Put (zero_sqe\<lparr>sqe_fd := 4\<rparr>)]"

lemma sample_ring_ok: "sq_ok sample_ring"
  by (simp add: sq_ok_def sample_ring_def flag_set_def io_uring_sqe_shift_def)
    (rule exI [of _ 1], simp add: mask_eq_exp_minus_1)


theorem submission_queue_fifo_witness:
  "case ring_run sq_entries sq_visible sq_put (\<lambda>r. snd (io_uring_flush_sq r)) sq_consume sample_events sample_ring of
     (accepted, taken, r) \<Rightarrow> sq_ok r \<and> map sqe_fd accepted = [1, 2, 4] \<and> map sqe_fd taken = [1] \<and>
       map sqe_fd (taken @ sq_entries r) = [1, 2, 4]"
proof -
  obtain accepted taken r where run: "ring_run sq_entries sq_visible sq_put (\<lambda>r. snd (io_uring_flush_sq r)) sq_consume
      sample_events sample_ring = (accepted, taken, r)"
    by (metis prod_cases3)
  have "map sqe_fd (fst (ring_run sq_entries sq_visible sq_put (\<lambda>r. snd (io_uring_flush_sq r)) sq_consume
      sample_events sample_ring)) = [1, 2, 4]"
    "map sqe_fd (fst (snd (ring_run sq_entries sq_visible sq_put (\<lambda>r. snd (io_uring_flush_sq r)) sq_consume
      sample_events sample_ring))) = [1]"
    "sq_entries sample_ring = []"
    by code_simp+
  then show ?thesis
    using submission_queue_fifo [OF sample_ring_ok run] by (simp add: run)
qed

section \<open>What a prepared entry depends on\<close>

text \<open>
  \<open>fresh_prep f\<close>: after \<open>io_uring_initialize_sqe\<close> the function \<open>f\<close> gives an entry that is the same whatever the slot of
  the ring held before, apart from \<open>user_data\<close>, which \<open>f\<close> leaves as it was. It holds of every function that
  the runtime uses.
\<close>

definition fresh_prep :: "(io_uring_sqe \<Rightarrow> io_uring_sqe) \<Rightarrow> bool" where
  "fresh_prep f \<longleftrightarrow>
     (\<forall>s. f (io_uring_initialize_sqe s) = (f zero_sqe)\<lparr>sqe_user_data := sqe_user_data s\<rparr>)"

lemma fresh_prepD: "fresh_prep f \<Longrightarrow> f (io_uring_initialize_sqe s) = (f zero_sqe)\<lparr>sqe_user_data := sqe_user_data s\<rparr>"
  by (simp add: fresh_prep_def)

lemmas prep_defs =
  io_uring_initialize_sqe_def io_uring_prep_rw_def Let_def io_uring_prep_timeout_def io_uring_prep_accept_def
  io_uring_prep_multishot_accept_def io_uring_prep_link_timeout_def io_uring_prep_connect_def io_uring_prep_close_def
  io_uring_prep_read_def io_uring_prep_write_def io_uring_prep_recv_def io_uring_prep_provide_buffers_def

lemma preps_fresh:
  "fresh_prep (\<lambda>s. io_uring_prep_timeout s ts count flags)"
  "fresh_prep (\<lambda>s. io_uring_prep_accept s fd addr addrlen flags)"
  "fresh_prep (\<lambda>s. io_uring_prep_multishot_accept s fd addr addrlen flags)"
  "fresh_prep (\<lambda>s. io_uring_prep_link_timeout s ts flags)"
  "fresh_prep (\<lambda>s. io_uring_prep_connect s fd addr len)"
  "fresh_prep (\<lambda>s. io_uring_prep_close s fd)"
  "fresh_prep (\<lambda>s. io_uring_prep_read s fd addr nbytes off)"
  "fresh_prep (\<lambda>s. io_uring_prep_write s fd addr nbytes off)"
  "fresh_prep (\<lambda>s. io_uring_prep_recv s fd addr nbytes' flags)"
  "fresh_prep (\<lambda>s. io_uring_prep_provide_buffers s addr nbytes nr bgid bid)"
  by (simp_all add: fresh_prep_def prep_defs zero_sqe_def)

end
