(* ===== verification/Driver.thy ===== *)
theory Driver
  imports Liburing
begin

text \<open>
  The driver of the runtime, \<open>io::Ring\<close> and \<open>io::Operation\<close> (\<open>driver.ixx\<close>, \<open>driver.cpp\<close>).

  A \<open>Ring\<close> holds the io\_uring, the state of the kernel behind it, the queue of handles that other threads
  post, the buffers it lends to the kernel, and the memory \<open>ops\<close> in which the operations live, by address. The union of
  \<open>timeout_ms\<close> and \<open>ts\<close> is its storage: \<open>timeout_ms\<close> is the low half of \<open>tv_sec\<close>. A coroutine is its handle, and
  \<open>resume\<close>, a parameter, is what running it up to its next suspension does to the driver. \<open>std::terminate\<close>
  and undefined behaviour (a store through a null pointer) are outcomes of their own.
\<close>

definition e_time :: int where "e_time = 62"
definition e_canceled :: int where "e_canceled = 125"

section \<open>Operations\<close>

record Operation =
  op_handle :: u64
  op_result :: int
  op_bid :: u16
  op_ref_count :: u8
  op_flags :: u8
  op_cqe_flags :: u32
  op_tv_sec :: u64
  op_tv_nsec :: u64

definition F_HAS_BUFFER :: u8 where "F_HAS_BUFFER = 1"
definition F_IS_LINKED :: u8 where "F_IS_LINKED = 2"

definition op_timeout_ms :: "Operation \<Rightarrow> u32" where
  "op_timeout_ms op = ucast (op_tv_sec op)"

definition reset :: "u32 \<Rightarrow> Operation \<Rightarrow> Operation" where
  "reset t_ms op =
     op\<lparr>op_handle := 0, op_result := 0, op_bid := 0, op_ref_count := 1, op_flags := 0,
        op_tv_sec := (op_tv_sec op AND NOT (mask 32)) OR ucast t_ms\<rparr>"

text \<open>The distance of \<open>ts\<close> from the start of an operation.\<close>

definition ts_offset :: u64 where "ts_offset = 24"

section \<open>The ring\<close>

definition BGID :: u16 where "BGID = 0"
definition BUF_SIZE :: u32 where "BUF_SIZE = 4096"
definition BUF_COUNT :: u32 where "BUF_COUNT = 512"

record 'k Ring =
  uring :: io_uring
  kernel :: 'k
  ops :: "u64 \<Rightarrow> Operation"
  ev_fd :: u32
  ev_buf :: u64
  ev_op :: u64
  notified :: bool
  external_tasks :: "u64 list"
  buffer_mem :: u64
  buf_ring :: "io_uring_buf_ring option"
  using_buf_ring :: bool

definition sqe_prep :: "u32 \<Rightarrow> (io_uring_sqe \<Rightarrow> io_uring_sqe) \<Rightarrow> 'k Ring \<Rightarrow> 'k Ring" where
  "sqe_prep i f r = r\<lparr>uring := sqe_write i f (uring r)\<rparr>"

definition op_update :: "u64 \<Rightarrow> (Operation \<Rightarrow> Operation) \<Rightarrow> 'k Ring \<Rightarrow> 'k Ring" where
  "op_update op f r = r\<lparr>ops := (ops r)(op := f (ops r op))\<rparr>"

definition get_sqe :: "'k Ring \<Rightarrow> (u32 \<times> 'k Ring) option" where
  "get_sqe r = map_option (\<lambda>(i, u). (i, r\<lparr>uring := u\<rparr>)) (io_uring_get_sqe (uring r))"

definition submit_queue :: "'k enter \<Rightarrow> 'k Ring \<Rightarrow> 'k Ring" where
  "submit_queue enter r =
    (let (ret, k, u) = io_uring_submit enter (kernel r, uring r) in r\<lparr>kernel := k, uring := u\<rparr>)"

text \<open>The common start of \<open>submit\<close>, \<open>arm_eventfd_read\<close>, \<open>recycle_buffer\<close> and \<open>setup_buffers\<close>: an entry, if
  need be after a submission.\<close>

definition get_sqe_retry :: "'k enter \<Rightarrow> 'k Ring \<Rightarrow> (u32 \<times> 'k Ring) option" where
  "get_sqe_retry enter r = (case get_sqe r of Some x \<Rightarrow> Some x | None \<Rightarrow> get_sqe (submit_queue enter r))"

definition submit :: "'k enter \<Rightarrow> u64 \<Rightarrow> (io_uring_sqe \<Rightarrow> io_uring_sqe) \<Rightarrow> 'k Ring \<Rightarrow> 'k Ring outcome" where
  "submit enter op prep r = (case get_sqe_retry enter r of
      None \<Rightarrow> Terminated
    | Some (sqe, r) \<Rightarrow>
        let r = sqe_prep sqe (\<lambda>s. io_uring_sqe_set_data (prep s) op) r in
        if 0 < op_timeout_ms (ops r op)
        then let r = sqe_prep sqe (\<lambda>s. s\<lparr>sqe_flags := sqe_flags s OR ucast IOSQE_IO_LINK\<rparr>) r in
          (case get_sqe r of
            None \<Rightarrow> Undefined
          | Some (ts_sqe, r) \<Rightarrow>
              let ms = op_timeout_ms (ops r op);
                  r = op_update op (\<lambda>p. p\<lparr>op_tv_sec := ucast (ms div 1000),
                    op_tv_nsec := ucast (ms mod 1000 * 1000000), op_ref_count := 2,
                    op_flags := op_flags p OR F_IS_LINKED\<rparr>) r
              in Ok (sqe_prep ts_sqe
                  (\<lambda>s. io_uring_sqe_set_data (io_uring_prep_link_timeout s (op + ts_offset) 0) (op OR 1)) r))
        else Ok r)"

definition arm_eventfd_read :: "'k enter \<Rightarrow> 'k Ring \<Rightarrow> 'k Ring outcome" where
  "arm_eventfd_read enter r = (case get_sqe_retry enter r of
      None \<Rightarrow> Terminated
    | Some (sqe, r) \<Rightarrow> Ok (sqe_prep sqe
        (\<lambda>s. io_uring_sqe_set_data (io_uring_prep_read s (ev_fd r) (ev_buf r) 8 0) (ev_op r)) r))"

subsection \<open>Completions\<close>

text \<open>
  The body of the loop of \<open>run_one\<close>: whether the completion is that of the eventfd, the operation whose last
  completion it is, and the state after the update of the operation.
\<close>

definition cqe_op :: "io_uring_cqe \<Rightarrow> u64" where
  "cqe_op cqe = cqe_user_data cqe AND NOT 1"

definition is_timeout_cqe :: "io_uring_cqe \<Rightarrow> bool" where
  "is_timeout_cqe cqe \<longleftrightarrow> cqe_user_data cqe AND 1 \<noteq> 0"

definition complete_op :: "io_uring_cqe \<Rightarrow> Operation \<Rightarrow> Operation" where
  "complete_op cqe op =
    (let res = sint (cqe_res cqe);
         op = (if is_timeout_cqe cqe
               then if res = - e_time then op\<lparr>op_result := - e_time\<rparr> else op
               else let op = op\<lparr>op_cqe_flags := cqe_flags cqe\<rparr> in
                 if res \<noteq> - e_canceled
                 then let op = op\<lparr>op_result := res\<rparr> in
                   if flag_set (cqe_flags cqe) IORING_CQE_F_BUFFER
                   then op\<lparr>op_bid := ucast (drop_bit 16 (cqe_flags cqe)), op_flags := op_flags op OR F_HAS_BUFFER\<rparr>
                   else op
                 else op)
     in op\<lparr>op_ref_count := op_ref_count op - 1\<rparr>)"

definition handle_cqe :: "(u64 \<Rightarrow> 'k Ring \<Rightarrow> 'k Ring) \<Rightarrow> io_uring_cqe \<Rightarrow> bool \<times> 'k Ring \<Rightarrow> bool \<times> 'k Ring" where
  "handle_cqe resume cqe = (\<lambda>(need_rearm, r).
    if cqe_op cqe = ev_op r then (True, r)
    else if cqe_op cqe \<noteq> 0
    then let r = op_update (cqe_op cqe) (complete_op cqe) r;
             op = ops r (cqe_op cqe)
         in (need_rearm, if op_ref_count op = 0 \<and> op_handle op \<noteq> 0 then resume (op_handle op) r else r)
    else (need_rearm, r))"

partial_function (option) handle_cqes ::
  "(u64 \<Rightarrow> 'k Ring \<Rightarrow> 'k Ring) \<Rightarrow> io_uring_cqe_iter \<Rightarrow> u32 \<Rightarrow> bool \<times> 'k Ring \<Rightarrow> (u32 \<times> bool \<times> 'k Ring) option" where
  "handle_cqes resume iter count s = (case io_uring_cqe_iter_next iter of
      None \<Rightarrow> Some (count, s)
    | Some (cqe, iter) \<Rightarrow> handle_cqes resume iter (count + 1) (handle_cqe resume cqe s))"

definition run_external_tasks :: "(u64 \<Rightarrow> 'k Ring \<Rightarrow> bool) \<Rightarrow> (u64 \<Rightarrow> 'k Ring \<Rightarrow> 'k Ring) \<Rightarrow> 'k Ring \<Rightarrow> 'k Ring" where
  "run_external_tasks is_done resume r =
    (let tasks = external_tasks r in
     fold (\<lambda>h r. if h \<noteq> 0 \<and> \<not> is_done h r then resume h r else r) tasks (r\<lparr>notified := False, external_tasks := []\<rparr>))"

text \<open>\<open>post\<close> by a thread that is not disturbed, and whether it wrote to the eventfd.\<close>

definition post :: "u64 \<Rightarrow> 'k Ring \<Rightarrow> 'k Ring \<times> bool" where
  "post h r = (r\<lparr>external_tasks := external_tasks r @ [h], notified := True\<rparr>, \<not> notified r)"

definition run_one ::
  "'k enter \<Rightarrow> (u64 \<Rightarrow> 'k Ring \<Rightarrow> bool) \<Rightarrow> (u64 \<Rightarrow> 'k Ring \<Rightarrow> 'k Ring) \<Rightarrow> 'k Ring \<Rightarrow> 'k Ring outcome option" where
  "run_one enter is_done resume r =
    (let (ret, k, u) = io_uring_submit_and_wait enter 1 (kernel r, uring r);
         r = r\<lparr>kernel := k, uring := u\<rparr> in
     map_option (\<lambda>(count, need_rearm, r).
       let r = r\<lparr>uring := io_uring_cq_advance (uring r) count\<rparr> in
       if need_rearm then arm_eventfd_read enter (run_external_tasks is_done resume r) else Ok r)
     (handle_cqes resume (io_uring_cqe_iter_init u) 0 (False, r)))"

subsection \<open>Buffers\<close>

definition get_buffer :: "u16 \<Rightarrow> 'k Ring \<Rightarrow> u64" where
  "get_buffer bid r = buffer_mem r + ucast (ucast bid * BUF_SIZE)"

definition recycle_buffer :: "'k enter \<Rightarrow> u16 \<Rightarrow> 'k Ring \<Rightarrow> 'k Ring outcome" where
  "recycle_buffer enter bid r =
    (let addr = get_buffer bid r in
     if using_buf_ring r
     then (case buf_ring r of
         None \<Rightarrow> Undefined
       | Some br \<Rightarrow> Ok (r\<lparr>buf_ring := Some (io_uring_buf_ring_advance
             (io_uring_buf_ring_add br addr BUF_SIZE bid (BUF_COUNT - 1) 0) 1)\<rparr>))
     else (case get_sqe_retry enter r of
         None \<Rightarrow> Undefined
       | Some (sqe, r) \<Rightarrow> Ok (sqe_prep sqe (\<lambda>s. io_uring_prep_provide_buffers (io_uring_sqe_set_data s 0) addr BUF_SIZE 1
             (ucast BGID) (ucast bid)) r)))"

text \<open>The fallback of \<open>setup_buffers\<close>: the kernel is given all buffers by a request.\<close>

definition setup_legacy :: "'k enter \<Rightarrow> 'k Ring \<Rightarrow> 'k Ring outcome" where
  "setup_legacy enter r = (case get_sqe_retry enter (r\<lparr>using_buf_ring := False\<rparr>) of
      None \<Rightarrow> Undefined
    | Some (sqe, r) \<Rightarrow> Ok (submit_queue enter (sqe_prep sqe
        (\<lambda>s. io_uring_prep_provide_buffers s (buffer_mem r) BUF_SIZE BUF_COUNT (ucast BGID) 0) r)))"

text \<open>
  The system calls of \<open>setup_buffers\<close>: the memory of \<open>aligned_alloc\<close> (0 on failure), the ring memory of
  \<open>posix_memalign\<close> with its contents, and the result of the registration.
\<close>

definition setup_buffers ::
  "'k enter \<Rightarrow> u64 \<Rightarrow> io_uring_buf_ring option \<Rightarrow> int \<Rightarrow> 'k Ring \<Rightarrow> 'k Ring outcome" where
  "setup_buffers enter mem ring_mem register_result r =
    (if mem = 0 then Terminated
     else let r = r\<lparr>buffer_mem := mem\<rparr> in
       (case ring_mem of
         Some br \<Rightarrow> if register_result = 0
           then let br = io_uring_buf_ring_init br;
                    br = fold (\<lambda>i br. io_uring_buf_ring_add br (mem + ucast (of_nat i * BUF_SIZE)) BUF_SIZE (of_nat i)
                      (BUF_COUNT - 1) (of_nat i)) [0..<unat BUF_COUNT] br
                in Ok (r\<lparr>using_buf_ring := True, buf_ring := Some (io_uring_buf_ring_advance br BUF_COUNT)\<rparr>)
           else setup_legacy enter (r\<lparr>buf_ring := None\<rparr>)
       | None \<Rightarrow> setup_legacy enter r))"

text \<open>The constructor, with the result of \<open>io_uring_queue_init\<close> and the file descriptor of \<open>eventfd\<close>.\<close>

definition ring_new ::
  "'k enter \<Rightarrow> int \<times> io_uring \<Rightarrow> u64 \<Rightarrow> io_uring_buf_ring option \<Rightarrow> int \<Rightarrow> u32 \<Rightarrow> 'k Ring \<Rightarrow> 'k Ring outcome" where
  "ring_new enter init mem ring_mem register_result fd r =
    (if fst init < 0 then Terminated
     else (case setup_buffers enter mem ring_mem register_result (r\<lparr>uring := snd init, notified := False, external_tasks := [],
         buffer_mem := 0, buf_ring := None, using_buf_ring := False\<rparr>) of
       Ok r \<Rightarrow> arm_eventfd_read enter (r\<lparr>ev_fd := fd\<rparr>)
     | x \<Rightarrow> x))"

section \<open>Submission\<close>

lemma sqe_write_write [simp]: "sqe_write i g (sqe_write i f u) = sqe_write i (\<lambda>s. g (f s)) u"
  by (cases "unat i < length (sqes (sq u))") (simp_all add: sqe_write_def linorder_not_less list_update_beyond)

lemma sqes_write [simp]: "sqes (sq (sqe_write i f u)) = (sqes (sq u))[unat i := f (sqes (sq u) ! unat i)]"
  by (simp add: sqe_write_def)

lemma sq_slots_write [simp]:
  "sq_slots (sqe_write i f u) = sq_slots u" "sq_ok (sqe_write i f u) = sq_ok u"
  "io_uring_sq_ready (sqe_write i f u) = io_uring_sq_ready u"
  "sq_ring_entries (sq (sqe_write i f u)) = sq_ring_entries (sq u)"
  by (simp_all add: sqe_write_def sq_slots_def sq_ok_def io_uring_sq_ready_def io_uring_load_sq_head_def)

text \<open>An entry that was obtained and filled in is the last of the queue.\<close>

lemma get_sqe_prep:
  assumes "sq_ok u" "io_uring_get_sqe u = Some (i, u')"
  shows "sq_entries (sqe_write i f u') = sq_entries u @ [f (io_uring_initialize_sqe (sqes (sq u) ! unat i))]"
    and "sq_ok (sqe_write i f u')"
    and "sq_ring_entries (sq (sqe_write i f u')) = sq_ring_entries (sq u)"
  using get_sqe_Some [OF assms]
  by (auto simp: sq_entries_def intro: nth_list_update_neq)

definition queue_room :: "io_uring \<Rightarrow> nat" where
  "queue_room u = unat (sq_ring_entries (sq u)) - unat (io_uring_sq_ready u)"

lemma get_sqe_free:
  assumes "sq_ok u" "0 < queue_room u"
  obtains i u' where "io_uring_get_sqe u = Some (i, u')"
  using get_sqe_None [OF assms(1)] assms(2) by (cases "io_uring_get_sqe u") (auto simp: queue_room_def)

text \<open>The ring as \<open>get_sqe_retry\<close> finds it, after the submission when it was full.\<close>

definition with_room :: "'k enter \<Rightarrow> 'k Ring \<Rightarrow> 'k Ring" where
  "with_room enter r = (if io_uring_get_sqe (uring r) = None then submit_queue enter r else r)"

lemma get_sqe_retry_eq: "get_sqe_retry enter r = get_sqe (with_room enter r)"
  by (auto simp: get_sqe_retry_def with_room_def get_sqe_def split: option.split)

definition requests :: "u64 \<Rightarrow> (io_uring_sqe \<Rightarrow> io_uring_sqe) \<Rightarrow> u32 \<Rightarrow> io_uring_sqe list" where
  "requests op prep ms =
    (let io = (prep zero_sqe)\<lparr>sqe_user_data := op\<rparr> in
     if ms = 0 then [io]
     else [io\<lparr>sqe_flags := sqe_flags io OR ucast IOSQE_IO_LINK\<rparr>,
           (io_uring_prep_link_timeout zero_sqe (op + ts_offset) 0)\<lparr>sqe_user_data := op OR 1\<rparr>])"

lemma set_data_fresh:
  "fresh_prep prep \<Longrightarrow> io_uring_sqe_set_data (prep (io_uring_initialize_sqe s)) d = (prep zero_sqe)\<lparr>sqe_user_data := d\<rparr>"
  by (simp add: fresh_prepD io_uring_sqe_set_data_def)

lemma submit_plain:
  assumes "sq_ok (uring (with_room enter r))" "0 < queue_room (uring (with_room enter r))" "fresh_prep prep"
    "op_timeout_ms (ops (with_room enter r) op) = 0"
  shows "\<exists>r'. submit enter op prep r = Ok r' \<and> sq_ok (uring r') \<and> ops r' = ops (with_room enter r) \<and>
    sq_entries (uring r') = sq_entries (uring (with_room enter r)) @ [(prep zero_sqe)\<lparr>sqe_user_data := op\<rparr>]"
proof -
  let ?r = "with_room enter r"
  obtain i u where g: "io_uring_get_sqe (uring ?r) = Some (i, u)"
    by (rule get_sqe_free [OF assms(1, 2)])
  then show ?thesis
    using assms(4) get_sqe_prep [OF assms(1) g]
    by (simp add: submit_def get_sqe_retry_eq get_sqe_def sqe_prep_def set_data_fresh [OF assms(3)] Let_def)
qed

lemma submit_linked:
  assumes "sq_ok (uring (with_room enter r))" "1 < queue_room (uring (with_room enter r))" "fresh_prep prep"
    "op_timeout_ms (ops (with_room enter r) op) = ms" "0 < ms"
  shows "\<exists>r'. submit enter op prep r = Ok r' \<and> sq_ok (uring r') \<and>
    ops r' = (ops (with_room enter r))(op := (ops (with_room enter r) op)\<lparr>op_tv_sec := ucast (ms div 1000),
      op_tv_nsec := ucast (ms mod 1000 * 1000000), op_ref_count := 2,
      op_flags := op_flags (ops (with_room enter r) op) OR F_IS_LINKED\<rparr>) \<and>
    sq_entries (uring r') = sq_entries (uring (with_room enter r)) @ requests op prep ms"
proof -
  let ?r = "with_room enter r" and ?u = "uring (with_room enter r)"
  let ?f = "\<lambda>s. (io_uring_sqe_set_data (prep s) op)\<lparr>sqe_flags := sqe_flags (io_uring_sqe_set_data (prep s) op) OR ucast IOSQE_IO_LINK\<rparr>"
  let ?g = "\<lambda>s. io_uring_sqe_set_data (io_uring_prep_link_timeout s (op + ts_offset) 0) (op OR 1)"
  obtain i u1 where g1: "io_uring_get_sqe ?u = Some (i, u1)"
    by (rule get_sqe_free [OF assms(1)]) (use assms(2) in simp)
  note one = get_sqe_prep [OF assms(1) g1, of ?f]
  have "0 < queue_room (sqe_write i ?f u1)"
    using arg_cong [OF one(1), of length] one(3) assms(2) by (simp add: queue_room_def)
  then obtain j u2 where g2: "io_uring_get_sqe (sqe_write i ?f u1) = Some (j, u2)"
    by (rule get_sqe_free [OF one(2)])
  note two = get_sqe_prep [OF one(2) g2, of ?g]
  have e: "?f (io_uring_initialize_sqe s) = hd (requests op prep ms)"
    "?g (io_uring_initialize_sqe s) = requests op prep ms ! 1" for s
    using assms(5) set_data_fresh [OF assms(3)] set_data_fresh [OF preps_fresh(4)]
    by (auto simp: requests_def Let_def)
  have "requests op prep ms = [hd (requests op prep ms), requests op prep ms ! 1]"
    using assms(5) by (simp add: requests_def Let_def)
  then have "sq_entries (sqe_write j ?g u2) = sq_entries ?u @ requests op prep ms"
    unfolding two(1) one(1) e by simp
  moreover have "submit enter op prep r = Ok (sqe_prep j ?g (op_update op (\<lambda>p. p\<lparr>op_tv_sec := ucast (ms div 1000),
      op_tv_nsec := ucast (ms mod 1000 * 1000000), op_ref_count := 2, op_flags := op_flags p OR F_IS_LINKED\<rparr>)
      (?r\<lparr>uring := u2\<rparr>)))"
    using assms(4, 5) g1 g2
    by (simp add: submit_def get_sqe_retry_eq get_sqe_def sqe_prep_def op_update_def Let_def)
  ultimately show ?thesis
    using two(2) by (simp add: sqe_prep_def op_update_def)
qed

lemma unat_ucast_up: "unat (ucast (w :: u32) :: u64) = unat w"
  by (simp add: unsigned_ucast_eq take_bit_nat_eq_self_iff) (rule less_trans [OF unsigned_less], simp)

lemma timespec_of_ms:
  "unat (ucast ((ms :: u32) div 1000) :: u64) = unat ms div 1000"
  "unat (ucast ((ms :: u32) mod 1000 * 1000000) :: u64) = unat ms mod 1000 * 1000000"
proof -
  show "unat (ucast (ms div 1000) :: u64) = unat ms div 1000"
    by (simp only: unat_ucast_up unat_div_distrib) simp
  have m: "unat (ms mod 1000) = unat ms mod 1000"
    by (simp only: unat_mod_distrib) simp
  have "unat ms mod 1000 * 1000000 \<le> 999 * 1000000"
    by (intro mult_right_mono) (use mod_less_divisor [of 1000 "unat ms"] in linarith, simp)
  then have "unat (ms mod 1000 * 1000000) = unat ms mod 1000 * 1000000"
    by (simp add: unat_mult_lem [THEN iffD1] m unat_word_ariths)
  then show "unat (ucast (ms mod 1000 * 1000000) :: u64) = unat ms mod 1000 * 1000000"
    by (simp only: unat_ucast_up)
qed

lemma nanoseconds_of_ms:
  "unat (ucast ((ms :: u32) div 1000) :: u64) * 10 ^ 9 + unat (ucast (ms mod 1000 * 1000000) :: u64) = unat ms * 10 ^ 6"
  "unat (ucast ((ms :: u32) mod 1000 * 1000000) :: u64) < 10 ^ 9"
proof -
  have "n div 1000 * 1000000000 + n mod 1000 * 1000000 = n * 1000000" for n :: nat
  proof -
    have "n div 1000 * 1000000000 + n mod 1000 * 1000000 = (n div 1000 * 1000 + n mod 1000) * 1000000"
      by (simp only: add_mult_distrib mult.assoc)
    then show ?thesis by (simp only: div_mult_mod_eq)
  qed
  moreover have "n mod 1000 * 1000000 < 1000000000" for n :: nat
    using mod_less_divisor [of 1000 n] by linarith
  ultimately show "unat (ucast (ms div 1000) :: u64) * 10 ^ 9 + unat (ucast (ms mod 1000 * 1000000) :: u64) = unat ms * 10 ^ 6"
    "unat (ucast (ms mod 1000 * 1000000) :: u64) < 10 ^ 9"
    unfolding timespec_of_ms by simp_all
qed

text \<open>\<open>Ring::submit\<close> with enough room in the queue: the request is the last of the queue and carries the address of the
  operation, whatever its slot held before. With a timeout it is linked to a second request right behind it,
  whose time is exactly the given number of milliseconds and whose address is marked, and two completions
  are expected. No other operation is touched.\<close>

theorem submit_queues:
  assumes "s = with_room enter r" "sq_ok (uring s)" "fresh_prep prep" "ms = op_timeout_ms (ops s op)"
    and "(if ms = 0 then 1 else 2) \<le> queue_room (uring s)"
  shows "\<exists>r'. submit enter op prep r = Ok r' \<and> sq_ok (uring r') \<and>
    sq_entries (uring r') = sq_entries (uring s) @ requests op prep ms \<and>
    op_ref_count (ops r' op) = (if ms = 0 then op_ref_count (ops s op) else 2) \<and>
    op_handle (ops r' op) = op_handle (ops s op) \<and> op_result (ops r' op) = op_result (ops s op) \<and>
    (ms = 0 \<or> unat (op_tv_sec (ops r' op)) * 10 ^ 9 + unat (op_tv_nsec (ops r' op)) = unat ms * 10 ^ 6 \<and>
      unat (op_tv_nsec (ops r' op)) < 10 ^ 9) \<and>
    (ops r')(op := ops s op) = ops s"
proof (cases "ms = 0")
  case True
  then show ?thesis
    using submit_plain [of enter r prep op] assms by (auto simp: requests_def Let_def)
next
  case False
  then have "0 < ms" by (simp add: word_gt_0)
  then show ?thesis
    using submit_linked [of enter r prep op ms] assms False nanoseconds_of_ms [of ms] by auto
qed

text \<open>A driver with a given ring and one operation at address 64 with a timeout, and a kernel that does nothing.\<close>

definition sample_driver :: "u32 \<Rightarrow> io_uring \<Rightarrow> unit Ring" where
  "sample_driver ms u =
     \<lparr>uring = u, kernel = (),
      ops = (\<lambda>_. \<lparr>op_handle = 7, op_result = 0, op_bid = 0, op_ref_count = 1, op_flags = 0, op_cqe_flags = 0,
        op_tv_sec = ucast ms, op_tv_nsec = 0\<rparr>),
      ev_fd = 3, ev_buf = 128, ev_op = 256, notified = False, external_tasks = [], buffer_mem = 8192,
      buf_ring = None, using_buf_ring = False\<rparr>"

definition idle_kernel :: "unit enter" where
  "idle_kernel n w fl s = (0, s)"

lemma sample_room: "queue_room sample_ring = 2" "io_uring_get_sqe sample_ring \<noteq> None" "sq_entries sample_ring = []"
  by code_simp+

text \<open>The second entry, for the timeout, is taken without a check: with exactly one free entry left an operation with a
  timeout is prepared through a null pointer.\<close>

theorem submit_last_entry:
  assumes "sq_ok (uring r)" "queue_room (uring r) = 1" "op_timeout_ms (ops r op) \<noteq> 0"
  shows "submit enter op prep r = Undefined"
proof -
  obtain i u where g: "io_uring_get_sqe (uring r) = Some (i, u)"
    by (rule get_sqe_free [OF assms(1)]) (use assms(2) in simp)
  then have "with_room enter r = r" by (simp add: with_room_def)
  moreover have "io_uring_get_sqe (sqe_write i f u) = None" for f
  proof -
    note w = get_sqe_prep [OF assms(1) g, of f]
    have "unat (io_uring_sq_ready (sqe_write i f u)) = unat (sq_ring_entries (sq (sqe_write i f u)))"
      using arg_cong [OF w(1), of length] w(3) assms(2) by (simp add: queue_room_def)
    then show ?thesis using get_sqe_None [OF w(2)] by simp
  qed
  ultimately show ?thesis
    using g assms(3) by (simp add: submit_def get_sqe_retry_eq get_sqe_def sqe_prep_def word_gt_0 Let_def)
qed

section \<open>Completions\<close>

text \<open>
  The completions that the kernel has posted and the driver has not seen, in order. The rings of the driver
  are set up without 32-byte completions, so each takes one slot.
\<close>

definition cq_entries :: "io_uring \<Rightarrow> io_uring_cqe list" where
  "cq_entries u = map (\<lambda>i. cqes (cq u) ! unat (push_bit (io_uring_cqe_shift u) i))
     (ring_slots (cq_ring_mask (cq u)) (cq_khead (cq u)) (unat (io_uring_cq_ready u)))"

definition cq_plain :: "io_uring \<Rightarrow> bool" where
  "cq_plain u \<longleftrightarrow> (\<forall>c\<in>set (cq_entries u). \<not> flag_set (cqe_flags c) IORING_CQE_F_32)"

definition iter_entries :: "io_uring_cqe_iter \<Rightarrow> io_uring_cqe list" where
  "iter_entries it = map (\<lambda>i. it_cqes it ! unat (push_bit (it_shift it) i))
     (ring_slots (it_mask it) (it_head it) (unat (it_tail it - it_head it)))"

lemma iter_init_entries: "iter_entries (io_uring_cqe_iter_init u) = cq_entries u"
  by (simp add: iter_entries_def io_uring_cqe_iter_init_def cq_entries_def io_uring_cq_ready_def)

lemma iter_next_None: "io_uring_cqe_iter_next it = None \<longleftrightarrow> iter_entries it = []"
  using unat_eq_zero [of "it_tail it - it_head it"]
  by (auto simp: io_uring_cqe_iter_next_def iter_entries_def ring_slots_def Let_def)

lemma iter_next_Some:
  assumes "iter_entries it = c # cs" "\<not> flag_set (cqe_flags c) IORING_CQE_F_32"
  obtains it' where "io_uring_cqe_iter_next it = Some (c, it')" "iter_entries it' = cs"
proof -
  have n: "unat (it_tail it - it_head it) = Suc (length cs)"
    using arg_cong [OF assms(1), of length] by (simp add: iter_entries_def)
  then have ne: "it_head it \<noteq> it_tail it" by auto
  have n': "unat (it_tail it - (it_head it + 1)) = length cs"
    using unat_diff_sub [of 1 "it_tail it" "it_head it"] n by simp
  have "c = it_cqes it ! unat (push_bit (it_shift it) (it_head it AND it_mask it))"
    "cs = map (\<lambda>i. it_cqes it ! unat (push_bit (it_shift it) i)) (ring_slots (it_mask it) (it_head it + 1) (length cs))"
    using assms(1) by (simp_all add: iter_entries_def n ring_slots_Cons)
  then show ?thesis
    using that [of "it\<lparr>it_head := it_head it + 1\<rparr>"] ne assms(2) n'
    by (simp add: io_uring_cqe_iter_next_def iter_entries_def Let_def)
qed

text \<open>The loop of \<open>run_one\<close> handles each of them once, in order, and counts them.\<close>

lemma handle_cqes_list:
  assumes "iter_entries it = cs" "\<forall>c\<in>set cs. \<not> flag_set (cqe_flags c) IORING_CQE_F_32"
  shows "handle_cqes resume it n s = Some (n + of_nat (length cs), fold (handle_cqe resume) cs s)"
  using assms
proof (induction cs arbitrary: it n s)
  case Nil
  then have "io_uring_cqe_iter_next it = None"
    by (simp add: iter_next_None)
  then show ?case
    by (simp add: handle_cqes.simps)
next
  case (Cons c cs)
  obtain it' where it': "io_uring_cqe_iter_next it = Some (c, it')" "iter_entries it' = cs"
    by (rule iter_next_Some [OF Cons.prems(1)]) (use Cons.prems(2) in auto)
  have "handle_cqes resume it n s = handle_cqes resume it' (n + 1) (handle_cqe resume c s)"
    by (subst handle_cqes.simps) (simp add: it'(1))
  also have "\<dots> = Some (n + 1 + of_nat (length cs), fold (handle_cqe resume) cs (handle_cqe resume c s))"
    by (rule Cons.IH [OF it'(2)]) (use Cons.prems(2) in simp)
  finally show ?case by (simp add: add.assoc)
qed

lemma handle_cqes_fold:
  assumes "cq_plain u"
  shows "handle_cqes resume (io_uring_cqe_iter_init u) 0 s =
    Some (io_uring_cq_ready u, fold (handle_cqe resume) (cq_entries u) s)"
proof -
  have "length (cq_entries u) = unat (io_uring_cq_ready u)"
    by (simp add: cq_entries_def)
  then show ?thesis
    using handle_cqes_list [OF iter_init_entries [of u], of resume 0 s] assms by (simp add: cq_plain_def)
qed

text \<open>
  What \<open>handle_cqe\<close> does for one operation: it is the one of the completion, and its last completion runs the
  coroutine with the result. The trace of a sequence of completions lists the operations whose coroutines were
  run, with their results.
\<close>

fun resumed :: "(u64 \<Rightarrow> 'k Ring \<Rightarrow> 'k Ring) \<Rightarrow> io_uring_cqe list \<Rightarrow> bool \<times> 'k Ring \<Rightarrow> (u64 \<times> u64 \<times> int) list" where
  "resumed resume [] s = []"
| "resumed resume (c # cs) s =
    (let op = complete_op c (ops (snd s) (cqe_op c)) in
     (if cqe_op c \<noteq> ev_op (snd s) \<and> cqe_op c \<noteq> 0 \<and> op_ref_count op = 0 \<and> op_handle op \<noteq> 0
      then [(cqe_op c, op_handle op, op_result op)] else []) @
     resumed resume cs (handle_cqe resume c s))"

text \<open>The result that the documentation of linked timeouts gives to the pair: the timeout if it fired, else the result of the
  operation. A request that was cancelled otherwise leaves the initial result, 0.\<close>

definition io_result :: "io_uring_cqe \<Rightarrow> int" where
  "io_result io = (if sint (cqe_res io) = - e_canceled then 0 else sint (cqe_res io))"

definition linked_result :: "io_uring_cqe \<Rightarrow> io_uring_cqe \<Rightarrow> int" where
  "linked_result io timeout = (if sint (cqe_res timeout) = - e_time then - e_time else io_result io)"

definition untouched_in_flight :: "(u64 \<Rightarrow> 'k Ring \<Rightarrow> 'k Ring) \<Rightarrow> u64 \<Rightarrow> bool" where
  "untouched_in_flight resume p \<longleftrightarrow>
     (\<forall>h r. ev_op (resume h r) = ev_op r \<and> (op_ref_count (ops r p) \<noteq> 0 \<longrightarrow> ops (resume h r) p = ops r p))"

lemma handle_cqe_other:
  assumes "untouched_in_flight resume p" "cqe_op c \<noteq> p" "op_ref_count (ops r p) \<noteq> 0"
  shows "ops (snd (handle_cqe resume c (b, r))) p = ops r p"
  using assms by (auto simp: handle_cqe_def untouched_in_flight_def op_update_def Let_def)

lemma handle_cqe_ev_op:
  assumes "untouched_in_flight resume p"
  shows "ev_op (snd (handle_cqe resume c s)) = ev_op (snd s)"
  using assms by (auto simp: handle_cqe_def untouched_in_flight_def op_update_def Let_def split: prod.splits)

lemma handle_cqe_own:
  assumes "cqe_op c = p" "p \<noteq> ev_op r" "p \<noteq> 0" "op_ref_count (complete_op c (ops r p)) \<noteq> 0"
  shows "ops (snd (handle_cqe resume c (b, r))) p = complete_op c (ops r p)"
  using assms by (auto simp: handle_cqe_def op_update_def Let_def)

lemma resumed_append:
  "resumed resume (xs @ ys) s = resumed resume xs s @ resumed resume ys (fold (handle_cqe resume) xs s)"
  by (induction xs arbitrary: s) (simp_all add: Let_def)

lemma resumed_others:
  "\<forall>c\<in>set cs. cqe_op c \<noteq> p \<Longrightarrow> filter (\<lambda>e. fst e = p) (resumed resume cs s) = []"
  by (induction cs arbitrary: s) (simp_all add: Let_def)

lemma fold_others:
  assumes "untouched_in_flight resume p" "\<forall>c\<in>set cs. cqe_op c \<noteq> p" "op_ref_count (ops (snd s) p) \<noteq> 0"
  shows "ops (snd (fold (handle_cqe resume) cs s)) p = ops (snd s) p \<and>
    ev_op (snd (fold (handle_cqe resume) cs s)) = ev_op (snd s)"
  using assms(2, 3)
proof (induction cs arbitrary: s)
  case (Cons c cs)
  then have "ops (snd (handle_cqe resume c s)) p = ops (snd s) p"
    using handle_cqe_other [OF assms(1), of c "snd s" "fst s"] by simp
  then show ?case
    using Cons handle_cqe_ev_op [OF assms(1)] by simp
qed simp

text \<open>The last completion of an operation runs its coroutine, and later ones of other operations do not.\<close>

lemma resumed_last:
  assumes "untouched_in_flight resume p" "p \<noteq> 0" "p \<noteq> ev_op (snd s)" "op_handle (ops (snd s) p) \<noteq> 0"
    and "op_ref_count (ops (snd s) p) = 1" "filter (\<lambda>c. cqe_op c = p) cs = [c]"
  shows "filter (\<lambda>e. fst e = p) (resumed resume cs s) =
    [(p, op_handle (ops (snd s) p), op_result (complete_op c (ops (snd s) p)))]"
proof -
  obtain us vs where cs: "cs = us @ c # vs" "\<forall>u\<in>set us. cqe_op u \<noteq> p" "cqe_op c = p" "\<forall>v\<in>set vs. cqe_op v \<noteq> p"
    using assms(6) by (auto simp: filter_eq_Cons_iff filter_empty_conv [symmetric] eq_commute [of "[]"])
  let ?t = "fold (handle_cqe resume) us s"
  have t: "ops (snd ?t) p = ops (snd s) p" "ev_op (snd ?t) = ev_op (snd s)"
    using fold_others [OF assms(1) cs(2), of s] assms(5) by simp_all
  have "op_ref_count (complete_op c (ops (snd s) p)) = 0" "op_handle (complete_op c (ops (snd s) p)) = op_handle (ops (snd s) p)"
    using assms(5) by (simp_all add: complete_op_def Let_def)
  then show ?thesis
    using assms(2-4) cs t by (simp add: resumed_append resumed_others Let_def)
qed

lemma resumed_first:
  assumes "untouched_in_flight resume p" "p \<noteq> 0" "p \<noteq> ev_op (snd s)" "op_ref_count (ops (snd s) p) = 2"
    and "filter (\<lambda>c. cqe_op c = p) cs = [c, d]"
  obtains us vs t where "cs = us @ c # vs" "filter (\<lambda>c. cqe_op c = p) vs = [d]" "ev_op (snd t) = ev_op (snd s)"
    "ops (snd t) p = complete_op c (ops (snd s) p)" "op_ref_count (ops (snd t) p) = 1"
    "filter (\<lambda>e. fst e = p) (resumed resume cs s) = filter (\<lambda>e. fst e = p) (resumed resume vs t)"
proof -
  obtain us vs where cs: "cs = us @ c # vs" "\<forall>u\<in>set us. cqe_op u \<noteq> p" "cqe_op c = p" "filter (\<lambda>c. cqe_op c = p) vs = [d]"
    using assms(5) filter_eq_ConsD [OF assms(5)] by metis
  let ?t = "fold (handle_cqe resume) us s"
  let ?u = "handle_cqe resume c ?t"
  have t: "ops (snd ?t) p = ops (snd s) p" "ev_op (snd ?t) = ev_op (snd s)"
    using fold_others [OF assms(1) cs(2), of s] assms(4) by simp_all
  have one: "op_ref_count (complete_op c (ops (snd s) p)) = 1"
    using assms(4) by (simp add: complete_op_def Let_def)
  have u: "ops (snd ?u) p = complete_op c (ops (snd s) p)" "ev_op (snd ?u) = ev_op (snd s)"
    using handle_cqe_own [OF cs(3), of "snd ?t" resume "fst ?t"] handle_cqe_ev_op [OF assms(1), of c ?t] t one assms(2, 3)
    by simp_all
  have "filter (\<lambda>e. fst e = p) (resumed resume cs s) = filter (\<lambda>e. fst e = p) (resumed resume vs ?u)"
    using cs(2) one t cs(3) by (simp add: cs(1) resumed_append resumed_others Let_def)
  then show ?thesis
    using that [OF cs(1, 4) u(2, 1)] u(1) one by simp
qed

lemma complete_results:
  "\<not> is_timeout_cqe io \<Longrightarrow> op_result op = 0 \<Longrightarrow> op_result (complete_op io op) = io_result io"
  "\<not> is_timeout_cqe io \<Longrightarrow> is_timeout_cqe to \<Longrightarrow> op_result op = 0 \<Longrightarrow>
    op_result (complete_op to (complete_op io op)) = linked_result io to"
  "\<not> is_timeout_cqe io \<Longrightarrow> is_timeout_cqe to \<Longrightarrow> op_result op = 0 \<Longrightarrow>
    sint (cqe_res to) = - e_time \<longrightarrow> sint (cqe_res io) = - e_canceled \<Longrightarrow>
    op_result (complete_op io (complete_op to op)) = linked_result io to"
  by (auto simp: complete_op_def io_result_def linked_result_def Let_def)

lemma complete_handle [simp]: "op_handle (complete_op c op) = op_handle op"
  by (simp add: complete_op_def Let_def)

text \<open>
  The completions an operation gets: one when it was submitted alone; with a timeout also that of the timeout, before or
  after, and the kernel cancels the operation when the timeout fires. \<open>completes\<close> gives the result that the
  coroutine must see.
\<close>

fun completes :: "io_uring_cqe list \<Rightarrow> Operation \<Rightarrow> int \<Rightarrow> bool" where
  "completes [io] op res \<longleftrightarrow> op_ref_count op = 1 \<and> \<not> is_timeout_cqe io \<and> res = io_result io"
| "completes [c, d] op res \<longleftrightarrow> op_ref_count op = 2 \<and> is_timeout_cqe c \<noteq> is_timeout_cqe d \<and>
    (let (io, to) = (if is_timeout_cqe c then (d, c) else (c, d)) in
     (sint (cqe_res to) = - e_time \<longrightarrow> sint (cqe_res io) = - e_canceled) \<and> res = linked_result io to)"
| "completes _ op res \<longleftrightarrow> False"

text \<open>The trace lists the handles that \<open>resume\<close> is called with, in the order of the calls.\<close>

lemma resumed_calls:
  assumes "\<And>h r. kernel (resume h r) = kernel r @ [h]"
  shows "kernel (snd (fold (handle_cqe resume) cs s)) = kernel (snd s) @ map (fst \<circ> snd) (resumed resume cs s)"
  by (induction cs arbitrary: s) (auto simp: assms handle_cqe_def op_update_def Let_def split: prod.split)

text \<open>An operation in flight is resumed exactly once by its completions, whatever completions of other operations are
  between them and whichever of the operation and its timeout completes first: with \<open>-ETIME\<close> when the timeout fired, else
  with the result of the operation.\<close>

lemma resumed_once:
  assumes "untouched_in_flight resume p" "p \<noteq> 0" "p \<noteq> ev_op (snd s)" "op_handle (ops (snd s) p) \<noteq> 0"
    and "op_result (ops (snd s) p) = 0"
    and "completes (filter (\<lambda>c. cqe_op c = p) cs) (ops (snd s) p) res"
  shows "filter (\<lambda>e. fst e = p) (resumed resume cs s) = [(p, op_handle (ops (snd s) p), res)]"
  using assms(6)
proof (cases "(filter (\<lambda>c. cqe_op c = p) cs, ops (snd s) p, res)" rule: completes.cases)
  case (1 io)
  then show ?thesis
    using resumed_last [OF assms(1-4), of cs io] assms(5, 6) complete_results(1) by simp
next
  case (2 c d)
  then have "filter (\<lambda>c. cqe_op c = p) cs = [c, d]" and rc: "op_ref_count (ops (snd s) p) = 2"
    and res: "op_result (complete_op d (complete_op c (ops (snd s) p))) = res"
    using assms(5, 6) complete_results(2, 3) by (auto simp: Let_def split: if_splits)
  then obtain us vs t where t: "filter (\<lambda>c. cqe_op c = p) vs = [d]" "ev_op (snd t) = ev_op (snd s)"
    "ops (snd t) p = complete_op c (ops (snd s) p)" "op_ref_count (ops (snd t) p) = 1"
    "filter (\<lambda>e. fst e = p) (resumed resume cs s) = filter (\<lambda>e. fst e = p) (resumed resume vs t)"
    by (metis resumed_first [OF assms(1-3)])
  then show ?thesis
    using resumed_last [OF assms(1, 2), of t vs d] assms(3, 4) res by simp
qed auto

definition sample_cqes :: "io_uring_cqe list" where
  "sample_cqes =
     [\<lparr>cqe_user_data = 65, cqe_res = - 62, cqe_flags = 0\<rparr>, \<lparr>cqe_user_data = 96, cqe_res = 5, cqe_flags = 0\<rparr>,
      \<lparr>cqe_user_data = 64, cqe_res = - 125, cqe_flags = 0\<rparr>]"

definition sample_in_flight :: "unit Ring" where
  "sample_in_flight = op_update 64 (\<lambda>p. p\<lparr>op_ref_count := 2\<rparr>) (sample_driver 0 sample_ring)"

text \<open>C21: A round of the driver terminates. It handles exactly the completions that are in the queue when the wait returns, each
  once and in order, then releases exactly their slots, and when one of them was the eventfd's it runs the posted handles and
  arms the eventfd again.\<close>

theorem run_one_round:
  assumes "io_uring_submit_and_wait enter 1 (kernel r, uring r) = (ret, k, u)" "cq_plain u"
    and "fold (handle_cqe resume) (cq_entries u) (False, r\<lparr>kernel := k, uring := u\<rparr>) = (rearm, r')"
    and "cq_khead (cq (uring r')) = cq_khead (cq u)"
  shows "run_one enter is_done resume r = Some
    (let r'' = r'\<lparr>uring := (uring r')\<lparr>cq := (cq (uring r'))\<lparr>cq_khead := cq_ktail (cq u)\<rparr>\<rparr>\<rparr> in
     if rearm then arm_eventfd_read enter (run_external_tasks is_done resume r'') else Ok r'')"
proof -
  have "io_uring_cq_advance (uring r') (io_uring_cq_ready u) =
      (uring r')\<lparr>cq := (cq (uring r'))\<lparr>cq_khead := cq_ktail (cq u)\<rparr>\<rparr>"
    using assms(4) by (simp add: io_uring_cq_advance_def io_uring_cq_ready_def)
  then show ?thesis
    using handle_cqes_fold [OF assms(2), of resume "(False, r\<lparr>kernel := k, uring := u\<rparr>)"] assms(1, 3)
    by (simp add: run_one_def Let_def)
qed

definition posted_ring :: io_uring where
  "posted_ring = sample_ring\<lparr>cq := (cq sample_ring)\<lparr>cqes := sample_cqes @ [\<lparr>cqe_user_data = 256, cqe_res = 8, cqe_flags = 0\<rparr>],
     cq_khead := 0xFFFFFFFC, cq_ktail := 0\<rparr>\<rparr>"

theorem run_one_round_witness:
  "\<exists>r'. run_one idle_kernel (\<lambda>_ _. False) (\<lambda>_ r. r) (sample_in_flight\<lparr>uring := posted_ring\<rparr>) = Some (Ok r') \<and>
    cq_khead (cq (uring r')) = 0 \<and> map sqe_user_data (sq_entries (uring r')) = [256] \<and> op_result (ops r' 64) = - 62 \<and>
    op_ref_count (ops r' 64) = 0"
proof -
  let ?r = "sample_in_flight\<lparr>uring := posted_ring\<rparr>"
  let ?s = "fold (handle_cqe (\<lambda>_ r. r)) (cq_entries posted_ring) (False, ?r\<lparr>kernel := (), uring := posted_ring\<rparr>)"
  let ?a = "arm_eventfd_read idle_kernel (run_external_tasks (\<lambda>_ _. False) (\<lambda>_ r. r) ((snd ?s)\<lparr>uring := (uring (snd ?s))
    \<lparr>cq := (cq (uring (snd ?s)))\<lparr>cq_khead := cq_ktail (cq posted_ring)\<rparr>\<rparr>\<rparr>))"
  have w: "io_uring_submit_and_wait idle_kernel 1 (kernel ?r, uring ?r) = (0, (), posted_ring)"
    by code_simp
  have plain: "cq_plain posted_ring"
    by code_simp
  have s: "fst ?s" "cq_khead (cq (uring (snd ?s))) = cq_khead (cq posted_ring)"
    by code_simp+
  have "case ?a of Ok r' \<Rightarrow> cq_khead (cq (uring r')) = 0 \<and> map sqe_user_data (sq_entries (uring r')) = [256] \<and>
      op_result (ops r' 64) = - 62 \<and> op_ref_count (ops r' 64) = 0 | _ \<Rightarrow> False"
    by code_simp
  moreover have "?s = (True, snd ?s)"
    using s(1) by (metis prod.collapse)
  then have "run_one idle_kernel (\<lambda>_ _. False) (\<lambda>_ r. r) ?r = Some ?a"
    using run_one_round [OF w plain _ s(2)] by (simp add: Let_def)
  ultimately show ?thesis
    by (auto split: outcome.splits)
qed

end
