(* ===== verification/Wakeup.thy ===== *)
theory Wakeup
  imports Driver
begin

text \<open>
  Handles posted from other threads (\<open>Ring::post\<close>, \<open>Ring::run_external_tasks\<close>, \<open>driver.cpp\<close>). The threads and the
  driver share the queue, the flag \<open>notified_\<close> and the eventfd, and are interleaved at each access: the queue under the
  mutex, an exchange or store of the flag, a \<open>write\<close> of the eventfd, and the kernel's completion of the driver's read of it.
\<close>

section \<open>The steps\<close>

text \<open>
  What the driver is doing about the eventfd: its read is armed; the read has completed; \<open>run_external_tasks\<close> has stored
  the flag; it has swapped the queue and has the rest of the batch to run.
\<close>

datatype ring_pc = Armed | Completed | Stored | Running "u64 list"

text \<open>
  \<open>pushers\<close> and \<open>writers\<close> count the threads inside \<open>post\<close> between the push and the exchange, and between an exchange that
  found the flag clear and the write. \<open>posted\<close> and \<open>taken\<close> record the handles pushed and the handles the driver has
  come to in \<open>run_external_tasks\<close>.
\<close>

record wakeup =
  tasks :: "u64 list"
  flag :: bool
  counter :: nat
  pushers :: nat
  writers :: nat
  pc :: ring_pc
  posted :: "u64 list"
  taken :: "u64 list"

datatype wakeup_label = Push u64 | Exchange | WriteEvent | KernelRead | Spurious | StoreFlag | Swap | RunHandle | Rearm

text \<open>\<open>Spurious\<close> is a completion of the read that consumed nothing, for instance with an error: the driver does not look at the
  result.\<close>

inductive wakeup_step :: "wakeup \<Rightarrow> wakeup_label \<Rightarrow> wakeup \<Rightarrow> bool" where
  post_push: "wakeup_step s (Push h) (s\<lparr>tasks := tasks s @ [h], pushers := Suc (pushers s), posted := posted s @ [h]\<rparr>)"
| post_exchange: "pushers s = Suc n \<Longrightarrow>
    wakeup_step s Exchange (s\<lparr>flag := True, pushers := n, writers := (if flag s then writers s else Suc (writers s))\<rparr>)"
| post_write: "writers s = Suc n \<Longrightarrow> wakeup_step s WriteEvent (s\<lparr>writers := n, counter := Suc (counter s)\<rparr>)"
| kernel_read: "pc s = Armed \<Longrightarrow> 0 < counter s \<Longrightarrow> wakeup_step s KernelRead (s\<lparr>pc := Completed, counter := 0\<rparr>)"
| spurious: "pc s = Armed \<Longrightarrow> wakeup_step s Spurious (s\<lparr>pc := Completed\<rparr>)"
| store_flag: "pc s = Completed \<Longrightarrow> wakeup_step s StoreFlag (s\<lparr>pc := Stored, flag := False\<rparr>)"
| swap: "pc s = Stored \<Longrightarrow> wakeup_step s Swap (s\<lparr>pc := Running (tasks s), tasks := []\<rparr>)"
| run_handle: "pc s = Running (h # hs) \<Longrightarrow> wakeup_step s RunHandle (s\<lparr>pc := Running hs, taken := taken s @ [h]\<rparr>)"
| rearm: "pc s = Running [] \<Longrightarrow> wakeup_step s Rearm (s\<lparr>pc := Armed\<rparr>)"

definition wakeup_init :: wakeup where
  "wakeup_init = \<lparr>tasks = [], flag = False, counter = 0, pushers = 0, writers = 0, pc = Armed, posted = [], taken = []\<rparr>"

inductive wakeup_run :: "wakeup \<Rightarrow> wakeup_label list \<Rightarrow> wakeup \<Rightarrow> bool" where
  run_nil: "wakeup_run s [] s"
| run_cons: "wakeup_step s l t \<Longrightarrow> wakeup_run t ls u \<Longrightarrow> wakeup_run s (l # ls) u"

inductive_cases wakeup_runE: "wakeup_run s ls t"

section \<open>No wakeup is lost\<close>

definition batch :: "wakeup \<Rightarrow> u64 list" where
  "batch s = (case pc s of Running hs \<Rightarrow> hs | _ \<Rightarrow> [])"

definition wakeup_inv :: "wakeup \<Rightarrow> bool" where
  "wakeup_inv s \<longleftrightarrow>
    (flag s \<longrightarrow> 0 < writers s \<or> 0 < counter s \<or> pc s = Completed) \<and>
    (tasks s \<noteq> [] \<longrightarrow> 0 < pushers s \<or> 0 < writers s \<or> 0 < counter s \<or> pc s = Completed \<or> pc s = Stored) \<and>
    posted s = taken s @ batch s @ tasks s"

lemma wakeup_init_inv: "wakeup_inv wakeup_init"
  by (simp add: wakeup_inv_def wakeup_init_def batch_def)

lemma wakeup_step_inv: "wakeup_step s l t \<Longrightarrow> wakeup_inv s \<Longrightarrow> wakeup_inv t"
  by (induction rule: wakeup_step.induct) (auto simp: wakeup_inv_def batch_def)

lemma wakeup_run_inv: "wakeup_run s ls t \<Longrightarrow> wakeup_inv s \<Longrightarrow> wakeup_inv t"
  by (induction rule: wakeup_run.induct) (auto dest: wakeup_step_inv)

section \<open>The steps and the functions of the driver\<close>

text \<open>
  A thread that goes through \<open>post\<close> undisturbed, and the driver that goes through \<open>run_external_tasks\<close> undisturbed, do what
  the functions of the driver's model say.
\<close>

definition shares :: "'k Ring \<Rightarrow> wakeup \<Rightarrow> bool" where
  "shares r s \<longleftrightarrow> external_tasks r = tasks s \<and> notified r = flag s"

lemma post_steps:
  assumes "shares r s"
  obtains t where "wakeup_run s ([Push h, Exchange] @ (if snd (post h r) then [WriteEvent] else [])) t"
    "shares (fst (post h r)) t"
proof (cases "flag s")
  case True
  show ?thesis
    by (rule that, insert True assms)
      (auto simp: shares_def post_def intro!: run_cons post_push post_exchange post_write run_nil)
next
  case False
  show ?thesis
    by (rule that, insert False assms)
      (auto simp: shares_def post_def intro!: run_cons post_push post_exchange post_write run_nil)
qed

lemma run_handles:
  "pc s = Running hs \<Longrightarrow>
    wakeup_run s (replicate (length hs) RunHandle @ [Rearm]) (s\<lparr>pc := Armed, taken := taken s @ hs\<rparr>)"
proof (induction hs arbitrary: s)
  case Nil
  then show ?case
    using run_cons [OF rearm [OF Nil] run_nil] by simp
next
  case (Cons h hs)
  show ?case
    using run_cons [OF run_handle [OF Cons.prems] Cons.IH] by simp
qed

lemma run_external_tasks_steps:
  assumes "shares r s" "pc s = Completed"
    and "\<And>h r. external_tasks (resume h r) = external_tasks r \<and> notified (resume h r) = notified r"
  obtains t where "wakeup_run s ([StoreFlag, Swap] @ replicate (length (external_tasks r)) RunHandle @ [Rearm]) t"
    "shares (run_external_tasks is_done resume r) t" "taken t = taken s @ external_tasks r"
proof (rule that)
  let ?s = "s\<lparr>pc := Running (tasks s), flag := False, tasks := []\<rparr>"
  have "external_tasks (fold (\<lambda>h r. if h \<noteq> 0 \<and> \<not> is_done h r then resume h r else r) hs r) = external_tasks r \<and>
      notified (fold (\<lambda>h r. if h \<noteq> 0 \<and> \<not> is_done h r then resume h r else r) hs r) = notified r" for hs and r :: "'a Ring"
    by (induction hs arbitrary: r) (simp_all add: assms(3))
  then show "shares (run_external_tasks is_done resume r) (?s\<lparr>pc := Armed, taken := taken ?s @ external_tasks r\<rparr>)"
    by (simp add: shares_def run_external_tasks_def Let_def)
  show "wakeup_run s ([StoreFlag, Swap] @ replicate (length (external_tasks r)) RunHandle @ [Rearm])
      (?s\<lparr>pc := Armed, taken := taken ?s @ external_tasks r\<rparr>)"
    using run_cons [OF store_flag [OF assms(2)] run_cons [OF swap run_handles]] assms(1)
    by (simp add: shares_def)
qed simp

section \<open>Every posted handle runs\<close>

fun quiet :: "wakeup_label \<Rightarrow> bool" where
  "quiet (Push h) = False"
| "quiet Spurious = False"
| "quiet _ = True"

fun pc_weight :: "ring_pc \<Rightarrow> nat" where
  "pc_weight Armed = 0"
| "pc_weight Completed = 5"
| "pc_weight Stored = 4"
| "pc_weight (Running hs) = 3 + length hs"

definition remaining :: "wakeup \<Rightarrow> nat" where
  "remaining s = 12 * pushers s + 10 * writers s + 9 * counter s + 2 * length (tasks s) + pc_weight (pc s)"

lemma quiet_step_remaining: "wakeup_step s l t \<Longrightarrow> quiet l \<Longrightarrow> remaining t < remaining s"
  by (induction rule: wakeup_step.induct) (auto simp: remaining_def)

lemma quiet_run_remaining: "wakeup_run s ls t \<Longrightarrow> \<forall>l\<in>set ls. quiet l \<Longrightarrow> remaining t + length ls \<le> remaining s"
  by (induction rule: wakeup_run.induct) (auto dest: quiet_step_remaining)

lemma quiet_step_posted: "wakeup_step s l t \<Longrightarrow> quiet l \<Longrightarrow> posted t = posted s"
  by (induction rule: wakeup_step.induct) auto

lemma quiet_run_posted: "wakeup_run s ls t \<Longrightarrow> \<forall>l\<in>set ls. quiet l \<Longrightarrow> posted t = posted s"
  by (induction rule: wakeup_run.induct) (auto dest: quiet_step_posted)

text \<open>A state in which no such step is possible has nothing left to run.\<close>

lemma stuck_armed:
  assumes "\<And>l t. quiet l \<Longrightarrow> \<not> wakeup_step s l t"
  shows "pc s = Armed" "pushers s = 0" "writers s = 0" "counter s = 0"
proof -
  have no: "wakeup_step s l t \<Longrightarrow> \<not> quiet l" for l t
    using assms by blast
  show pc: "pc s = Armed"
    using no [OF store_flag] no [OF swap] no [OF run_handle] no [OF rearm]
    by (cases "pc s") (auto, metis neq_Nil_conv)
  show "pushers s = 0"
    using no [OF post_exchange] by (cases "pushers s") auto
  show "writers s = 0"
    using no [OF post_write] by (cases "writers s") auto
  show "counter s = 0"
    using no [OF kernel_read [OF pc]] by (cases "counter s") auto
qed

lemma stuck_done:
  assumes "wakeup_inv s" "\<And>l t. quiet l \<Longrightarrow> \<not> wakeup_step s l t"
  shows "taken s = posted s"
  using assms(1) stuck_armed [OF assms(2)] by (auto simp: wakeup_inv_def batch_def)

lemma quiet_run_exists:
  "\<exists>ls t. wakeup_run s ls t \<and> (\<forall>l\<in>set ls. quiet l) \<and> (\<forall>l u. quiet l \<longrightarrow> \<not> wakeup_step t l u)"
proof (induction "remaining s" arbitrary: s rule: less_induct)
  case less
  show ?case
  proof (cases "\<exists>l t. quiet l \<and> wakeup_step s l t")
    case True
    then obtain l t where l: "quiet l" "wakeup_step s l t" by blast
    then obtain ls u where "wakeup_run t ls u" "\<forall>l\<in>set ls. quiet l" "\<forall>l v. quiet l \<longrightarrow> \<not> wakeup_step u l v"
      using less [OF quiet_step_remaining] by blast
    then show ?thesis
      using l run_cons by (intro exI [of _ "l # ls"] exI [of _ u]) auto
  next
    case False
    then show ?thesis
      using run_nil by (intro exI [of _ "[]"] exI [of _ s]) auto
  qed
qed

text \<open>C2: A handle that any thread posts is never left behind: whatever the interleaving so far, once no more handles are posted the
  driver and the threads in \<open>post\<close> can only take a bounded number of steps, and when none is left (the driver waits
  for its eventfd) every handle posted has been taken by the driver, in the order of the pushes and each once.\<close>

theorem posted_handles_run:
  assumes "wakeup_run wakeup_init ls s"
  shows "(\<exists>ls' t. wakeup_run s ls' t \<and> (\<forall>l\<in>set ls'. quiet l) \<and> (\<forall>l u. quiet l \<longrightarrow> \<not> wakeup_step t l u)) \<and>
    (\<forall>ls' t. wakeup_run s ls' t \<longrightarrow> (\<forall>l\<in>set ls'. quiet l) \<longrightarrow>
      length ls' \<le> remaining s \<and> ((\<forall>l u. quiet l \<longrightarrow> \<not> wakeup_step t l u) \<longrightarrow> taken t = posted s \<and> pc t = Armed))"
proof (intro conjI allI impI)
  show "\<exists>ls' t. wakeup_run s ls' t \<and> (\<forall>l\<in>set ls'. quiet l) \<and> (\<forall>l u. quiet l \<longrightarrow> \<not> wakeup_step t l u)"
    by (rule quiet_run_exists)
  fix ls' t
  assume run: "wakeup_run s ls' t" "\<forall>l\<in>set ls'. quiet l"
  then show "length ls' \<le> remaining s"
    using quiet_run_remaining by fastforce
  have "wakeup_inv t"
    by (rule wakeup_run_inv [OF run(1) wakeup_run_inv [OF assms wakeup_init_inv]])
  moreover assume "\<forall>l u. quiet l \<longrightarrow> \<not> wakeup_step t l u"
  then have stuck: "\<And>l u. quiet l \<Longrightarrow> \<not> wakeup_step t l u" by blast
  ultimately show "taken t = posted s" "pc t = Armed"
    using stuck_done [OF _ stuck] quiet_run_posted [OF run] stuck_armed(1) [OF stuck] by auto
qed

text \<open>Two threads post while the driver handles an earlier wakeup; the second finds the flag set.\<close>

definition sample_wakeup :: wakeup where
  "sample_wakeup = \<lparr>tasks = [8, 9], flag = True, counter = 0, pushers = 1, writers = 1, pc = Armed, posted = [7, 8, 9], taken = [7]\<rparr>"

lemma sample_wakeup_run:
  "wakeup_run wakeup_init [Push 7, Exchange, WriteEvent, KernelRead, StoreFlag, Swap, RunHandle, Push 8, Exchange, Push 9, Rearm]
     sample_wakeup"
  unfolding wakeup_init_def sample_wakeup_def
  by (rule run_cons, rule post_push, rule run_cons, rule post_exchange, simp, rule run_cons, rule post_write, simp,
      rule run_cons, rule kernel_read, simp, simp, rule run_cons, rule store_flag, simp, rule run_cons, rule swap, simp,
      rule run_cons, rule run_handle, simp, rule run_cons, rule post_push, rule run_cons, rule post_exchange, simp,
      rule run_cons, rule post_push, rule run_cons, rule rearm, simp, simp add: run_nil)

theorem posted_handles_run_witness:
  "\<exists>ls t. wakeup_run sample_wakeup ls t \<and> list_all quiet ls \<and> taken t = [7, 8, 9] \<and> pc t = Armed"
proof -
  note p = posted_handles_run [OF sample_wakeup_run]
  have posted: "posted sample_wakeup = [7, 8, 9]"
    by (simp add: sample_wakeup_def)
  obtain ls t where run: "wakeup_run sample_wakeup ls t" "\<forall>l\<in>set ls. quiet l" "\<forall>l u. quiet l \<longrightarrow> \<not> wakeup_step t l u"
    using conjunct1 [OF p] by blast
  then have "taken t = [7, 8, 9] \<and> pc t = Armed"
    using conjunct2 [OF p] posted by metis
  then show ?thesis
    using run(1, 2) by (auto simp: list_all_iff)
qed

end
