(* ===== verification/Buffers.thy ===== *)
theory Buffers
  imports Driver
begin

text \<open>
  The buffers that the driver lends to the kernel (\<open>Ring::setup_buffers\<close>, \<open>Ring::get_buffer\<close> and
  \<open>Ring::recycle_buffer\<close>, \<open>driver.cpp\<close>) through the ring of provided buffers. The kernel takes buffers from the front of the
  ring, at an index \<open>head\<close> of its own; a buffer taken is held by the operation that completed with it until that
  operation recycles it.
\<close>

section \<open>The contents of the ring\<close>

definition br_entries :: "u16 \<Rightarrow> io_uring_buf_ring \<Rightarrow> io_uring_buf list" where
  "br_entries head br = map (\<lambda>i. bufs br ! unat i) (ring_slots (mask 9) head (unat (br_tail br - head)))"

text \<open>The description of buffer \<open>bid\<close>.\<close>

definition lent_buffer :: "u64 \<Rightarrow> u16 \<Rightarrow> io_uring_buf" where
  "lent_buffer mem bid = \<lparr>buf_addr = mem + 4096 * ucast bid, buf_len = 4096, buf_bid = bid\<rparr>"

definition buffers_ok :: "'k Ring \<Rightarrow> u16 \<Rightarrow> u16 list \<Rightarrow> bool" where
  "buffers_ok r head held \<longleftrightarrow> using_buf_ring r \<and> (\<exists>br ids. buf_ring r = Some br \<and> length (bufs br) = 512 \<and>
    br_entries head br = map (lent_buffer (buffer_mem r)) ids \<and> distinct (ids @ held) \<and>
    set (ids @ held) = of_nat ` {..<512})"

lemma unat_ucast_16: "unat (ucast (b :: u16) :: u32) = unat b" "unat (ucast (b :: u16) :: u64) = unat b"
  by (simp_all add: unsigned_ucast_eq take_bit_nat_eq_self_iff) (rule less_trans [OF unsigned_less], simp)+

lemma unat_id: "i < 512 \<Longrightarrow> unat (of_nat i :: u16) = i"
  by (simp add: unsigned_of_nat take_bit_nat_eq_self_iff)

lemma ids_inj: "inj_on (of_nat :: nat \<Rightarrow> u16) {..<512}"
  by (rule inj_on_inverseI [of _ unat]) (simp add: unat_id)

lemma buffer_address: "ucast (ucast (b :: u16) * BUF_SIZE) = (4096 * ucast b :: u64)"
proof (rule word_unat_eq_iff [THEN iffD2])
  have b: "unat b < 65536"
    using unsigned_less [of b] by simp
  have "unat (ucast b * BUF_SIZE) = unat b * 4096"
    using b by (simp add: BUF_SIZE_def unat_word_ariths unat_ucast_16)
  then show "unat (ucast (ucast b * BUF_SIZE) :: u64) = unat (4096 * ucast b :: u64)"
    using b by (simp add: unat_ucast_up unat_word_ariths unat_ucast_16)
qed

lemma get_buffer_eq: "get_buffer bid r = buffer_mem r + 4096 * ucast bid"
  by (simp add: get_buffer_def buffer_address)

lemma br_slot:
  "unat ((ucast (t :: u16) + of_nat i) AND (BUF_COUNT - 1) :: u32) = unat ((t + of_nat i) AND mask 9)"
proof -
  have "BUF_COUNT - 1 = (mask 9 :: u32)"
    by (simp add: BUF_COUNT_def mask_eq_exp_minus_1)
  then show ?thesis
    by (simp add: unat_slot unat_ucast_16)
qed

lemma br_advance:
  "io_uring_buf_ring_advance br (of_nat n) = br\<lparr>br_tail := br_tail br + of_nat n\<rparr>"
proof -
  have "unat (ucast (ucast (br_tail br) + of_nat n :: u32) :: u16) = unat (br_tail br + of_nat n)"
    by (simp only: unsigned_ucast_eq unat_word_ariths unsigned_of_nat unat_ucast_16 take_bit_eq_mod of_nat_id mod_simps)
      (simp add: mod_mod_cancel mod_simps)
  then show ?thesis
    by (simp add: io_uring_buf_ring_advance_def word_unat_eq_iff)
qed


section \<open>Set-up, recycling and selection\<close>

lemma setup_adds:
  assumes "n \<le> 512" "length (bufs br) = 512" "br_tail br = 0"
  shows "fold (\<lambda>i br. io_uring_buf_ring_add br (mem + ucast (of_nat i * BUF_SIZE)) BUF_SIZE (of_nat i) (BUF_COUNT - 1) (of_nat i))
      [0..<n] br = br\<lparr>bufs := map (\<lambda>i. lent_buffer mem (of_nat i)) [0..<n] @ drop n (bufs br)\<rparr>"
  using assms(1)
proof (induction n)
  case (Suc n)
  have n: "unat (of_nat n :: u16) = n" "unat (of_nat n :: u32) = n"
    using Suc.prems by (simp_all add: unsigned_of_nat take_bit_nat_eq_self_iff)
  have slot: "unat ((ucast (0 :: u16) + of_nat n) AND (BUF_COUNT - 1) :: u32) = n"
    using Suc.prems by (simp only: br_slot) (simp add: unat_slot [of _ 0, simplified] n)
  have "(of_nat n :: u32) = ucast (of_nat n :: u16)"
    by (simp add: word_unat_eq_iff unat_ucast_16 n)
  then have "mem + ucast (of_nat n * BUF_SIZE) = buf_addr (lent_buffer mem (of_nat n))"
    by (simp add: lent_buffer_def buffer_address)
  moreover have "drop n (bufs br) = bufs br ! n # drop (Suc n) (bufs br)"
    using Suc.prems assms(2) by (simp add: Cons_nth_drop_Suc)
  ultimately show ?case
    using Suc slot assms(3)
    by (simp add: io_uring_buf_ring_add_def list_update_append lent_buffer_def BUF_SIZE_def)
qed simp

lemma setup_buffers_ok:
  assumes "setup_buffers enter mem (Some br) 0 r0 = Ok r" "length (bufs br) = 512"
  shows "buffers_ok r 0 []" "buffer_mem r = mem"
proof -
  let ?bufs = "map (\<lambda>i. lent_buffer mem (of_nat i)) [0..<512]"
  have u: "unat BUF_COUNT = 512" "BUF_COUNT = of_nat 512"
    by (simp_all add: BUF_COUNT_def)
  have r: "r = r0\<lparr>buffer_mem := mem, using_buf_ring := True, buf_ring := Some (br\<lparr>bufs := ?bufs, br_tail := 512\<rparr>)\<rparr>"
    using assms(1) setup_adds [of 512 "io_uring_buf_ring_init br" mem] assms(2)
    by (auto simp: setup_buffers_def u(1) io_uring_buf_ring_init_def Let_def br_advance [of _ 512, folded u(2)] split: if_splits)
  then show "buffer_mem r = mem" by simp
  have "br_entries 0 (br\<lparr>bufs := ?bufs, br_tail := 512\<rparr>) = ?bufs"
  proof (rule nth_equalityI)
    fix i assume "i < length (br_entries 0 (br\<lparr>bufs := ?bufs, br_tail := 512\<rparr>))"
    then have i: "i < 512" by (simp add: br_entries_def)
    then have "unat ((of_nat i :: u16) AND mask 9) = i"
      using unat_slot [of 9 "0 :: u16" i] by simp
    then show "br_entries 0 (br\<lparr>bufs := ?bufs, br_tail := 512\<rparr>) ! i = ?bufs ! i"
      using i by (simp add: br_entries_def ring_slots_def)
  qed (simp add: br_entries_def)
  moreover have "distinct (map of_nat [0..<512] :: u16 list)"
    using ids_inj by (simp add: distinct_map atLeast0LessThan)
  ultimately show "buffers_ok r 0 []"
    using r by (auto simp: buffers_ok_def comp_def atLeast0LessThan intro!: exI [of _ "map of_nat [0..<512]"])
qed

lemma recycle_entries:
  assumes "length (bufs br) = 512" "unat (br_tail br - head) < 512"
  shows "br_entries head (io_uring_buf_ring_advance (io_uring_buf_ring_add br addr len bid (BUF_COUNT - 1) 0) 1) =
    br_entries head br @ [\<lparr>buf_addr = addr, buf_len = len, buf_bid = bid\<rparr>]"
proof -
  let ?n = "unat (br_tail br - head)" and ?b = "\<lparr>buf_addr = addr, buf_len = len, buf_bid = bid\<rparr>"
  let ?slot = "unat (br_tail br AND mask 9)"
  have tail: "head + of_nat ?n = br_tail br"
    by simp
  have n: "unat (br_tail br + 1 - head) = Suc ?n"
    using unat_diff_add [of "br_tail br" head 1] assms(2) by simp
  have d: "distinct (ring_slots (mask 9) head (Suc ?n))"
    using assms(2) by (intro distinct_ring_slots) simp_all
  then have old: "\<forall>i\<in>set (ring_slots (mask 9) head ?n). unat i \<noteq> ?slot"
    unfolding ring_slots_snoc tail by (auto simp flip: word_unat_eq_iff)
  have "?slot < 512"
    using unat_slot [of 9 "br_tail br" 0] by simp
  then have "br_entries head (br\<lparr>bufs := (bufs br)[?slot := ?b], br_tail := br_tail br + 1\<rparr>) = br_entries head br @ [?b]"
    using old assms(1) by (auto simp: br_entries_def n ring_slots_snoc)
  then show ?thesis
    using br_slot [of "br_tail br" 0] br_advance [of "io_uring_buf_ring_add br addr len bid (BUF_COUNT - 1) 0" 1]
    by (simp add: io_uring_buf_ring_add_def)
qed

lemma buffers_ok_length:
  assumes "buffers_ok r head held" "buf_ring r = Some br"
  shows "length (bufs br) = 512" "unat (br_tail br - head) + length held = 512"
proof -
  obtain ids where ids: "length (bufs br) = 512" "br_entries head br = map (lent_buffer (buffer_mem r)) ids"
    "distinct (ids @ held)" "set (ids @ held) = of_nat ` {..<512}"
    using assms by (auto simp: buffers_ok_def)
  show "length (bufs br) = 512" by (rule ids(1))
  have "length ids = unat (br_tail br - head)"
    using arg_cong [OF ids(2), of length] by (simp add: br_entries_def)
  moreover have "length (ids @ held) = card (of_nat ` {..<512} :: u16 set)"
    using distinct_card [OF ids(3)] by (simp only: ids(4))
  ultimately show "unat (br_tail br - head) + length held = 512" by (simp add: card_image [OF ids_inj])
qed

lemma recycle_buffers_ok:
  assumes "buffers_ok r head held" "bid \<in> set held" "recycle_buffer enter bid r = Ok r'"
  shows "buffers_ok r' head (remove1 bid held) \<and> buffer_mem r' = buffer_mem r"
proof -
  obtain br ids where b: "using_buf_ring r" "buf_ring r = Some br" "length (bufs br) = 512"
    "br_entries head br = map (lent_buffer (buffer_mem r)) ids" "distinct (ids @ held)" "set (ids @ held) = of_nat ` {..<512}"
    using assms(1) by (auto simp: buffers_ok_def)
  let ?br = "io_uring_buf_ring_advance (io_uring_buf_ring_add br (get_buffer bid r) BUF_SIZE bid (BUF_COUNT - 1) 0) 1"
  have "0 < length held"
    using assms(2) by (cases held) auto
  then have "unat (br_tail br - head) < 512"
    using buffers_ok_length(2) [OF assms(1) b(2)] by linarith
  then have "br_entries head ?br = map (lent_buffer (buffer_mem r)) (ids @ [bid])"
    by (simp add: recycle_entries [OF b(3)] b(4) lent_buffer_def get_buffer_eq BUF_SIZE_def)
  moreover have "r' = r\<lparr>buf_ring := Some ?br\<rparr>" "length (bufs ?br) = 512"
    using assms(3) b(1, 2, 3) by (auto simp: recycle_buffer_def Let_def io_uring_buf_ring_advance_def io_uring_buf_ring_add_def)
  moreover have "distinct ((ids @ [bid]) @ remove1 bid held)" "set ((ids @ [bid]) @ remove1 bid held) = of_nat ` {..<512}"
    using b(5, 6) assms(2) by (auto simp: set_remove1_eq)
  ultimately show ?thesis
    using b(1) by (auto simp: buffers_ok_def intro!: exI [of _ "ids @ [bid]"])
qed

lemma select_buffers_ok:
  assumes "buffers_ok r head held" "buf_ring r = Some br" "br_entries head br = e # es"
  shows "buffers_ok r (head + 1) (buf_bid e # held)"
proof -
  obtain ids where ids: "using_buf_ring r" "length (bufs br) = 512" "br_entries head br = map (lent_buffer (buffer_mem r)) ids"
    "distinct (ids @ held)" "set (ids @ held) = of_nat ` {..<512}"
    using assms(1, 2) by (auto simp: buffers_ok_def)
  obtain bid ids' where i: "ids = bid # ids'" "buf_bid e = bid"
    using ids(3) assms(3) by (cases ids) (auto simp: lent_buffer_def)
  have n: "unat (br_tail br - head) = Suc (length es)"
    using arg_cong [OF assms(3), of length] by (simp add: br_entries_def)
  then have "unat (br_tail br - (head + 1)) = length es"
    using unat_diff_sub [of 1 "br_tail br" head] by simp
  then have "br_entries (head + 1) br = es"
    using assms(3) n by (simp add: br_entries_def ring_slots_Cons)
  then show ?thesis
    using ids i assms(2, 3) by (auto simp: buffers_ok_def intro!: exI [of _ ids'])
qed

section \<open>Runs\<close>

text \<open>
  The kernel selects the first buffer of the ring for a completion, the driver recycles a buffer that is held, and anything else
  that happens to the driver leaves the ring of buffers alone.
\<close>

inductive buffer_step :: "'k enter \<Rightarrow> 'k Ring \<times> u16 \<times> u16 list \<Rightarrow> 'k Ring \<times> u16 \<times> u16 list \<Rightarrow> bool" for enter where
  select: "buf_ring r = Some br \<Longrightarrow> br_entries head br = e # es \<Longrightarrow>
    buffer_step enter (r, head, held) (r, head + 1, buf_bid e # held)"
| recycle: "bid \<in> set held \<Longrightarrow> recycle_buffer enter bid r = Ok r' \<Longrightarrow>
    buffer_step enter (r, head, held) (r', head, remove1 bid held)"
| elsewhere: "buf_ring r' = buf_ring r \<Longrightarrow> using_buf_ring r' = using_buf_ring r \<Longrightarrow> buffer_mem r' = buffer_mem r \<Longrightarrow>
    buffer_step enter (r, head, held) (r', head, held)"

lemma buffer_step_ok:
  assumes "buffer_step enter s t" "buffers_ok (fst s) (fst (snd s)) (snd (snd s))"
  shows "buffers_ok (fst t) (fst (snd t)) (snd (snd t)) \<and> buffer_mem (fst t) = buffer_mem (fst s)"
  using assms
proof cases
  case (select r br head e es held)
  then show ?thesis using assms(2) by (simp add: select_buffers_ok)
next
  case (recycle bid held r r' head)
  then show ?thesis using assms(2) by (simp add: recycle_buffers_ok)
next
  case (elsewhere r' r head held)
  then show ?thesis using assms(2) by (simp add: buffers_ok_def)
qed

lemma buffer_steps_ok:
  assumes "(buffer_step enter)\<^sup>*\<^sup>* s t" "buffers_ok (fst s) (fst (snd s)) (snd (snd s))"
  shows "buffers_ok (fst t) (fst (snd t)) (snd (snd t)) \<and> buffer_mem (fst t) = buffer_mem (fst s)"
  using assms by (induction rule: rtranclp_induct) (auto dest: buffer_step_ok)

text \<open>C19: No buffer is lost and none is lent twice: from the set-up of the ring of buffers on, whatever the kernel takes and the
  operations recycle, the 512 buffers are partitioned into those in the ring and those held, no two holders have the same one, and
  every entry of the ring describes the buffer of its id.\<close>

theorem buffers_partitioned:
  assumes "setup_buffers enter mem (Some br0) 0 r0 = Ok r" "length (bufs br0) = 512"
    and "(buffer_step enter)\<^sup>*\<^sup>* (r, 0, []) (r', head, held)"
  shows "\<exists>br. buf_ring r' = Some br \<and> distinct (map buf_bid (br_entries head br) @ held) \<and>
    unat ` set (map buf_bid (br_entries head br) @ held) = {..<512} \<and>
    br_entries head br = map (\<lambda>e. \<lparr>buf_addr = get_buffer (buf_bid e) r', buf_len = BUF_SIZE, buf_bid = buf_bid e\<rparr>) (br_entries head br)"
proof -
  have "buffers_ok r' head held"
    using buffer_steps_ok [OF assms(3)] setup_buffers_ok [OF assms(1, 2)] by simp
  then obtain br ids where b: "buf_ring r' = Some br" "br_entries head br = map (lent_buffer (buffer_mem r')) ids"
    "distinct (ids @ held)" "set (ids @ held) = of_nat ` {..<512}"
    by (auto simp: buffers_ok_def)
  have ids: "map buf_bid (br_entries head br) = ids"
    by (simp add: b(2) lent_buffer_def comp_def)
  have "unat ` (of_nat ` {..<512} :: u16 set) = {..<512}"
    unfolding image_image by (subst image_cong [OF refl unat_id]) auto
  then have "unat ` set (map buf_bid (br_entries head br) @ held) = {..<512}"
    by (simp only: ids b(4))
  moreover have "distinct (map buf_bid (br_entries head br) @ held)"
    by (simp only: ids b(3))
  moreover have "br_entries head br =
      map (\<lambda>e. \<lparr>buf_addr = get_buffer (buf_bid e) r', buf_len = BUF_SIZE, buf_bid = buf_bid e\<rparr>) (br_entries head br)"
    by (simp add: b(2) lent_buffer_def get_buffer_eq BUF_SIZE_def)
  ultimately show ?thesis
    using b(1) by blast
qed

text \<open>C40: Two buffers do not overlap and each lies within the 2 MiB that were allocated.\<close>

theorem buffers_disjoint:
  assumes "unat (buffer_mem r) + 512 * 4096 \<le> 2 ^ 64" "unat a < 512" "unat b < 512" "a \<noteq> b"
  shows "{unat (get_buffer a r)..<unat (get_buffer a r) + unat BUF_SIZE} \<subseteq>
      {unat (buffer_mem r)..<unat (buffer_mem r) + 512 * 4096} \<and>
    {unat (get_buffer a r)..<unat (get_buffer a r) + unat BUF_SIZE} \<inter>
      {unat (get_buffer b r)..<unat (get_buffer b r) + unat BUF_SIZE} = {}"
proof -
  have address: "unat (get_buffer c r) = unat (buffer_mem r) + 4096 * unat c" if "unat c < 512" for c
    using that assms(1) by (simp add: get_buffer_eq unat_word_ariths unat_ucast_16)
  have "unat a \<noteq> unat b"
    using assms(4) by (simp add: word_unat_eq_iff)
  then have "unat a + 1 \<le> unat b \<or> unat b + 1 \<le> unat a" by linarith
  then have "4096 * unat a + 4096 \<le> 4096 * unat b \<or> 4096 * unat b + 4096 \<le> 4096 * unat a" by linarith
  then show ?thesis
    using assms(2, 3) by (auto simp: address BUF_SIZE_def)
qed

section \<open>A run\<close>

definition sample_buf_ring :: io_uring_buf_ring where
  "sample_buf_ring = \<lparr>bufs = replicate 512 \<lparr>buf_addr = 0, buf_len = 0, buf_bid = 0\<rparr>, br_tail = 9\<rparr>"

theorem buffers_partitioned_witness:
  "\<exists>r br b. setup_buffers idle_kernel 8192 (Some sample_buf_ring) 0 (sample_driver 0 sample_ring) = Ok r \<and>
    buf_ring r = Some br \<and> distinct (map buf_bid (br_entries 1 br) @ [b]) \<and>
    unat ` set (map buf_bid (br_entries 1 br) @ [b]) = {..<512}"
proof -
  have l: "length (bufs sample_buf_ring) = 512"
    by (simp add: sample_buf_ring_def)
  obtain r where r: "setup_buffers idle_kernel 8192 (Some sample_buf_ring) 0 (sample_driver 0 sample_ring) = Ok r"
    by (simp add: setup_buffers_def Let_def)
  note ok = setup_buffers_ok(1) [OF r l]
  then obtain br where br: "buf_ring r = Some br" by (auto simp: buffers_ok_def)
  have "length (br_entries 0 br) = 512"
    using buffers_ok_length(2) [OF ok br] by (simp add: br_entries_def)
  then obtain e es where "br_entries 0 br = e # es" by (cases "br_entries 0 br") auto
  then have "buffer_step idle_kernel (r, 0, []) (r, 0 + 1, [buf_bid e])"
    by (rule select [OF br])
  then have "(buffer_step idle_kernel)\<^sup>*\<^sup>* (r, 0, []) (r, 1, [buf_bid e])" by simp
  then show ?thesis
    using buffers_partitioned [OF r l, of r 1 "[buf_bid e]"] r br by auto
qed

theorem buffers_disjoint_witness:
  "{unat (get_buffer 0 (sample_driver 0 sample_ring))..<unat (get_buffer 0 (sample_driver 0 sample_ring)) + unat BUF_SIZE} \<inter>
    {unat (get_buffer 511 (sample_driver 0 sample_ring))..<unat (get_buffer 511 (sample_driver 0 sample_ring)) + unat BUF_SIZE} = {}"
  using buffers_disjoint [of "sample_driver 0 sample_ring" 0 511] by (simp add: sample_driver_def)

end
