(* ===== verification/Ops.thy ===== *)
theory Ops
  imports Driver "HOL-Library.Multiset" "HOL-Library.Signed_Division"
begin

text \<open>
  The awaitable operations (\<open>ops.ixx\<close>, \<open>ops.cpp\<close>) on top of the driver: how an operation is submitted when a coroutine awaits it,
  what the coroutine gets when it is resumed, and the ownership of the buffer in an \<open>IOResult\<close>. An \<open>AsyncOp\<close> is its
  operation, at an address, with the function that prepares the request.
\<close>

section \<open>Results\<close>

definition common_async_int_mapper :: "int \<Rightarrow> int result" where
  "common_async_int_mapper result = (if 0 \<le> result then Inr result else Inl (Error (Errno (- result)) []))"

definition common_async_unit_mapper :: "int \<Rightarrow> unit result" where
  "common_async_unit_mapper result = (if 0 \<le> result then Inr () else Inl (Error (Errno (- result)) []))"

definition map_async_read_result :: "int \<Rightarrow> int result" where
  "map_async_read_result = common_async_int_mapper"

definition map_async_write_result :: "int \<Rightarrow> int result" where
  "map_async_write_result = common_async_int_mapper"

definition map_async_connect_result :: "int \<Rightarrow> unit result" where
  "map_async_connect_result = common_async_unit_mapper"

definition delay_result :: "int \<Rightarrow> unit result" where
  "delay_result ret =
    (if ret = - e_time then Inr ()
     else if ret = - e_canceled then Inl (Error operation_canceled ''delay canceled'')
     else Inl (Error no_message (''delay failed: '' @ to_string_int ret)))"

section \<open>Awaiting an operation\<close>

text \<open>An awaitable is the function that prepares its request and the timeout of its operation.\<close>

type_synonym async_op = "(io_uring_sqe \<Rightarrow> io_uring_sqe) \<times> u32"

definition async_read_raw :: "u32 \<Rightarrow> u64 \<Rightarrow> u32 \<Rightarrow> u64 \<Rightarrow> u32 \<Rightarrow> async_op" where
  "async_read_raw fd buf nbytes offset timeout_ms = (\<lambda>sqe. io_uring_prep_read sqe fd buf nbytes offset, timeout_ms)"

definition async_recv_bs :: "u32 \<Rightarrow> u32 \<Rightarrow> u32 \<Rightarrow> u32 \<Rightarrow> async_op" where
  "async_recv_bs fd nbytes flags timeout_ms =
    (\<lambda>sqe. let sqe = io_uring_prep_recv sqe fd 0 (ucast nbytes) flags
            in sqe\<lparr>sqe_flags := sqe_flags sqe OR ucast IOSQE_BUFFER_SELECT, sqe_buf_index := BGID\<rparr>, timeout_ms)"

definition async_write_raw :: "u32 \<Rightarrow> u64 \<Rightarrow> u32 \<Rightarrow> u64 \<Rightarrow> u32 \<Rightarrow> async_op" where
  "async_write_raw fd buf nbytes offset timeout_ms = (\<lambda>sqe. io_uring_prep_write sqe fd buf nbytes offset, timeout_ms)"

definition async_close_raw :: "u32 \<Rightarrow> async_op" where
  "async_close_raw fd = (\<lambda>sqe. io_uring_prep_close sqe fd, 0)"

definition async_connect_raw :: "u32 \<Rightarrow> u64 \<Rightarrow> u32 \<Rightarrow> u32 \<Rightarrow> async_op" where
  "async_connect_raw fd addr addrlen timeout_ms = (\<lambda>sqe. io_uring_prep_connect sqe fd addr addrlen, timeout_ms)"

definition async_accept :: "u32 \<Rightarrow> u64 \<Rightarrow> u64 \<Rightarrow> u32 \<Rightarrow> async_op" where
  "async_accept fd addr addrlen flags = (\<lambda>sqe. io_uring_prep_accept sqe fd addr addrlen flags, 0)"

definition async_timeout_raw :: "u64 \<Rightarrow> u32 \<Rightarrow> u32 \<Rightarrow> async_op" where
  "async_timeout_raw ts cnt flags = (\<lambda>sqe. io_uring_prep_timeout sqe ts cnt flags, 0)"

text \<open>\<open>delay\<close>: the time is in the awaitable, at the address \<open>ts\<close>; the quotient and the remainder are truncated.\<close>

definition delay :: "u64 \<Rightarrow> async_op" where
  "delay ts = (\<lambda>sqe. io_uring_prep_timeout sqe ts 0 0, 0)"

definition delay_timespec :: "int \<Rightarrow> int \<times> int" where
  "delay_timespec ms = (ms sdiv 1000, (ms smod 1000) * 1000000)"

lemmas async_ops =
  async_read_raw_def async_recv_bs_def async_write_raw_def async_close_raw_def async_connect_raw_def async_accept_def
  async_timeout_raw_def

text \<open>The constructor, at the address of the awaitable, and the awaiter.\<close>

definition AsyncOp_new :: "u64 \<Rightarrow> async_op \<Rightarrow> 'k Ring \<Rightarrow> 'k Ring" where
  "AsyncOp_new p a = op_update p (\<lambda>_. reset (snd a)
     \<lparr>op_handle = 0, op_result = 0, op_bid = 0, op_ref_count = 1, op_flags = 0, op_cqe_flags = 0, op_tv_sec = 0, op_tv_nsec = 0\<rparr>)"

definition await_suspend :: "'k enter \<Rightarrow> u64 \<Rightarrow> async_op \<Rightarrow> u64 \<Rightarrow> 'k Ring \<Rightarrow> 'k Ring outcome" where
  "await_suspend enter p a h r = submit enter p (fst a) (op_update p (\<lambda>op. op\<lparr>op_handle := h\<rparr>) r)"

definition await_resume :: "u64 \<Rightarrow> 'k Ring \<Rightarrow> int" where
  "await_resume p r = op_result (ops r p)"

text \<open>\<open>co_await\<close> of a fresh awaitable.\<close>

definition co_await_op :: "'k enter \<Rightarrow> u64 \<Rightarrow> async_op \<Rightarrow> u64 \<Rightarrow> 'k Ring \<Rightarrow> 'k Ring outcome" where
  "co_await_op enter p a h r = await_suspend enter p a h (AsyncOp_new p a r)"

section \<open>From the await to the result\<close>

lemma async_ops_fresh:
  "fresh_prep (fst (async_read_raw fd buf n off ms))" "fresh_prep (fst (async_write_raw fd buf n off ms))"
  "fresh_prep (fst (async_connect_raw fd addr len ms))" "fresh_prep (fst (async_recv_bs fd n32 fl ms))"
  "fresh_prep (fst (async_close_raw fd))" "fresh_prep (fst (async_accept fd a2 a3 fl))"
  "fresh_prep (fst (async_timeout_raw ts cnt fl))"
  by (simp_all add: async_ops fresh_prep_def prep_defs zero_sqe_def)

lemma ucast_down_up: "ucast (ucast (w :: u32) :: u64) = w"
  by (simp only: word_unat_eq_iff unsigned_ucast_eq [of "ucast w :: u64"] unat_ucast_up)
    (simp only: take_bit_nat_eq_self [OF unsigned_less])

lemma awaited_op:
  "ops (op_update p (\<lambda>op. op\<lparr>op_handle := h\<rparr>) (AsyncOp_new p a r)) p =
    \<lparr>op_handle = h, op_result = 0, op_bid = 0, op_ref_count = 1, op_flags = 0, op_cqe_flags = 0, op_tv_sec = ucast (snd a),
     op_tv_nsec = 0\<rparr>"
  by (simp add: AsyncOp_new_def op_update_def reset_def)

lemma with_room_same [simp]: "ops (with_room enter r) = ops r" "ev_op (with_room enter r) = ev_op r"
  by (simp_all add: with_room_def submit_queue_def Let_def split: prod.split)

lemma submit_ev_op: "submit enter p prep r = Ok r' \<Longrightarrow> ev_op r' = ev_op r"
  using with_room_same(2) [of enter r]
  by (auto simp: submit_def get_sqe_retry_eq get_sqe_def sqe_prep_def op_update_def Let_def split: if_splits option.splits prod.splits)

lemma co_await_submits:
  assumes "s = with_room enter (op_update p (\<lambda>op. op\<lparr>op_handle := h\<rparr>) (AsyncOp_new p a r))" "sq_ok (uring s)" "fresh_prep (fst a)"
    and "(if snd a = 0 then 1 else 2) \<le> queue_room (uring s)"
  shows "\<exists>r'. co_await_op enter p a h r = Ok r' \<and> sq_ok (uring r') \<and>
    sq_entries (uring r') = sq_entries (uring s) @ requests p (fst a) (snd a) \<and>
    op_handle (ops r' p) = h \<and> op_result (ops r' p) = 0 \<and> op_ref_count (ops r' p) = (if snd a = 0 then 1 else 2) \<and>
    ev_op r' = ev_op r"
proof -
  let ?r = "op_update p (\<lambda>op. op\<lparr>op_handle := h\<rparr>) (AsyncOp_new p a r)"
  have ms: "op_timeout_ms (ops s p) = snd a"
    by (simp add: assms(1) awaited_op op_timeout_ms_def ucast_down_up)
  have co: "co_await_op enter p a h r = submit enter p (fst a) ?r"
    by (simp add: co_await_op_def await_suspend_def)
  have ev: "submit enter p (fst a) ?r = Ok r' \<Longrightarrow> ev_op r' = ev_op r" for r'
    using submit_ev_op by (fastforce simp: op_update_def AsyncOp_new_def)
  show ?thesis
  proof (cases "snd a = 0")
    case True
    then show ?thesis
      using submit_plain [of enter ?r "fst a" p] assms ms ev by (auto simp: co awaited_op requests_def Let_def)
  next
    case False
    then have "0 < snd a" by (simp add: word_gt_0)
    then show ?thesis
      using submit_linked [of enter ?r "fst a" p "snd a"] assms ms False ev by (auto simp: co awaited_op)
  qed
qed

text \<open>C1: Awaiting an operation queues its request, with a linked timeout if it has one. Whatever completions of other operations come
  between, and whichever of the operation and its timeout completes first, the two completions resume the awaiting
  coroutine exactly once, with \<open>-ETIME\<close> when the timeout fired and else with the result of the operation.\<close>

theorem co_await_resumed_once:
  assumes "s = with_room enter (op_update p (\<lambda>op. op\<lparr>op_handle := h\<rparr>) (AsyncOp_new p a r))" "sq_ok (uring s)" "fresh_prep (fst a)"
    and "(if snd a = 0 then 1 else 2) \<le> queue_room (uring s)" "p \<noteq> 0" "h \<noteq> 0"
  shows "\<exists>r'. co_await_op enter p a h r = Ok r' \<and>
    sq_entries (uring r') = sq_entries (uring s) @ requests p (fst a) (snd a) \<and>
    (\<forall>resume cs res r''. untouched_in_flight resume p \<longrightarrow> ops r'' p = ops r' p \<longrightarrow> ev_op r'' \<noteq> p \<longrightarrow>
      completes (filter (\<lambda>c. cqe_op c = p) cs) (ops r' p) res \<longrightarrow>
      filter (\<lambda>e. fst e = p) (resumed resume cs (False, r'')) = [(p, h, res)])"
proof -
  obtain r' where r': "co_await_op enter p a h r = Ok r'" "op_handle (ops r' p) = h" "op_result (ops r' p) = 0"
    "sq_entries (uring r') = sq_entries (uring s) @ requests p (fst a) (snd a)"
    using co_await_submits [OF assms(1-4)] by blast
  have "filter (\<lambda>e. fst e = p) (resumed resume cs (False, r'')) = [(p, h, res)]"
    if "untouched_in_flight resume p" "ops r'' p = ops r' p" "ev_op r'' \<noteq> p"
      "completes (filter (\<lambda>c. cqe_op c = p) cs) (ops r' p) res" for resume cs res r''
    using resumed_once [of resume p "(False, r'')" cs res] assms(5, 6) r'(2, 3) that by simp
  then show ?thesis
    using r'(1, 4) by blast
qed

definition two_read :: async_op where
  "two_read = async_read_raw 5 4096 16 0 1500"

theorem co_await_resumed_once_witness:
  "\<exists>r'. co_await_op idle_kernel 64 two_read 7 (sample_driver 0 sample_ring) = Ok r' \<and>
    map sqe_user_data (sq_entries (uring r')) = [64, 65] \<and>
    filter (\<lambda>e. fst e = 64) (resumed (\<lambda>_ r. r) sample_cqes (False, r')) = [(64, 7, - 62)]"
proof -
  let ?r = "op_update 64 (\<lambda>op. op\<lparr>op_handle := 7\<rparr>) (AsyncOp_new 64 two_read (sample_driver 0 sample_ring))"
  have room: "with_room idle_kernel ?r = ?r" "uring ?r = sample_ring"
    using sample_room by (auto simp: with_room_def sample_driver_def op_update_def AsyncOp_new_def)
  have s: "?r = with_room idle_kernel ?r" "sq_ok (uring ?r)" "fresh_prep (fst two_read)"
    "(if snd two_read = 0 then 1 else 2) \<le> queue_room (uring ?r)"
    unfolding room by (simp_all add: sample_ring_ok sample_room two_read_def async_ops_fresh)
  have ms: "snd two_read = 1500" by (simp add: two_read_def async_ops)
  obtain r' where r': "co_await_op idle_kernel 64 two_read 7 (sample_driver 0 sample_ring) = Ok r'"
    "op_ref_count (ops r' 64) = 2" "ev_op r' = 256"
    using co_await_submits [OF s] ms by (auto simp: sample_driver_def)
  have "filter (\<lambda>c. cqe_op c = 64) sample_cqes = [sample_cqes ! 0, sample_cqes ! 2]"
    by code_simp
  then have "completes (filter (\<lambda>c. cqe_op c = 64) sample_cqes) (ops r' 64) (- 62)"
    by (simp add: sample_cqes_def r' is_timeout_cqe_def linked_result_def e_time_def e_canceled_def)
  moreover have "untouched_in_flight (\<lambda>_ r. r :: unit Ring) 64"
    by (simp add: untouched_in_flight_def)
  moreover have "sq_entries (uring r') = sq_entries sample_ring @ requests 64 (fst two_read) 1500 \<and>
      (\<forall>resume cs res r''. untouched_in_flight resume 64 \<longrightarrow> ops r'' 64 = ops r' 64 \<longrightarrow> ev_op r'' \<noteq> 64 \<longrightarrow>
        completes (filter (\<lambda>c. cqe_op c = 64) cs) (ops r' 64) res \<longrightarrow>
        filter (\<lambda>e. fst e = 64) (resumed resume cs (False, r'')) = [(64, 7, res)])"
    using co_await_resumed_once [OF s] r'(1) ms room(2) by simp
  ultimately have "filter (\<lambda>e. fst e = 64) (resumed (\<lambda>_ r. r) sample_cqes (False, r')) = [(64, 7, - 62)]" 
    "sq_entries (uring r') = sq_entries sample_ring @ requests 64 (fst two_read) 1500"
    using r'(3) by auto
  then show ?thesis
    using r'(1) sample_room by (simp add: requests_def Let_def)
qed

section \<open>Cancellation\<close>

text \<open>The driver does not store the result of a cancelled operation, which is then 0: a cancelled read looks like the end of the
  stream, and a cancelled delay never takes its branch for cancellation.\<close>

theorem cancelled_operation:
  assumes "\<not> is_timeout_cqe c" "sint (cqe_res c) = - e_canceled"
  shows "map_async_read_result (op_result (complete_op c (reset ms op))) = Inr 0 \<and>
    delay_result (op_result (complete_op c (reset ms op))) = Inl (Error no_message ''delay failed: 0'')"
proof -
  have "op_result (complete_op c (reset ms op)) = 0"
    using assms by (simp add: complete_op_def reset_def Let_def)
  moreover have "to_string_int 0 = ''0''"
    by code_simp
  ultimately show ?thesis
    by (simp add: map_async_read_result_def common_async_int_mapper_def delay_result_def e_time_def e_canceled_def)
qed

section \<open>The buffer of a result\<close>

text \<open>A null pointer is 0. Each of the operations says which buffer id, if any, it gives back to the driver.\<close>

record IOResult =
  io_res :: int
  io_buffer :: u64
  io_bid :: u16

definition buffer_await_resume :: "u64 \<Rightarrow> 'k Ring \<Rightarrow> IOResult" where
  "buffer_await_resume p r =
    (let op = ops r p; res = op_result op in
     if 0 \<le> res \<and> op_flags op AND F_HAS_BUFFER \<noteq> 0
     then \<lparr>io_res = res, io_buffer = get_buffer (op_bid op) r, io_bid = op_bid op\<rparr>
     else \<lparr>io_res = res, io_buffer = 0, io_bid = 0\<rparr>)"

definition ioresult_recycle :: "IOResult \<Rightarrow> u16 list" where
  "ioresult_recycle x = (if io_buffer x \<noteq> 0 then [io_bid x] else [])"

text \<open>The move constructor gives the new object and what is left of the old one; the move assignment, for two different
  objects, also the ids recycled; the destructor only these.\<close>

definition ioresult_move :: "IOResult \<Rightarrow> IOResult \<times> IOResult" where
  "ioresult_move other = (other, other\<lparr>io_buffer := 0\<rparr>)"

definition ioresult_assign :: "IOResult \<Rightarrow> IOResult \<Rightarrow> IOResult \<times> IOResult \<times> u16 list" where
  "ioresult_assign this other =
     (\<lparr>io_res = io_res other, io_buffer = io_buffer other, io_bid = io_bid other\<rparr>, other\<lparr>io_buffer := 0\<rparr>, ioresult_recycle this)"

definition ioresult_destroy :: "IOResult \<Rightarrow> u16 list" where
  "ioresult_destroy this = ioresult_recycle this"

definition ioresult_data :: "IOResult \<Rightarrow> (u64 \<times> nat) option" where
  "ioresult_data x = (if io_res x \<le> 0 \<or> io_buffer x = 0 then None else Some (io_buffer x, nat (io_res x)))"

text \<open>
  A program over variables that hold results: it constructs a result, moves one into a new variable or into a live one, and ends
  the life of a variable. The second component lists the ids recycled so far. A construction in a live variable, and a use of
  one that is not live, are no C++ program.
\<close>

datatype io_action = Construct nat IOResult | MoveNew nat nat | MoveAssign nat nat | Destroy nat

fun io_act :: "io_action \<Rightarrow> (nat \<Rightarrow> IOResult option) \<times> u16 list \<Rightarrow> ((nat \<Rightarrow> IOResult option) \<times> u16 list) option" where
  "io_act (Construct v x) (vars, rec) = (if vars v = None then Some (vars(v \<mapsto> x), rec) else None)"
| "io_act (MoveNew v w) (vars, rec) = (case vars w of
      Some y \<Rightarrow> if vars v = None then let (x, y) = ioresult_move y in Some (vars(v \<mapsto> x, w \<mapsto> y), rec) else None
    | None \<Rightarrow> None)"
| "io_act (MoveAssign v w) (vars, rec) = (case (vars v, vars w) of
      (Some x, Some y) \<Rightarrow>
        if v = w then Some (vars, rec)
        else let (x, y, ids) = ioresult_assign x y in Some (vars(v \<mapsto> x, w \<mapsto> y), rec @ ids)
    | _ \<Rightarrow> None)"
| "io_act (Destroy v) (vars, rec) = (case vars v of
      Some x \<Rightarrow> Some (vars(v := None), rec @ ioresult_destroy x)
    | None \<Rightarrow> None)"

fun io_acts :: "io_action list \<Rightarrow> (nat \<Rightarrow> IOResult option) \<times> u16 list \<Rightarrow> ((nat \<Rightarrow> IOResult option) \<times> u16 list) option" where
  "io_acts [] s = Some s"
| "io_acts (a # as) s = Option.bind (io_act a s) (io_acts as)"

fun delivered :: "io_action \<Rightarrow> u16 multiset" where
  "delivered (Construct v x) = mset (ioresult_recycle x)"
| "delivered _ = {#}"

definition held_ids :: "(nat \<Rightarrow> IOResult option) \<Rightarrow> u16 multiset" where
  "held_ids vars = (\<Sum>v\<in>dom vars. mset (ioresult_recycle (the (vars v))))"

lemma held_ids_upd:
  assumes "finite (dom vars)"
  shows "held_ids (vars(v \<mapsto> x)) + (case vars v of Some y \<Rightarrow> mset (ioresult_recycle y) | None \<Rightarrow> {#}) =
    held_ids vars + mset (ioresult_recycle x)"
proof -
  let ?f = "\<lambda>m v. mset (ioresult_recycle (the (m v)))"
  have "held_ids (vars(v \<mapsto> x)) = mset (ioresult_recycle x) + (\<Sum>u\<in>dom vars - {v}. ?f vars u)"
    using assms by (simp add: held_ids_def sum.insert_remove)
  moreover have "held_ids vars = (case vars v of Some y \<Rightarrow> mset (ioresult_recycle y) | None \<Rightarrow> {#}) + (\<Sum>u\<in>dom vars - {v}. ?f vars u)"
    using assms sum.remove [of "dom vars" v "?f vars"] by (auto simp: held_ids_def domIff split: option.split)
  ultimately show ?thesis by simp
qed

lemma held_ids_del:
  assumes "finite (dom vars)" "vars v = Some y"
  shows "held_ids vars = mset (ioresult_recycle y) + held_ids (vars(v := None))"
  using assms sum.remove [of "dom vars" v "\<lambda>v. mset (ioresult_recycle (the (vars v)))"] by (auto simp: held_ids_def)

lemma io_act_conserves:
  assumes "io_act a (vars, rec) = Some (vars', rec')" "finite (dom vars)"
  shows "finite (dom vars')" "mset rec' + held_ids vars' = mset rec + held_ids vars + delivered a"
proof -
  show "finite (dom vars')"
    using assms by (cases a) (auto simp: ioresult_move_def ioresult_assign_def split: option.splits if_splits)
  show "mset rec' + held_ids vars' = mset rec + held_ids vars + delivered a"
  proof (cases a)
    case (Construct v x)
    then show ?thesis
      using assms held_ids_upd [OF assms(2), of v x] by (auto split: if_splits)
  next
    case (MoveNew v w)
    then obtain y where y: "vars w = Some y" "vars v = None" "vars' = vars(v \<mapsto> y, w \<mapsto> y\<lparr>io_buffer := 0\<rparr>)" "rec' = rec"
      using assms(1) by (auto simp: ioresult_move_def split: option.splits if_splits)
    then have "v \<noteq> w" by auto
    then show ?thesis
      using held_ids_upd [OF assms(2), of v y] held_ids_upd [of "vars(v \<mapsto> y)" w "y\<lparr>io_buffer := 0\<rparr>"] assms(2) y MoveNew
      by (simp add: ioresult_recycle_def)
  next
    case (MoveAssign v w)
    have [simp]: "\<lparr>io_res = io_res y, io_buffer = io_buffer y, io_bid = io_bid y\<rparr> = y" for y :: IOResult
      by simp
    from MoveAssign obtain x y where xy: "vars v = Some x" "vars w = Some y"
      and c: "v = w \<and> vars' = vars \<and> rec' = rec \<or>
        v \<noteq> w \<and> vars' = vars(v \<mapsto> y, w \<mapsto> y\<lparr>io_buffer := 0\<rparr>) \<and> rec' = rec @ ioresult_recycle x"
      using assms(1) by (auto simp: ioresult_assign_def split: option.splits if_splits)
    let ?new = "vars(v \<mapsto> y, w \<mapsto> y\<lparr>io_buffer := 0\<rparr>)" and ?ids = "\<lambda>x. mset (ioresult_recycle x)"
    have "held_ids ?new + ?ids x = held_ids vars" if "v \<noteq> w"
    proof -
      have "held_ids (vars(v \<mapsto> y)) + ?ids x = held_ids vars + ?ids y"
        using held_ids_upd [OF assms(2), of v y] xy by simp
      moreover have "held_ids ?new + ?ids y = held_ids (vars(v \<mapsto> y))"
        using held_ids_upd [of "vars(v \<mapsto> y)" w "y\<lparr>io_buffer := 0\<rparr>"] assms(2) xy that by (simp add: ioresult_recycle_def)
      ultimately have "(held_ids ?new + ?ids x) + ?ids y = held_ids vars + ?ids y"
        by (simp add: ac_simps)
      then show ?thesis by simp
    qed
    then show ?thesis
      using c MoveAssign by (auto simp: ac_simps)
  next
    case (Destroy v)
    then show ?thesis
      using assms held_ids_del [OF assms(2), of v] by (auto simp: ioresult_destroy_def split: option.splits)
  qed
qed

interpretation io_events: event_system io_act io_acts
  by unfold_locales simp_all

lemma io_acts_conserves:
  assumes "io_acts as (vars, rec) = Some (vars', rec')" "finite (dom vars)"
  shows "mset rec' + held_ids vars' = mset rec + held_ids vars + sum_list (map delivered as)"
proof -
  have "(\<lambda>as (vars', rec'). finite (dom vars') \<and> mset rec' + held_ids vars' = mset rec + held_ids vars + sum_list (map delivered as))
    as (vars', rec')"
    using assms(1)
    by (rule io_events.run_history) (use assms(2) io_act_conserves in \<open>fastforce simp: ac_simps\<close>)+
  then show ?thesis by simp
qed

text \<open>C29: However results are constructed, moved, assigned over and destroyed, each buffer delivered is recycled exactly once, or is
  still in exactly one live result; when no result is live any more all have been recycled.\<close>

theorem buffers_recycled_once:
  assumes "io_acts as (\<lambda>_. None, []) = Some (vars, rec)"
  shows "mset rec + held_ids vars = sum_list (map delivered as) \<and>
    (vars = (\<lambda>_. None) \<longrightarrow> mset rec = sum_list (map delivered as))"
  using io_acts_conserves [OF assms] by (auto simp: held_ids_def)

definition sample_actions :: "io_action list" where
  "sample_actions =
     [Construct 0 \<lparr>io_res = 5, io_buffer = 8192, io_bid = 0\<rparr>, MoveNew 1 0, Construct 2 \<lparr>io_res = 3, io_buffer = 12288, io_bid = 1\<rparr>,
      MoveAssign 1 2, MoveAssign 1 1, Destroy 2, Destroy 1, Destroy 0]"

theorem buffers_recycled_once_witness:
  "\<exists>rec. io_acts sample_actions (\<lambda>_. None, []) = Some (\<lambda>_. None, rec) \<and> mset rec = {#0, 1#}"
proof -
  have "io_acts sample_actions (\<lambda>_. None, []) = Some (\<lambda>_. None, [0, 1])"
    by (simp add: sample_actions_def ioresult_move_def ioresult_assign_def ioresult_destroy_def ioresult_recycle_def fun_eq_iff)
  then show ?thesis
    using buffers_recycled_once [of sample_actions "\<lambda>_. None" "[0, 1]"]
    by (simp add: sample_actions_def ioresult_recycle_def)
qed

end
