(* ===== verification/Net.thy ===== *)
theory Net
  imports Ops
begin

text \<open>
  Addresses (\<open>net/addr.ixx\<close>, \<open>net/addr.cpp\<close>), TCP streams (\<open>net/tcp_stream.ixx\<close>) and the accept loop
  (\<open>net/accept.ixx\<close>, \<open>net/accept.cpp\<close>). The socket calls of the C library and the completions of the kernel are parameters.
\<close>

section \<open>Addresses\<close>

text \<open>
  The part of \<open>sockaddr_storage\<close> that is used: the family, the port in network byte order, which \<open>sockaddr_in\<close>
  and \<open>sockaddr_in6\<close> have at the same place, and the bytes of the address.
\<close>

definition af_unspec :: nat where "af_unspec = 0"
definition af_inet :: nat where "af_inet = 2"
definition af_inet6 :: nat where "af_inet6 = 10"

record SocketAddress =
  ss_family :: nat
  sin_port :: u16
  sin_addr :: "u8 list"

definition htons :: "u16 \<Rightarrow> u16" where
  "htons w = push_bit 8 w OR drop_bit 8 w"

definition socket_address_new :: SocketAddress where
  "socket_address_new = \<lparr>ss_family = af_unspec, sin_port = 0, sin_addr = []\<rparr>"

text \<open>\<open>inet_pton\<close> gets the characters up to the next NUL: \<open>after\<close> is the memory behind the \<open>string_view\<close>.\<close>

definition from_ip_port ::
  "(nat \<Rightarrow> string \<Rightarrow> u8 list option) \<Rightarrow> string \<Rightarrow> string \<Rightarrow> int \<Rightarrow> SocketAddress result" where
  "from_ip_port inet_pton after ip port =
    (let port = htons (word_of_int port); text = takeWhile (\<lambda>c. c \<noteq> CHR 0x00) (ip @ after) in
     case inet_pton af_inet text of
       Some a \<Rightarrow> Inr \<lparr>ss_family = af_inet, sin_port = port, sin_addr = a\<rparr>
     | None \<Rightarrow> (case inet_pton af_inet6 text of
         Some a \<Rightarrow> Inr \<lparr>ss_family = af_inet6, sin_port = port, sin_addr = a\<rparr>
       | None \<Rightarrow> Inl (Error invalid_argument (''invalid ip: '' @ ip))))"

definition is_v4 :: "SocketAddress \<Rightarrow> bool" where "is_v4 a \<longleftrightarrow> ss_family a = af_inet"
definition is_v6 :: "SocketAddress \<Rightarrow> bool" where "is_v6 a \<longleftrightarrow> ss_family a = af_inet6"

definition socklen :: "SocketAddress \<Rightarrow> nat" where
  "socklen a = (if is_v4 a then 16 else if is_v6 a then 28 else 0)"

definition addr_port :: "SocketAddress \<Rightarrow> int" where
  "addr_port a = (if is_v4 a then uint (htons (sin_port a)) else if is_v6 a then uint (htons (sin_port a)) else 0)"

definition set_port :: "int \<Rightarrow> SocketAddress \<Rightarrow> SocketAddress" where
  "set_port port a =
    (if is_v4 a then a\<lparr>sin_port := htons (word_of_int port)\<rparr>
     else if is_v6 a then a\<lparr>sin_port := htons (word_of_int port)\<rparr> else a)"

text \<open>\<open>inet_ntop\<close> fails for any other family.\<close>

definition to_ip_string :: "(nat \<Rightarrow> u8 list \<Rightarrow> string option) \<Rightarrow> SocketAddress \<Rightarrow> string" where
  "to_ip_string inet_ntop a =
    (case inet_ntop (ss_family a) (sin_addr a) of Some s \<Rightarrow> s | None \<Rightarrow> ''invalid'')"

definition addr_to_string :: "(nat \<Rightarrow> u8 list \<Rightarrow> string option) \<Rightarrow> SocketAddress \<Rightarrow> string" where
  "addr_to_string inet_ntop a =
    (if is_v6 a then ''['' @ to_ip_string inet_ntop a @ '']:'' @ to_string_int (addr_port a)
     else to_ip_string inet_ntop a @ '':'' @ to_string_int (addr_port a))"

definition EAI_SYSTEM :: int where "EAI_SYSTEM = - 11"
definition EAI_NONAME :: int where "EAI_NONAME = - 2"
definition EAI_SERVICE :: int where "EAI_SERVICE = - 8"
definition EAI_NODATA :: int where "EAI_NODATA = - 5"
definition EAI_AGAIN :: int where "EAI_AGAIN = - 3"
definition EAI_MEMORY :: int where "EAI_MEMORY = - 10"

definition map_getaddrinfo_err :: "int \<Rightarrow> int \<Rightarrow> string \<Rightarrow> ppnt_error" where
  "map_getaddrinfo_err errno err msg =
    (if err = EAI_SYSTEM then Error (Errno errno) []
     else Error (if err = EAI_NONAME \<or> err = EAI_SERVICE \<or> err = EAI_NODATA then address_not_available
       else if err = EAI_AGAIN then resource_unavailable_try_again
       else if err = EAI_MEMORY then not_enough_memory
       else invalid_argument) msg)"

text \<open>\<open>getaddrinfo\<close> on the host and the port as text: an error with the value of \<open>errno\<close>, or the addresses.\<close>

definition resolve_host :: "(string \<Rightarrow> string \<Rightarrow> (int \<times> int) + SocketAddress list) \<Rightarrow> string \<Rightarrow> int \<Rightarrow> SocketAddress list result" where
  "resolve_host getaddrinfo host port = (case getaddrinfo host (to_string_int port) of
      Inl (err, errno) \<Rightarrow> Inl (map_getaddrinfo_err errno err host)
    | Inr addrs \<Rightarrow> Inr addrs)"

definition resolve_first :: "(string \<Rightarrow> string \<Rightarrow> (int \<times> int) + SocketAddress list) \<Rightarrow> string \<Rightarrow> int \<Rightarrow> SocketAddress result" where
  "resolve_first getaddrinfo host port = (case resolve_host getaddrinfo host port of
      Inl e \<Rightarrow> Inl e
    | Inr [] \<Rightarrow> Inl (Error destination_address_required [])
    | Inr (a # _) \<Rightarrow> Inr a)"

lemma htons_htons [simp]: "htons (htons w) = w"
  by (rule bit_word_eqI) (auto simp: htons_def bit_simps)

lemma port_word: "uint (word_of_int p :: u16) = p mod 65536"
  by (simp add: unsigned_of_int take_bit_eq_mod)

lemma addr_port_set_port: "addr_port (set_port p a) = (if is_v4 a \<or> is_v6 a then p mod 65536 else 0)"
  by (auto simp: addr_port_def set_port_def is_v4_def is_v6_def af_inet_def af_inet6_def port_word)

text \<open>An address made from an IP text and a port has that port modulo \<open>2 ^ 16\<close>, a family whose length is known, and the bytes that
  \<open>inet_pton\<close> gives for the text, first as an IPv4 and then as an IPv6 address; setting another port changes nothing else. Without
  a NUL behind the view the characters that follow are read as part of the address.\<close>

theorem from_ip_port_spec:
  assumes "from_ip_port inet_pton after ip p = Inr a"
  shows "addr_port a = p mod 65536 \<and> socklen a \<in> {16, 28} \<and>
    inet_pton (ss_family a) (takeWhile (\<lambda>c. c \<noteq> CHR 0x00) (ip @ after)) = Some (sin_addr a) \<and>
    (is_v6 a \<longrightarrow> inet_pton af_inet (takeWhile (\<lambda>c. c \<noteq> CHR 0x00) (ip @ after)) = None) \<and>
    addr_port (set_port q a) = q mod 65536 \<and> sin_addr (set_port q a) = sin_addr a \<and> socklen (set_port q a) = socklen a"
proof -
  have "addr_port a = p mod 65536" "is_v4 a \<or> is_v6 a"
    using assms by (auto simp: from_ip_port_def addr_port_def is_v4_def is_v6_def port_word Let_def split: option.splits)
  moreover have "inet_pton (ss_family a) (takeWhile (\<lambda>c. c \<noteq> CHR 0x00) (ip @ after)) = Some (sin_addr a)"
    "is_v6 a \<longrightarrow> inet_pton af_inet (takeWhile (\<lambda>c. c \<noteq> CHR 0x00) (ip @ after)) = None"
    using assms by (auto simp: from_ip_port_def is_v6_def af_inet_def af_inet6_def Let_def split: option.splits)
  ultimately show ?thesis
    by (simp add: addr_port_set_port) (auto simp: set_port_def socklen_def is_v4_def is_v6_def)
qed

section \<open>TCP streams\<close>

text \<open>A stream is its file descriptor, -1 when it has none. The operations that close one say which.\<close>

record TcpStream =
  fd :: int

definition close_fd :: "int \<Rightarrow> int list" where
  "close_fd f = (if f \<noteq> - 1 then [f] else [])"

definition tcp_move :: "TcpStream \<Rightarrow> TcpStream \<times> TcpStream" where
  "tcp_move other = (\<lparr>fd = fd other\<rparr>, other\<lparr>fd := - 1\<rparr>)"

definition tcp_assign :: "TcpStream \<Rightarrow> TcpStream \<Rightarrow> TcpStream \<times> TcpStream \<times> int list" where
  "tcp_assign this other = (this\<lparr>fd := fd other\<rparr>, other\<lparr>fd := - 1\<rparr>, close_fd (fd this))"

definition leak_handle :: "TcpStream \<Rightarrow> int \<times> TcpStream" where
  "leak_handle this = (fd this, this\<lparr>fd := - 1\<rparr>)"

definition tcp_close :: "TcpStream \<Rightarrow> TcpStream \<times> int list" where
  "tcp_close this = (this\<lparr>fd := - 1\<rparr>, close_fd (fd this))"

text \<open>\<open>is_alive\<close> with the result of \<open>recv\<close> and \<open>errno\<close>.\<close>

definition e_again :: int where "e_again = 11"

definition is_alive :: "int \<Rightarrow> int \<Rightarrow> TcpStream \<Rightarrow> bool" where
  "is_alive n errno this =
    (if fd this < 0 then False else if 0 < n then False else if n = 0 then False else errno = e_again)"

text \<open>\<open>connect\<close> with the results of \<open>socket\<close> and of the awaited operation, and the descriptors closed.\<close>

definition tcp_connect ::
  "(nat \<Rightarrow> u8 list \<Rightarrow> string option) \<Rightarrow> int \<Rightarrow> int \<Rightarrow> int \<Rightarrow> SocketAddress \<Rightarrow> TcpStream result \<times> int list" where
  "tcp_connect inet_ntop sock errno res addr =
    (if sock < 0 then (Inl (Error (System errno) []), [])
     else (case map_async_connect_result res of
       Inl e \<Rightarrow> (Inl (Error (err_code e) (''cannot connect to '' @ addr_to_string inet_ntop addr)), close_fd sock)
     | Inr _ \<Rightarrow> (Inr \<lparr>fd = sock\<rparr>, [])))"

definition tcp_connect_host ::
  "(string \<Rightarrow> string \<Rightarrow> (int \<times> int) + SocketAddress list) \<Rightarrow> (SocketAddress \<Rightarrow> TcpStream result \<times> int list) \<Rightarrow>
    string \<Rightarrow> int \<Rightarrow> TcpStream result \<times> int list" where
  "tcp_connect_host getaddrinfo connect host port = (case resolve_host getaddrinfo host port of
      Inl e \<Rightarrow> (Inl e, [])
    | Inr [] \<Rightarrow> (Inl (Error destination_address_required (''failed to connect to '' @ host @ '':'' @ to_string_int port)), [])
    | Inr (a # _) \<Rightarrow> connect a)"

subsection \<open>Whole buffers\<close>

text \<open>
  \<open>rd nbytes s\<close> is the awaited read of at most \<open>nbytes\<close> bytes: the result of the operation, the bytes it stored, and the state of the
  socket. The size of the span is narrowed to \<open>unsigned\<close>.
\<close>

definition store_bytes :: "nat \<Rightarrow> u8 list \<Rightarrow> u8 list \<Rightarrow> u8 list" where
  "store_bytes off bs buf = take (length buf) (take off buf @ bs @ drop (off + length bs) buf)"

lemma length_store_bytes [simp]: "off \<le> length buf \<Longrightarrow> length (store_bytes off bs buf) = length buf"
  by (simp add: store_bytes_def)

function read_exact ::
  "(u32 \<Rightarrow> 's \<Rightarrow> int \<times> u8 list \<times> 's) \<Rightarrow> u8 list \<Rightarrow> nat \<Rightarrow> 's \<Rightarrow> unit result \<times> u8 list \<times> 's" where
  "read_exact rd buf total_read s =
    (if total_read < length buf
     then let (res, bs, s) = rd (of_nat (length buf - total_read)) s;
              buf = store_bytes total_read bs buf
          in (case map_async_read_result res of
                Inl e \<Rightarrow> (Inl e, buf, s)
              | Inr n \<Rightarrow> if n = 0 then (Inl (Error io_error ''read_exact EOF''), buf, s)
                  else read_exact rd buf (total_read + nat n) s)
     else (Inr (), buf, s))"
  by pat_completeness auto
termination
  by (relation "measure (\<lambda>(rd, buf, total_read, s). length buf - total_read)")
    (auto simp: map_async_read_result_def common_async_int_mapper_def split: if_splits)

text \<open>\<open>wr bs s\<close> is the awaited write of the bytes \<open>bs\<close>.\<close>

function write_all :: "(u8 list \<Rightarrow> 's \<Rightarrow> int \<times> 's) \<Rightarrow> u8 list \<Rightarrow> nat \<Rightarrow> 's \<Rightarrow> unit result \<times> 's" where
  "write_all wr buf total_written s =
    (if total_written < length buf
     then let rest = drop total_written buf;
              (res, s) = wr (take (unat (of_nat (length rest) :: u32)) rest) s
          in (case map_async_write_result res of
                Inl e \<Rightarrow> (Inl e, s)
              | Inr n \<Rightarrow> if n = 0 then (Inl (Error broken_pipe ''write_all broken pipe''), s)
                  else write_all wr buf (total_written + nat n) s)
     else (Inr (), s))"
  by pat_completeness auto
termination
  by (relation "measure (\<lambda>(wr, buf, total_written, s). length buf - total_written)")
    (auto simp: map_async_write_result_def common_async_int_mapper_def split: if_splits)

declare read_exact.simps [simp del] write_all.simps [simp del]

text \<open>
  What the kernel promises of a read and of a write: \<open>pending\<close> are the bytes of the stream not yet read, \<open>sent\<close> those accepted so far.
\<close>

definition reads :: "('s \<Rightarrow> u8 list) \<Rightarrow> (u32 \<Rightarrow> 's \<Rightarrow> int \<times> u8 list \<times> 's) \<Rightarrow> bool" where
  "reads pending rd \<longleftrightarrow> (\<forall>n s. case rd n s of (res, bs, s') \<Rightarrow>
     int (length bs) = max 0 res \<and> res \<le> uint n \<and> pending s = bs @ pending s')"

definition writes :: "('s \<Rightarrow> u8 list) \<Rightarrow> (u8 list \<Rightarrow> 's \<Rightarrow> int \<times> 's) \<Rightarrow> bool" where
  "writes sent wr \<longleftrightarrow> (\<forall>bs s. case wr bs s of (res, s') \<Rightarrow>
     res \<le> int (length bs) \<and> sent s' = sent s @ take (nat res) bs)"

lemma uint_of_nat_le: "uint (of_nat n :: u32) \<le> int n"
  by (simp add: unsigned_of_nat of_nat_take_bit take_bit_eq_mod zmod_le_nonneg_dividend)

lemma reads_one:
  assumes "reads pending rd" "rd (of_nat n) s = (res, bs, s')"
  shows "length bs = nat res" "nat res \<le> n" "pending s = bs @ pending s'"
proof -
  have "int (length bs) = max 0 res" "res \<le> uint (of_nat n :: u32)" "pending s = bs @ pending s'"
    using assms by (auto simp: reads_def split: prod.splits)
  then show "length bs = nat res" "nat res \<le> n" "pending s = bs @ pending s'"
    using uint_of_nat_le [of n] by auto
qed

lemma store_bytes_at:
  assumes "off + length bs \<le> length buf"
  shows "take (off + length bs) (store_bytes off bs buf) = take off buf @ bs"
    "drop (off + length bs) (store_bytes off bs buf) = drop (off + length bs) buf"
  using assms by (simp_all add: store_bytes_def)

lemma store_nothing: "off \<le> length buf \<Longrightarrow> store_bytes off [] buf = buf"
  by (simp add: store_bytes_def)

lemma read_exact_from:
  assumes "reads pending rd"
  shows "t \<le> length buf \<Longrightarrow> read_exact rd buf t s = (r, buf', s') \<Longrightarrow>
    length buf' = length buf \<and> take t buf' = take t buf \<and>
    (\<exists>k\<ge>t. k \<le> length buf \<and> pending s = drop t (take k buf') @ pending s' \<and> drop k buf' = drop k buf \<and>
      (isl r \<longleftrightarrow> k < length buf))"
proof (induction "length buf - t" arbitrary: buf t s rule: less_induct)
  case less
  show ?case
  proof (cases "t < length buf")
    case False
    then have "t = length buf" "r = Inr ()" "buf' = buf" "s' = s"
      using less.prems by (auto simp: read_exact.simps)
    then show ?thesis by auto
  next
    case True
    obtain res bs s1 where one: "rd (of_nat (length buf - t)) s = (res, bs, s1)" by (metis prod_cases3)
    note bs = reads_one [OF assms one]
    show ?thesis
    proof (cases "0 < res")
      case False
      then have "isl r" "buf' = buf" "s' = s1"
        using less.prems(2) True one bs(1) store_nothing [of t buf]
        by (auto simp: read_exact.simps [of rd buf t s] map_async_read_result_def common_async_int_mapper_def Let_def split: if_splits)
      then show ?thesis
        using False bs True by (intro conjI exI [of _ t]) auto
    next
      case pos: True
      let ?buf = "store_bytes t bs buf"
      have step: "read_exact rd ?buf (t + length bs) s1 = (r, buf', s')"
        using less.prems(2) True one pos bs(1)
        by (simp add: read_exact.simps [of rd buf t s] map_async_read_result_def common_async_int_mapper_def Let_def)
      have le: "t + length bs \<le> length buf" and gt: "0 < length bs"
        using bs(1, 2) pos True by auto
      have len: "length ?buf = length buf"
        using True by simp
      have dec: "length ?buf - (t + length bs) < length buf - t"
        using le gt unfolding len by linarith
      obtain k where k: "length buf' = length buf" "take (t + length bs) buf' = take (t + length bs) ?buf"
        "t + length bs \<le> k" "k \<le> length buf" "pending s1 = drop (t + length bs) (take k buf') @ pending s'" "drop k buf' = drop k ?buf"
        "isl r \<longleftrightarrow> k < length buf"
        using less.hyps [OF dec _ step] le len by auto
      have pre: "take (t + length bs) buf' = take t buf @ bs"
        using k(2) store_bytes_at(1) [OF le] by simp
      have "take t buf' = take t buf"
        using arg_cong [OF pre, of "take t"] True by (simp add: min_def)
      moreover have "drop t (take k buf') = bs @ drop (t + length bs) (take k buf')"
      proof -
        have "take (length bs) (drop t (take k buf')) = drop t (take (t + length bs) buf')"
          using k(3) by (simp add: take_drop min_def add.commute)
        also have "\<dots> = bs"
          using pre True by simp
        finally show ?thesis
          by (metis append_take_drop_id drop_drop add.commute)
      qed
      moreover have "drop k ?buf = drop k buf"
        using store_bytes_at(2) [OF le] k(3) by (metis drop_drop le_add_diff_inverse2)
      ultimately show ?thesis
        using k bs(3) by (intro conjI exI [of _ k]) auto
    qed
  qed
qed

lemma writes_one:
  assumes "writes sent wr" "wr bs s = (res, s')"
  shows "nat res \<le> length bs" "sent s' = sent s @ take (nat res) bs"
  using assms(1) [unfolded writes_def, rule_format, of bs s] assms(2) by auto

lemma write_all_from:
  assumes "writes sent wr"
  shows "t \<le> length buf \<Longrightarrow> write_all wr buf t s = (r, s') \<Longrightarrow>
    \<exists>k\<ge>t. k \<le> length buf \<and> sent s' = sent s @ drop t (take k buf) \<and> (isl r \<longleftrightarrow> k < length buf)"
proof (induction "length buf - t" arbitrary: t s rule: less_induct)
  case less
  show ?case
  proof (cases "t < length buf")
    case False
    then have "t = length buf" "r = Inr ()" "s' = s"
      using less.prems by (auto simp: write_all.simps)
    then show ?thesis by auto
  next
    case True
    let ?offered = "take (unat (of_nat (length (drop t buf)) :: u32)) (drop t buf)"
    obtain res s1 where one: "wr ?offered s = (res, s1)" by (metis prod.collapse)
    note w = writes_one [OF assms one]
    show ?thesis
    proof (cases "0 < res")
      case False
      then have "isl r" "s' = s1"
        using less.prems(2) True one
        by (auto simp: write_all.simps [of wr buf t s] map_async_write_result_def common_async_int_mapper_def Let_def split: if_splits)
      then show ?thesis
        using False w(2) True by (intro exI [of _ t]) auto
    next
      case pos: True
      have step: "write_all wr buf (t + nat res) s1 = (r, s')"
        using less.prems(2) True one pos
        by (simp add: write_all.simps [of wr buf t s] map_async_write_result_def common_async_int_mapper_def Let_def)
      have le: "t + nat res \<le> length buf"
        using w(1) True by auto
      have dec: "length buf - (t + nat res) < length buf - t"
        using pos True by simp
      have s1: "sent s1 = sent s @ take (nat res) (drop t buf)"
        using w by (simp add: min_absorb1)
      obtain k where k: "t + nat res \<le> k" "k \<le> length buf" "sent s' = sent s1 @ drop (t + nat res) (take k buf)"
        "isl r \<longleftrightarrow> k < length buf"
        using less.hyps [OF dec le step] by blast
      have "take (nat res) (drop t buf) @ drop (t + nat res) (take k buf) = drop t (take k buf)"
      proof -
        have "take (nat res) (drop t buf) = take (nat res) (drop t (take k buf))"
          using k(1) by (simp add: take_drop min_def add.commute)
        then show ?thesis
          by (metis append_take_drop_id drop_drop add.commute)
      qed
      then show ?thesis
        using k s1 by (intro exI [of _ k]) simp
    qed
  qed
qed

text \<open>C22: \<open>write_all\<close> and \<open>read_exact\<close> return, however the kernel splits the transfers. \<open>write_all\<close> succeeds exactly when the whole
  buffer was accepted, and otherwise a proper prefix of it was. \<open>read_exact\<close> succeeds exactly when the buffer was filled with the
  next bytes of the stream; otherwise a proper prefix was, the rest of the buffer is unchanged, and no byte of the stream is lost.\<close>

theorem whole_buffers:
  assumes "writes sent wr" "reads pending rd"
  shows "(case write_all wr buf 0 s of (r, s') \<Rightarrow>
      \<exists>k\<le>length buf. sent s' = sent s @ take k buf \<and> (r = Inr () \<longleftrightarrow> k = length buf)) \<and>
    (case read_exact rd dst 0 t of (r, dst', t') \<Rightarrow>
      length dst' = length dst \<and> (\<exists>k\<le>length dst. pending t = take k dst' @ pending t' \<and> drop k dst' = drop k dst \<and>
        (r = Inr () \<longleftrightarrow> k = length dst)))"
proof -
  have isl: "isl r \<longleftrightarrow> r \<noteq> Inr ()" for r :: "unit result"
    by (cases r) auto
  obtain r s' q dst' t' where runs: "write_all wr buf 0 s = (r, s')" "read_exact rd dst 0 t = (q, dst', t')"
    by (metis prod_cases3 prod.collapse)
  have "\<exists>k\<le>length buf. sent s' = sent s @ take k buf \<and> (r = Inr () \<longleftrightarrow> k = length buf)"
    using write_all_from [OF assms(1) _ runs(1)] by (auto simp: isl)
  moreover have "length dst' = length dst \<and> (\<exists>k\<le>length dst. pending t = take k dst' @ pending t' \<and> drop k dst' = drop k dst \<and>
      (q = Inr () \<longleftrightarrow> k = length dst))"
    using read_exact_from [OF assms(2) _ runs(2)] by (auto simp: isl)
  ultimately show ?thesis by (simp add: runs)
qed

definition two_bytes_written :: "u8 list \<Rightarrow> u8 list \<Rightarrow> int \<times> u8 list" where
  "two_bytes_written bs s = (int (length (take 2 bs)), s @ take 2 bs)"

definition two_bytes_read :: "u32 \<Rightarrow> u8 list \<Rightarrow> int \<times> u8 list \<times> u8 list" where
  "two_bytes_read n s = (let k = min 2 (unat n) in (int (length (take k s)), take k s, drop k s))"

theorem whole_buffers_witness:
  "write_all two_bytes_written [1, 2, 3] 0 [] = (Inr (), [1, 2, 3]) \<and>
   read_exact two_bytes_read [0, 0, 0] 0 [1, 2, 3, 4] = (Inr (), [1, 2, 3], [4])"
proof -
  have n: "int (unat n) = uint n" for n :: u32 by simp
  have "int (min (length s) (min 2 (unat n))) \<le> uint n" for s :: "u8 list" and n :: u32
    unfolding n [symmetric] by linarith
  then have rd: "reads (\<lambda>s. s) two_bytes_read"
    by (simp add: reads_def two_bytes_read_def Let_def)
  have wr: "writes (\<lambda>s. s) two_bytes_written"
    by (auto simp: writes_def two_bytes_written_def min_def)
  have "fst (write_all two_bytes_written [1, 2, 3] 0 []) = Inr ()"
    "fst (read_exact two_bytes_read [0, 0, 0] 0 [1, 2, 3, 4]) = Inr ()"
    by code_simp+
  then obtain s' dst t' where ok: "write_all two_bytes_written [1, 2, 3] 0 [] = (Inr (), s')"
    "read_exact two_bytes_read [0, 0, 0] 0 [1, 2, 3, 4] = (Inr (), dst, t')"
    by (metis prod.collapse)
  then have s': "s' = [1, 2, 3]" and dst: "length dst = 3" "[1, 2, 3, 4] = dst @ t'"
    using whole_buffers [OF wr rd, of "[1, 2, 3]" "[]" "[0, 0, 0]" "[1, 2, 3, 4]"] by auto
  from dst have "dst = [1, 2, 3]" "t' = [4]"
    by (auto simp: length_Suc_conv numeral_3_eq_3)
  then show ?thesis
    using ok s' by simp
qed

section \<open>The accept loop\<close>

text \<open>\<open>init_accept_socket\<close> with the results of \<open>socket\<close>, \<open>bind\<close> and \<open>listen\<close>: what it returns and the descriptors closed.\<close>

definition init_accept_socket :: "int \<Rightarrow> int \<Rightarrow> int \<Rightarrow> int \<times> int list" where
  "init_accept_socket socket bound listening =
    (if socket < 0 then (socket, [])
     else if bound < 0 then (bound, [socket])
     else if listening < 0 then (listening, [socket])
     else (socket, []))"

definition prep_accept :: "'k enter \<Rightarrow> u32 \<Rightarrow> u64 \<Rightarrow> 'k Ring \<Rightarrow> 'k Ring outcome" where
  "prep_accept enter f p r = submit enter p (\<lambda>sqe. io_uring_prep_multishot_accept sqe f 0 0 0) r"

text \<open>
  The coroutine \<open>run_accept_loop\<close> with its operation at \<open>p\<close> and the handle \<open>h\<close>: up to the first suspension, and from one suspension to
  the next. \<open>spawn\<close> starts a handler for a connection.
\<close>

definition accept_start :: "'k enter \<Rightarrow> int \<Rightarrow> u64 \<Rightarrow> u64 \<Rightarrow> 'k Ring \<Rightarrow> 'k Ring outcome" where
  "accept_start enter socket_fd p h r =
    (let r = op_update p (\<lambda>op. op\<lparr>op_handle := h\<rparr>) r in
     if socket_fd < 0 then Terminated else prep_accept enter (word_of_int socket_fd) p r)"

definition accept_resumed :: "(int \<Rightarrow> 'k Ring \<Rightarrow> 'k Ring) \<Rightarrow> u64 \<Rightarrow> u64 \<Rightarrow> 'k Ring \<Rightarrow> 'k Ring outcome" where
  "accept_resumed spawn p h r =
    (let op = ops r p in
     if \<not> flag_set (op_cqe_flags op) IORING_CQE_F_MORE then Terminated
     else if 0 \<le> op_result op
     then Ok (op_update p (\<lambda>op. (reset 0 op)\<lparr>op_handle := h\<rparr>) (spawn (op_result op) r))
     else Terminated)"

text \<open>What is assumed of \<open>resume\<close> on the handle of the loop: it runs the loop to its next suspension.\<close>

definition resumes_accept :: "(u64 \<Rightarrow> 'k Ring \<Rightarrow> 'k Ring) \<Rightarrow> (int \<Rightarrow> 'k Ring \<Rightarrow> 'k Ring) \<Rightarrow> u64 \<Rightarrow> u64 \<Rightarrow> bool" where
  "resumes_accept resume spawn p h \<longleftrightarrow>
    (\<forall>r r'. op_ref_count (ops r p) = 0 \<longrightarrow> accept_resumed spawn p h r = Ok r' \<longrightarrow> resume h r = r')"

definition accept_armed :: "u64 \<Rightarrow> u64 \<Rightarrow> 'k Ring \<Rightarrow> bool" where
  "accept_armed p h r \<longleftrightarrow> op_handle (ops r p) = h \<and> op_ref_count (ops r p) = 1 \<and> p \<noteq> ev_op r"

definition connection :: "io_uring_cqe \<Rightarrow> bool" where
  "connection c \<longleftrightarrow> \<not> is_timeout_cqe c \<and> flag_set (cqe_flags c) IORING_CQE_F_MORE \<and> 0 \<le> sint (cqe_res c)"

lemma accept_armed_other:
  assumes "untouched_in_flight resume p" "cqe_op c \<noteq> p" "accept_armed p h (snd s)"
  shows "accept_armed p h (snd (handle_cqe resume c s))"
  using handle_cqe_other [OF assms(1, 2), of "snd s" "fst s"] handle_cqe_ev_op [OF assms(1), of c s] assms(3)
  by (simp add: accept_armed_def)

lemma connection_completes:
  assumes "connection c" "accept_armed p h r"
  shows "op_result (complete_op c (ops r p)) = sint (cqe_res c)" "op_cqe_flags (complete_op c (ops r p)) = cqe_flags c"
    "op_ref_count (complete_op c (ops r p)) = 0" "op_handle (complete_op c (ops r p)) = h"
  using assms by (auto simp: complete_op_def connection_def accept_armed_def e_canceled_def Let_def)

lemma accept_armed_own:
  assumes "untouched_in_flight resume p" "resumes_accept resume spawn p h" "cqe_op c = p" "connection c" "accept_armed p h (snd s)"
    "p \<noteq> 0" "h \<noteq> 0"
  shows "accept_armed p h (snd (handle_cqe resume c s))"
proof -
  let ?r = "op_update p (complete_op c) (snd s)"
  note c = connection_completes [OF assms(4, 5)]
  have r: "ops ?r p = complete_op c (ops (snd s) p)" by (simp add: op_update_def)
  have "accept_resumed spawn p h ?r = Ok (op_update p (\<lambda>op. (reset 0 op)\<lparr>op_handle := h\<rparr>) (spawn (sint (cqe_res c)) ?r))"
    using assms(4) by (simp add: accept_resumed_def r c connection_def Let_def)
  then have res: "resume h ?r = op_update p (\<lambda>op. (reset 0 op)\<lparr>op_handle := h\<rparr>) (spawn (sint (cqe_res c)) ?r)"
    using assms(2) by (simp add: resumes_accept_def r c)
  have "handle_cqe resume c s = (fst s, resume h ?r)"
    using assms(3, 5-7) c by (simp add: handle_cqe_def r accept_armed_def case_prod_unfold Let_def)
  moreover have "op_handle (ops (resume h ?r) p) = h" "op_ref_count (ops (resume h ?r) p) = 1"
    unfolding res by (simp_all add: op_update_def reset_def)
  ultimately show ?thesis
    using handle_cqe_ev_op [OF assms(1), of c s] assms(5) by (simp add: accept_armed_def)
qed

text \<open>C28: The accept loop gets every connection exactly once and in the order in which the kernel reports them, whatever completions
  of other operations come between: the operation of the multishot accept is armed again before the next completion is handled.\<close>

theorem connections_accepted_once:
  assumes "untouched_in_flight resume p" "resumes_accept resume spawn p h" "p \<noteq> 0" "h \<noteq> 0"
    and "accept_armed p h (snd s)" "\<forall>c\<in>set cs. cqe_op c = p \<longrightarrow> connection c"
  shows "filter (\<lambda>e. fst e = p) (resumed resume cs s) =
      map (\<lambda>c. (p, h, sint (cqe_res c))) (filter (\<lambda>c. cqe_op c = p) cs) \<and>
    accept_armed p h (snd (fold (handle_cqe resume) cs s))"
  using assms(5, 6)
proof (induction cs arbitrary: s)
  case (Cons c cs)
  show ?case
  proof (cases "cqe_op c = p")
    case True
    then have "connection c" using Cons.prems(2) by simp
    then show ?thesis
      using Cons True accept_armed_own [OF assms(1, 2) True _ Cons.prems(1) assms(3, 4)] connection_completes [of c p h "snd s"] assms(3, 4)
      by (simp add: Let_def accept_armed_def)
  next
    case False
    then show ?thesis
      using Cons accept_armed_other [OF assms(1) False Cons.prems(1)] by (simp add: Let_def)
  qed
qed simp

definition sample_resume :: "u64 \<Rightarrow> unit Ring \<Rightarrow> unit Ring" where
  "sample_resume h r =
    (if h = 7 \<and> op_ref_count (ops r 64) = 0
     then (case accept_resumed (\<lambda>_ r. r) 64 7 r of Ok r' \<Rightarrow> r' | _ \<Rightarrow> r) else r)"

definition sample_connections :: "io_uring_cqe list" where
  "sample_connections =
     [\<lparr>cqe_user_data = 64, cqe_res = 9, cqe_flags = 2\<rparr>, \<lparr>cqe_user_data = 96, cqe_res = 5, cqe_flags = 0\<rparr>,
      \<lparr>cqe_user_data = 64, cqe_res = 10, cqe_flags = 2\<rparr>]"

theorem connections_accepted_once_witness:
  "filter (\<lambda>e. fst e = 64) (resumed sample_resume sample_connections (False, sample_driver 0 sample_ring)) =
    [(64, 7, 9), (64, 7, 10)]"
proof -
  have ops: "filter (\<lambda>c. cqe_op c = 64) sample_connections = [sample_connections ! 0, sample_connections ! 2]"
    by code_simp
  have "\<forall>c\<in>set sample_connections. cqe_op c = 64 \<longrightarrow> connection c"
    by code_simp
  moreover have "untouched_in_flight sample_resume 64"
    by (auto simp: untouched_in_flight_def sample_resume_def accept_resumed_def op_update_def Let_def)
  moreover have "resumes_accept sample_resume (\<lambda>_ r. r) 64 7"
    by (simp add: resumes_accept_def sample_resume_def)
  moreover have "accept_armed 64 7 (sample_driver 0 sample_ring)"
    by (simp add: accept_armed_def sample_driver_def)
  ultimately show ?thesis
    using connections_accepted_once [of sample_resume 64 "\<lambda>_ r. r" 7 "(False, sample_driver 0 sample_ring)" sample_connections]
    by (simp add: ops) (simp add: sample_connections_def)
qed


end
