(* ===== verification/Tls.thy ===== *)
theory Tls
  imports Net "HOL-Library.Sublist"
begin

text \<open>
  TLS streams (\<open>net/ssl.ixx\<close>, \<open>net/ssl.cpp\<close>) over a TCP stream. BoringSSL is a parameter: an operation on a connection is given the bytes
  that wait in its BIO and the space left for what it sends, and returns its result, the code of \<open>SSL_get_error\<close>, how many bytes it
  took, the bytes it sends, and its new state.
\<close>

section \<open>Operations\<close>

type_synonym 'e ssl_op = "'e \<Rightarrow> u8 list \<Rightarrow> nat \<Rightarrow> int \<times> int \<times> nat \<times> u8 list \<times> 'e"

definition SSL_ERROR_WANT_READ :: int where "SSL_ERROR_WANT_READ = 2"
definition SSL_ERROR_WANT_WRITE :: int where "SSL_ERROR_WANT_WRITE = 3"
definition SSL_ERROR_ZERO_RETURN :: int where "SSL_ERROR_ZERO_RETURN = 6"

lemmas ssl_errors = SSL_ERROR_WANT_READ_def SSL_ERROR_WANT_WRITE_def SSL_ERROR_ZERO_RETURN_def

text \<open>The size of each direction of the BIO pair, which is also that of \<open>io_buffer_\<close>.\<close>

definition bio_size :: nat where "bio_size = 16384"

record ('s, 'e) TlsStream =
  inner :: 's
  ssl :: 'e
  bio_in :: "u8 list"
  bio_out :: "u8 list"

function flush_bio_to_tcp :: "(u8 list \<Rightarrow> 's \<Rightarrow> int \<times> 's) \<Rightarrow> ('s, 'e) TlsStream \<Rightarrow> unit result \<times> ('s, 'e) TlsStream" where
  "flush_bio_to_tcp wr t =
    (if bio_out t = [] then (Inr (), t)
     else let chunk = take bio_size (bio_out t);
              (r, s) = write_all wr chunk 0 (inner t);
              t = t\<lparr>inner := s, bio_out := drop bio_size (bio_out t)\<rparr>
          in (case r of Inl e \<Rightarrow> (Inl e, t) | Inr _ \<Rightarrow> flush_bio_to_tcp wr t))"
  by pat_completeness auto
termination
  by (relation "measure (\<lambda>(wr, t). length (bio_out t))") (auto simp: bio_size_def)

declare flush_bio_to_tcp.simps [simp del]

text \<open>\<open>fill_bio_from_tcp\<close> with \<open>rd\<close> for \<open>read_bs\<close>, which gives its result and the bytes in its buffer.\<close>

definition fill_bio_from_tcp :: "('s \<Rightarrow> int \<times> u8 list \<times> 's) \<Rightarrow> ('s, 'e) TlsStream \<Rightarrow> int result \<times> ('s, 'e) TlsStream" where
  "fill_bio_from_tcp rd t =
    (let (n, bs, s) = rd (inner t); t = t\<lparr>inner := s\<rparr> in
     if n < 0 then (Inl (Error (Errno (- n)) []), t)
     else if 0 < n
     then let written = min (length bs) (bio_size - length (bio_in t)); t = t\<lparr>bio_in := bio_in t @ take written bs\<rparr> in
       if int written \<noteq> n then (Inl (Error broken_pipe ''CRITICAL DATA LOSS''), t) else (Inr n, t)
     else (Inr n, t))"

definition call_ssl :: "'e ssl_op \<Rightarrow> ('s, 'e) TlsStream \<Rightarrow> int \<times> int \<times> ('s, 'e) TlsStream" where
  "call_ssl op t = (case op (ssl t) (bio_in t) (bio_size - length (bio_out t)) of
     (ret, err, k, out, e) \<Rightarrow> (ret, err, t\<lparr>ssl := e, bio_in := drop k (bio_in t), bio_out := bio_out t @ out\<rparr>))"

text \<open>The texts of the errors that BoringSSL has queued are \<open>msg\<close>.\<close>

partial_function (option) run_ssl_op ::
    "'e ssl_op \<Rightarrow> ('e \<Rightarrow> string) \<Rightarrow> (u8 list \<Rightarrow> 's \<Rightarrow> int \<times> 's) \<Rightarrow> ('s \<Rightarrow> int \<times> u8 list \<times> 's) \<Rightarrow> ('s, 'e) TlsStream \<Rightarrow>
      (int result \<times> ('s, 'e) TlsStream) option" where
  "run_ssl_op op msg wr rd t =
    (case call_ssl op t of (ret, err, t) \<Rightarrow>
     (case flush_bio_to_tcp wr t of
       (Inl e, t) \<Rightarrow> Some (Inl e, t)
     | (Inr _, t) \<Rightarrow>
         if 0 < ret then Some (Inr ret, t)
         else if err = SSL_ERROR_WANT_READ
         then (case fill_bio_from_tcp rd t of
             (Inl e, t) \<Rightarrow> Some (Inl e, t)
           | (Inr n, t) \<Rightarrow>
               if n = 0 then Some (Inl (Error connection_aborted ''SSL EOF: Peer closed connection while waiting for TLS record''), t)
               else run_ssl_op op msg wr rd t)
         else if err = SSL_ERROR_WANT_WRITE then run_ssl_op op msg wr rd t
         else if err = SSL_ERROR_ZERO_RETURN then Some (Inr 0, t)
         else Some (Inl (Error protocol_error (''ssl_err is '' @ to_string_int err @ '', msg: '' @ msg (ssl t))), t)))"

declare run_ssl_op.simps [code]

text \<open>
  \<open>read\<close> and \<open>write\<close> pass the size of the span as an \<open>int\<close>. \<open>handshake\<close> ends with the line that it logs: the protocol that was
  negotiated is \<open>alpn_selected\<close>.
\<close>

definition tls_read ::
    "(int \<Rightarrow> 'e ssl_op) \<Rightarrow> ('e \<Rightarrow> string) \<Rightarrow> (u8 list \<Rightarrow> 's \<Rightarrow> int \<times> 's) \<Rightarrow> ('s \<Rightarrow> int \<times> u8 list \<times> 's) \<Rightarrow> nat \<Rightarrow> ('s, 'e) TlsStream \<Rightarrow>
      (int result \<times> ('s, 'e) TlsStream) option" where
  "tls_read ssl_read msg wr rd n t = run_ssl_op (ssl_read (sint (of_nat n :: u32))) msg wr rd t"

definition tls_write ::
    "(u8 list \<Rightarrow> int \<Rightarrow> 'e ssl_op) \<Rightarrow> ('e \<Rightarrow> string) \<Rightarrow> (u8 list \<Rightarrow> 's \<Rightarrow> int \<times> 's) \<Rightarrow> ('s \<Rightarrow> int \<times> u8 list \<times> 's) \<Rightarrow> u8 list \<Rightarrow>
      ('s, 'e) TlsStream \<Rightarrow> (int result \<times> ('s, 'e) TlsStream) option" where
  "tls_write ssl_write msg wr rd buf t = run_ssl_op (ssl_write buf (sint (of_nat (length buf) :: u32))) msg wr rd t"

definition tls_handshake ::
    "'e ssl_op \<Rightarrow> ('e \<Rightarrow> string) \<Rightarrow> ('e \<Rightarrow> string) \<Rightarrow> (u8 list \<Rightarrow> 's \<Rightarrow> int \<times> 's) \<Rightarrow> ('s \<Rightarrow> int \<times> u8 list \<times> 's) \<Rightarrow> ('s, 'e) TlsStream \<Rightarrow>
      (unit result \<times> string option \<times> ('s, 'e) TlsStream) option" where
  "tls_handshake ssl_do_handshake alpn_selected msg wr rd t = map_option
    (\<lambda>(r, t). case r of
       Inl e \<Rightarrow> (Inl e, None, t)
     | Inr _ \<Rightarrow> (Inr (), Some (if 0 < length (alpn_selected (ssl t)) then ''Negotiated Protocol: '' @ alpn_selected (ssl t)
         else ''Negotiated Protocol not found''), t)) (run_ssl_op ssl_do_handshake msg wr rd t)"

definition tls_close :: "('s \<Rightarrow> 's) \<Rightarrow> ('s, 'e) TlsStream \<Rightarrow> ('s, 'e) TlsStream" where
  "tls_close close t = t\<lparr>inner := close (inner t)\<rparr>"

text \<open>\<open>shutdown\<close> closes the inner stream unless it fails with an error that is not tolerated.\<close>

definition tolerate_eof_shutdown :: "ppnt_error \<Rightarrow> bool" where
  "tolerate_eof_shutdown e \<longleftrightarrow>
    same_code (err_code e) connection_aborted \<or> same_code (err_code e) protocol_error \<and> starts_with ''ssl_err is 5'' (err_msg e)"

definition tls_shutdown ::
    "'e ssl_op \<Rightarrow> ('e \<Rightarrow> string) \<Rightarrow> (u8 list \<Rightarrow> 's \<Rightarrow> int \<times> 's) \<Rightarrow> ('s \<Rightarrow> int \<times> u8 list \<times> 's) \<Rightarrow> ('s \<Rightarrow> 's) \<Rightarrow> ('s, 'e) TlsStream \<Rightarrow>
      (unit result \<times> ('s, 'e) TlsStream) option" where
  "tls_shutdown ssl_shutdown msg wr rd close t = map_option
    (\<lambda>(r, t). case r of
       Inl e \<Rightarrow> if tolerate_eof_shutdown e then (Inr (), t\<lparr>inner := close (inner t)\<rparr>) else (Inl e, t)
     | Inr _ \<Rightarrow> (Inr (), t\<lparr>inner := close (inner t)\<rparr>)) (run_ssl_op ssl_shutdown msg wr rd t)"

definition is_h2_negotiated :: "u8 list \<Rightarrow> bool" where
  "is_h2_negotiated alpn \<longleftrightarrow> length alpn = 2 \<and> alpn = [0x68, 0x32]"

definition tls_is_alive :: "('s \<Rightarrow> bool) \<Rightarrow> ('e \<Rightarrow> bool) \<Rightarrow> ('s, 'e) TlsStream \<Rightarrow> bool" where
  "tls_is_alive inner_alive received_shutdown t \<longleftrightarrow> inner_alive (inner t) \<and> \<not> received_shutdown (ssl t)"

section \<open>Results\<close>

text \<open>A positive result is one that BoringSSL gave.\<close>

definition gives :: "'e ssl_op \<Rightarrow> int \<Rightarrow> bool" where
  "gives op n \<longleftrightarrow> (\<exists>e bs space. fst (op e bs space) = n)"

lemma run_ssl_op_result:
  assumes "run_ssl_op op msg wr rd t = Some x"
  shows "\<forall>n. fst x = Inr n \<longrightarrow> n = 0 \<or> 0 < n \<and> gives op n"
proof (rule run_ssl_op.raw_induct [OF _ assms], goal_cases)
  case (1 run op msg wr rd t x)
  obtain ret err t1 where c: "call_ssl op t = (ret, err, t1)" by (metis prod_cases3)
  have r: "gives op ret"
    using c unfolding gives_def by (intro exI [of _ "ssl t"] exI [of _ "bio_in t"] exI [of _ "bio_size - length (bio_out t)"])
      (auto simp: call_ssl_def split: prod.splits)
  obtain fr t2 where f: "flush_bio_to_tcp wr t1 = (fr, t2)" by (metis prod.collapse)
  obtain q t3 where q: "fill_bio_from_tcp rd t2 = (q, t3)" by (metis prod.collapse)
  note step = 1(2) [unfolded c f prod.case]
  show ?case
  proof (cases "\<exists>t. run op msg wr rd t = Some x")
    case True
    then show ?thesis using 1(1) by blast
  next
    case False
    then show ?thesis using step r by (cases fr; cases q) (auto simp: q split: if_splits)
  qed
qed

text \<open>
  \<open>read\<close> and \<open>write\<close> never report more bytes than the span has, as long as its size is an \<open>int\<close>, given that \<open>SSL_read\<close> and
  \<open>SSL_write\<close> report no more than they are asked for.
\<close>

definition bounded_op :: "(int \<Rightarrow> 'e ssl_op) \<Rightarrow> bool" where
  "bounded_op f \<longleftrightarrow> (\<forall>n e bs space. fst (f n e bs space) \<le> max 0 n)"

lemma sint_size: "n < 2 ^ 31 \<Longrightarrow> sint (of_nat n :: u32) = int n"
  by (simp add: sint_uint unsigned_of_nat take_bit_nat_eq_self signed_take_bit_int_eq_self)

lemma tls_read_size:
  assumes "bounded_op ssl_read" "k < 2 ^ 31" "tls_read ssl_read msg wr rd k t = Some (Inr n, t')"
  shows "0 \<le> n \<and> n \<le> int k"
  using run_ssl_op_result [OF assms(3) [unfolded tls_read_def sint_size [OF assms(2)]]] assms(1)
  by (auto simp: bounded_op_def gives_def) (metis max.absorb2 of_nat_0_le_iff)

lemma tls_write_size:
  assumes "bounded_op (ssl_write buf)" "length buf < 2 ^ 31" "tls_write ssl_write msg wr rd buf t = Some (Inr n, t')"
  shows "0 \<le> n \<and> n \<le> int (length buf)"
  using run_ssl_op_result [OF assms(3) [unfolded tls_write_def sint_size [OF assms(2)]]] assms(1)
  by (auto simp: bounded_op_def gives_def) (metis max.absorb2 of_nat_0_le_iff)

section \<open>Ciphertext\<close>

text \<open>
  What is relied on. BoringSSL takes a prefix of what waits for it, sends no more than there is space for, and asks to read only when
  it has taken everything; \<open>produced\<close> and \<open>consumed\<close> are all bytes it has sent and taken. It asks again at most \<open>rounds\<close> times. A
  receive gives at most 4096 bytes, and writing and receiving do not affect each other.
\<close>

definition ssl_engine :: "('e \<Rightarrow> u8 list) \<Rightarrow> ('e \<Rightarrow> u8 list) \<Rightarrow> ('e \<Rightarrow> nat) \<Rightarrow> 'e ssl_op \<Rightarrow> bool" where
  "ssl_engine produced consumed rounds op \<longleftrightarrow> (\<forall>e bs space. case op e bs space of (ret, err, k, out, e') \<Rightarrow>
     k \<le> length bs \<and> length out \<le> space \<and> produced e' = produced e @ out \<and> consumed e' = consumed e @ take k bs \<and>
     (ret \<le> 0 \<and> err = SSL_ERROR_WANT_READ \<longrightarrow> k = length bs) \<and>
     (ret \<le> 0 \<and> err \<in> {SSL_ERROR_WANT_READ, SSL_ERROR_WANT_WRITE} \<longrightarrow> rounds e' < rounds e))"

definition receives :: "('s \<Rightarrow> u8 list) \<Rightarrow> ('s \<Rightarrow> u8 list) \<Rightarrow> ('s \<Rightarrow> int \<times> u8 list \<times> 's) \<Rightarrow> bool" where
  "receives sent received rd \<longleftrightarrow> (\<forall>s. case rd s of (n, bs, s') \<Rightarrow>
     int (length bs) = max 0 n \<and> n \<le> 4096 \<and> received s' = received s @ bs \<and> sent s' = sent s)"

definition keeps_received :: "('s \<Rightarrow> u8 list) \<Rightarrow> (u8 list \<Rightarrow> 's \<Rightarrow> int \<times> 's) \<Rightarrow> bool" where
  "keeps_received received wr \<longleftrightarrow> (\<forall>bs s. received (snd (wr bs s)) = received s)"

text \<open>Everything BoringSSL sent is on the wire or waits for it, and everything received was taken or waits for BoringSSL.\<close>

definition tls_in_step :: "('s \<Rightarrow> u8 list) \<Rightarrow> ('s \<Rightarrow> u8 list) \<Rightarrow> ('e \<Rightarrow> u8 list) \<Rightarrow> ('e \<Rightarrow> u8 list) \<Rightarrow> ('s, 'e) TlsStream \<Rightarrow> bool" where
  "tls_in_step sent received produced consumed t \<longleftrightarrow>
    sent (inner t) @ bio_out t = produced (ssl t) \<and> consumed (ssl t) @ bio_in t = received (inner t)"

lemma write_all_received:
  assumes "keeps_received received wr"
  shows "received (snd (write_all wr buf k s)) = received s"
  using assms
proof (induction wr buf k s rule: write_all.induct)
  case (1 wr buf k s)
  obtain res s1 where w: "wr (take (unat (of_nat (length (drop k buf)) :: u32)) (drop k buf)) s = (res, s1)" by (metis prod.collapse)
  then have s1: "received s1 = received s" using "1.prems" unfolding keeps_received_def by (metis snd_conv)
  show ?case
  proof (cases "k < length buf \<and> 0 < res")
    case True
    have "received (snd (write_all wr buf (k + nat res) s1)) = received s1"
      using "1.IH" [OF _ refl w [symmetric] refl, of res] True "1.prems"
      by (simp add: map_async_write_result_def common_async_int_mapper_def)
    then show ?thesis using True w s1
      by (simp add: write_all.simps [of wr buf k s] map_async_write_result_def common_async_int_mapper_def)
  next
    case False
    then show ?thesis using w s1
      by (auto simp: write_all.simps [of wr buf k s] map_async_write_result_def common_async_int_mapper_def Let_def)
  qed
qed

lemma flush_spec:
  assumes wr: "writes sent wr" "keeps_received received wr"
    and step: "tls_in_step sent received produced consumed t"
    and run: "flush_bio_to_tcp wr t = (r, t')"
  shows "ssl t' = ssl t \<and> bio_in t' = bio_in t \<and> received (inner t') = received (inner t) \<and>
    (case r of Inr _ \<Rightarrow> tls_in_step sent received produced consumed t' \<and> bio_out t' = []
     | Inl _ \<Rightarrow> prefix (sent (inner t')) (produced (ssl t')))"
  using step run
proof (induction "length (bio_out t)" arbitrary: t rule: less_induct)
  case less
  show ?case
  proof (cases "bio_out t = []")
    case True
    then have "r = Inr ()" "t' = t" using less.prems(2) by (simp_all add: flush_bio_to_tcp.simps [of wr t])
    then show ?thesis using less.prems(1) True by simp
  next
    case False
    let ?chunk = "take bio_size (bio_out t)"
    obtain q s where w: "write_all wr ?chunk 0 (inner t) = (q, s)" by (metis prod.collapse)
    obtain k where k: "k \<le> length ?chunk" "sent s = sent (inner t) @ take k ?chunk" "isl q \<longleftrightarrow> k < length ?chunk"
      using write_all_from [OF wr(1) le0 w, unfolded drop0] by blast
    have rec: "received s = received (inner t)" using write_all_received [OF wr(2), of ?chunk 0 "inner t"] w by simp
    let ?t = "t\<lparr>inner := s, bio_out := drop bio_size (bio_out t)\<rparr>"
    show ?thesis
    proof (cases q)
      case (Inl e)
      then have "r = Inl e" "t' = ?t" using less.prems(2) w False by (simp_all add: flush_bio_to_tcp.simps [of wr t])
      moreover have "bio_out t = take k ?chunk @ drop k ?chunk @ drop bio_size (bio_out t)" by (metis append_assoc append_take_drop_id)
      then have "produced (ssl t) = (sent (inner t) @ take k ?chunk) @ drop k ?chunk @ drop bio_size (bio_out t)"
        using less.prems(1) unfolding tls_in_step_def by (metis append_assoc)
      ultimately show ?thesis using rec k(2) by (simp add: prefix_def)
    next
      case (Inr u)
      have "\<not> k < length ?chunk" using k(3) Inr by (simp only: sum.disc simp_thms)
      then have "take k ?chunk = ?chunk" using k(1) by (simp only: take_all linorder_not_less)
      then have "sent s @ drop bio_size (bio_out t) = sent (inner t) @ bio_out t"
        unfolding k(2) append_assoc by (metis append_take_drop_id)
      then have "tls_in_step sent received produced consumed ?t"
        using less.prems(1) rec by (simp add: tls_in_step_def)
      moreover have "length (bio_out ?t) < length (bio_out t)" using False by (simp add: bio_size_def)
      moreover have "flush_bio_to_tcp wr ?t = (r, t')"
        using less.prems(2) w False Inr by (simp add: flush_bio_to_tcp.simps [of wr t])
      ultimately show ?thesis using less.hyps [of ?t] rec by simp
    qed
  qed
qed

lemma ssl_engineD:
  assumes "ssl_engine produced consumed rounds op" "op e bs space = (ret, err, k, out, e')"
  shows "produced e' = produced e @ out" "consumed e' = consumed e @ take k bs"
    "ret \<le> 0 \<and> err = SSL_ERROR_WANT_READ \<longrightarrow> k = length bs"
    "ret \<le> 0 \<and> err \<in> {SSL_ERROR_WANT_READ, SSL_ERROR_WANT_WRITE} \<longrightarrow> rounds e' < rounds e"
  using assms(1) [unfolded ssl_engine_def, THEN spec [of _ e], THEN spec [of _ bs], THEN spec [of _ space]] assms(2) by simp_all

lemma call_ssl_spec:
  assumes op: "ssl_engine produced consumed rounds op"
    and step: "tls_in_step sent received produced consumed t"
    and run: "call_ssl op t = (ret, err, t')"
  shows "tls_in_step sent received produced consumed t'" "inner t' = inner t"
    "ret \<le> 0 \<Longrightarrow> err = SSL_ERROR_WANT_READ \<Longrightarrow> bio_in t' = []"
    "ret \<le> 0 \<Longrightarrow> err \<in> {SSL_ERROR_WANT_READ, SSL_ERROR_WANT_WRITE} \<Longrightarrow> rounds (ssl t') < rounds (ssl t)"
proof -
  obtain k out e where o: "op (ssl t) (bio_in t) (bio_size - length (bio_out t)) = (ret, err, k, out, e)"
    "t' = t\<lparr>ssl := e, bio_in := drop k (bio_in t), bio_out := bio_out t @ out\<rparr>"
    using run by (auto simp: call_ssl_def split: prod.splits)
  note c = ssl_engineD [OF op o(1)]
  have "consumed (ssl t) @ bio_in t = consumed e @ drop k (bio_in t)" unfolding c(2) by simp
  then show "tls_in_step sent received produced consumed t'" using step c(1) by (simp add: o(2) tls_in_step_def)
  show "inner t' = inner t" by (simp add: o(2))
  show "ret \<le> 0 \<Longrightarrow> err = SSL_ERROR_WANT_READ \<Longrightarrow> bio_in t' = []" using c(3) by (simp add: o(2))
  show "ret \<le> 0 \<Longrightarrow> err \<in> {SSL_ERROR_WANT_READ, SSL_ERROR_WANT_WRITE} \<Longrightarrow> rounds (ssl t') < rounds (ssl t)"
    using c(4) by (simp add: o(2))
qed

lemma fill_spec:
  assumes rd: "receives sent received rd"
    and step: "tls_in_step sent received produced consumed t" "bio_in t = []"
    and run: "fill_bio_from_tcp rd t = (r, t')"
  shows "tls_in_step sent received produced consumed t' \<and> ssl t' = ssl t \<and> bio_out t' = bio_out t"
proof -
  obtain n bs s where q: "rd (inner t) = (n, bs, s)" by (metis prod_cases3)
  have c: "int (length bs) = max 0 n" "n \<le> 4096" "received s = received (inner t) @ bs" "sent s = sent (inner t)"
    using rd [unfolded receives_def, rule_format, of "inner t"] q by simp_all
  have "min (length bs) bio_size = length bs" using c(1,2) by (simp add: bio_size_def min_def)
  then show ?thesis using run q c step by (auto simp: fill_bio_from_tcp_def tls_in_step_def Let_def split: if_splits)
qed


text \<open>A connection that sends two bytes and waits for an answer, over a socket that takes one byte at a time.\<close>

definition sample_op :: "(u8 list \<times> u8 list) ssl_op" where
  "sample_op = (\<lambda>(p, c) bs space. if p = [] \<and> bs = [] \<and> 2 \<le> space then (-1, SSL_ERROR_WANT_READ, 0, [1, 2], ([1, 2], c))
     else (1, 0, length bs, [], (p, c @ bs)))"

definition sample_wr :: "u8 list \<Rightarrow> u8 list \<times> u8 list \<Rightarrow> int \<times> u8 list \<times> u8 list" where
  "sample_wr bs = (\<lambda>(sent, received). (int (length (take 1 bs)), sent @ take 1 bs, received))"

definition sample_rd :: "u8 list \<times> u8 list \<Rightarrow> int \<times> u8 list \<times> u8 list \<times> u8 list" where
  "sample_rd = (\<lambda>(sent, received). (1, [9], sent, received @ [9]))"

definition sample_tls :: "(u8 list \<times> u8 list, u8 list \<times> u8 list) TlsStream" where
  "sample_tls = \<lparr>inner = ([], []), ssl = ([], []), bio_in = [], bio_out = []\<rparr>"


section \<open>Flushing from several coroutines\<close>

text \<open>
  An HTTP/2 session lets several requests and the driver use one stream, and \<open>flush_bio_to_tcp\<close> keeps the bytes it writes in
  \<open>io_buffer_\<close>, which they share. Each coroutine is between its writes (\<open>None\<close>), or has written \<open>w\<close> of the first \<open>n\<close> bytes of the buffer
  (\<open>Some (n, w)\<close>). BoringSSL puts bytes into the BIO, a coroutine moves them to the buffer and begins to write, or the kernel
  takes some more.
\<close>

record flushing =
  network_bio :: "u8 list"
  shared_buffer :: "u8 list"
  wire :: "u8 list"
  writing :: "nat \<Rightarrow> (nat \<times> nat) option"

datatype flush_event = Sealed "u8 list" | Begin_write nat | Taken nat nat

fun flush_step :: "flush_event \<Rightarrow> flushing \<Rightarrow> flushing option" where
  "flush_step (Sealed bs) s = (if length (network_bio s @ bs) \<le> bio_size then Some (s\<lparr>network_bio := network_bio s @ bs\<rparr>) else None)"
| "flush_step (Begin_write i) s =
    (if writing s i = None \<and> network_bio s \<noteq> []
     then let n = min bio_size (length (network_bio s)) in
       Some (s\<lparr>network_bio := drop n (network_bio s), shared_buffer := take n (network_bio s) @ drop n (shared_buffer s),
               writing := (writing s)(i \<mapsto> (n, 0))\<rparr>)
     else None)"
| "flush_step (Taken i k) s = (case writing s i of
      Some (n, w) \<Rightarrow>
        if 0 < k \<and> w + k \<le> n
        then Some (s\<lparr>wire := wire s @ take k (drop w (shared_buffer s)),
                     writing := (writing s)(i := if w + k = n then None else Some (n, w + k))\<rparr>)
        else None
    | None \<Rightarrow> None)"

fun flush_run :: "flush_event list \<Rightarrow> flushing \<Rightarrow> flushing option" where
  "flush_run [] s = Some s"
| "flush_run (e # es) s = Option.bind (flush_step e s) (flush_run es)"

definition flush_start :: flushing where
  "flush_start = \<lparr>network_bio = [], shared_buffer = replicate bio_size 0, wire = [], writing = \<lambda>_. None\<rparr>"

fun sealed :: "flush_event \<Rightarrow> u8 list" where
  "sealed (Sealed bs) = bs"
| "sealed _ = []"

text \<open>Runs in which nobody begins to write while another one writes.\<close>

fun exclusive :: "flush_event list \<Rightarrow> flushing \<Rightarrow> bool" where
  "exclusive [] s \<longleftrightarrow> True"
| "exclusive (e # es) s \<longleftrightarrow> (case e of Begin_write _ \<Rightarrow> writing s = Map.empty | _ \<Rightarrow> True) \<and>
    (case flush_step e s of None \<Rightarrow> True | Some s' \<Rightarrow> exclusive es s')"

definition flush_inv :: "u8 list \<Rightarrow> flushing \<Rightarrow> bool" where
  "flush_inv d s \<longleftrightarrow> length (shared_buffer s) = bio_size \<and>
    (writing s = Map.empty \<and> d = wire s @ network_bio s \<or>
     (\<exists>i n w. writing s = [i \<mapsto> (n, w)] \<and> w < n \<and> n \<le> bio_size \<and> d = wire s @ drop w (take n (shared_buffer s)) @ network_bio s))"

lemma flush_invI:
  "length (shared_buffer s) = bio_size \<Longrightarrow> writing s = Map.empty \<Longrightarrow> d = wire s @ network_bio s \<Longrightarrow> flush_inv d s"
  "length (shared_buffer s) = bio_size \<Longrightarrow> writing s = [i \<mapsto> (n, w)] \<Longrightarrow> w < n \<Longrightarrow> n \<le> bio_size \<Longrightarrow>
    d = wire s @ drop w (take n (shared_buffer s)) @ network_bio s \<Longrightarrow> flush_inv d s"
  by (auto simp: flush_inv_def)

lemma flush_invE:
  assumes "flush_inv d s"
  obtains "length (shared_buffer s) = bio_size" "writing s = Map.empty" "d = wire s @ network_bio s"
  | i n w where "length (shared_buffer s) = bio_size" "writing s = [i \<mapsto> (n, w)]" "w < n" "n \<le> bio_size"
    "d = wire s @ drop w (take n (shared_buffer s)) @ network_bio s"
  using assms by (auto simp: flush_inv_def)

lemma flush_inv_idle: "flush_inv d s \<Longrightarrow> writing s = Map.empty \<Longrightarrow> d = wire s @ network_bio s \<and> length (shared_buffer s) = bio_size"
  by (elim flush_invE) simp_all

lemma flush_inv_busy:
  assumes "flush_inv d s" "writing s i = Some (n, w)"
  shows "writing s = [i \<mapsto> (n, w)] \<and> n \<le> bio_size \<and> length (shared_buffer s) = bio_size \<and>
    d = wire s @ drop w (take n (shared_buffer s)) @ network_bio s"
  using assms(1)
proof (cases rule: flush_invE)
  case 1
  then show ?thesis using assms(2) by simp
next
  case (2 j m v)
  then have "j = i" "m = n" "v = w" using assms(2) by (simp_all split: if_splits)
  then show ?thesis using 2 by simp
qed

lemma flush_step_inv:
  assumes inv: "flush_inv d s" and e: "case e of Begin_write _ \<Rightarrow> writing s = Map.empty | _ \<Rightarrow> True" "flush_step e s = Some s'"
  shows "flush_inv (d @ sealed e) s'"
proof (cases e)
  case (Sealed bs)
  then have s': "s' = s\<lparr>network_bio := network_bio s @ bs\<rparr>" using e(2) by (simp split: if_splits)
  from inv show ?thesis
  proof (cases rule: flush_invE)
    case 1
    then show ?thesis by (intro flush_invI(1)) (simp_all add: s' Sealed)
  next
    case (2 i n w)
    then show ?thesis by (intro flush_invI(2) [of _ i n w]) (simp_all add: s' Sealed)
  qed
next
  case (Begin_write i)
  let ?n = "min bio_size (length (network_bio s))"
  have s': "s' = s\<lparr>network_bio := drop ?n (network_bio s), shared_buffer := take ?n (network_bio s) @ drop ?n (shared_buffer s),
      writing := [i \<mapsto> (?n, 0)]\<rparr>" "network_bio s \<noteq> []" "writing s = Map.empty"
    using e Begin_write by (auto simp: Let_def split: if_splits)
  have d: "d = wire s @ network_bio s" "length (shared_buffer s) = bio_size"
    using flush_inv_idle [OF inv s'(3)] by simp_all
  have "0 < ?n" using s'(2) by (simp add: bio_size_def)
  moreover have "length (shared_buffer s') = bio_size" using d(2) by (simp add: s'(1))
  moreover have "d = wire s' @ drop 0 (take ?n (shared_buffer s')) @ network_bio s'" unfolding d(1) by (simp add: s'(1))
  moreover have "writing s' = [i \<mapsto> (?n, 0)]" by (simp add: s'(1))
  ultimately show ?thesis using Begin_write by (intro flush_invI(2) [of _ i ?n 0]) simp_all
next
  case (Taken i k)
  then obtain n w where w: "writing s i = Some (n, w)" "0 < k" "w + k \<le> n"
    "s' = s\<lparr>wire := wire s @ take k (drop w (shared_buffer s)), writing := (writing s)(i := if w + k = n then None else Some (n, w + k))\<rparr>"
    using e(2) by (auto split: option.splits if_splits)
  then have i: "writing s = [i \<mapsto> (n, w)]" "n \<le> bio_size" "length (shared_buffer s) = bio_size"
    "d = wire s @ drop w (take n (shared_buffer s)) @ network_bio s"
    using flush_inv_busy [OF inv w(1)] by simp_all
  have "drop w (take n (shared_buffer s)) = take k (drop w (shared_buffer s)) @ drop (w + k) (take n (shared_buffer s))"
  proof -
    have "take k (drop w (take n (shared_buffer s))) = take k (drop w (shared_buffer s))"
      using w(3) by (simp add: drop_take min_absorb1)
    then show ?thesis by (metis append_take_drop_id drop_drop add.commute)
  qed
  then have "d = wire s' @ drop (w + k) (take n (shared_buffer s')) @ network_bio s'"
    unfolding i(4) by (simp add: w(4))
  note d = this
  show ?thesis
  proof (cases "w + k = n")
    case True
    then show ?thesis using d i Taken by (intro flush_invI(1)) (simp_all add: w(4))
  next
    case False
    then show ?thesis using d i w(3) Taken by (intro flush_invI(2) [of _ i n "w + k"]) (simp_all add: w(4))
  qed
qed

lemma flush_run_inv:
  "flush_inv d s \<Longrightarrow> exclusive es s \<Longrightarrow> flush_run es s = Some s' \<Longrightarrow> flush_inv (d @ concat (map sealed es)) s'"
proof (induction es arbitrary: d s)
  case (Cons e es)
  then obtain s1 where s1: "flush_step e s = Some s1" "exclusive es s1" "flush_run es s1 = Some s'"
    by (auto split: bind_splits)
  have "flush_inv (d @ sealed e) s1" using flush_step_inv [OF Cons.prems(1) _ s1(1)] Cons.prems(2) by simp
  from Cons.IH [OF this s1(2,3)] show ?case by simp
qed simp




end
