(* ===== verification/Tls_Connect.thy ===== *)
theory Tls_Connect
  imports Pptls Tls
begin

text \<open>
  Contexts and connections (\<open>net/ssl.ixx\<close>, \<open>net/ssl.cpp\<close>) with the objects they own, and the hook that rewrites the ClientHello
  (\<open>net/pptls.ixx\<close>, and the patch of BoringSSL that calls it). The objects live in a store, by address: contexts, connections with the
  fields that are set in them, specifications, and the ends of BIO pairs. To free one that is not there is undefined. The answers of
  BoringSSL and of the allocator are arguments.
\<close>

section \<open>Specifications\<close>

text \<open>\<open>create_hello_spec_factory\<close> makes a factory from the function that makes the specification.\<close>

record ClientHelloSpecFactory =
  get_tls_spec :: "unit \<Rightarrow> ClientHelloSpec"
  is_global :: bool

definition create_hello_spec_factory :: "(unit \<Rightarrow> ClientHelloSpec) \<Rightarrow> bool \<Rightarrow> ClientHelloSpecFactory" where
  "create_hello_spec_factory fn global = \<lparr>get_tls_spec = fn, is_global = global\<rparr>"

definition auto_extension :: "u16 \<Rightarrow> TlsExtensionConfig" where
  "auto_extension i = \<lparr>cfg_id = i, strategy = Auto, cfg_data = []\<rparr>"

definition make_test_spec :: "unit \<Rightarrow> ClientHelloSpec" where
  "make_test_spec _ =
    \<lparr>cipher_suites = [0x1a1a, 0x1301, 0x1302, 0x1303, 0xc02b, 0xc02f], compression_method = [0],
     spec_extensions = \<lparr>cfg_id = 0x1a1a, strategy = ForceData, cfg_data = [0, 0]\<rparr> #
       map auto_extension [0x0015, 0x0000, 0x0017, 0x0023, 0x000d, 0x002b, 0x002d, 0x0033]\<rparr>"

section \<open>Objects\<close>

record SSL_CTX =
  cipher_list :: string
  min_proto_version :: u16
  max_proto_version :: u16
  grease_enabled :: bool

record SSL =
  ex_spec :: "nat option"
  interceptor :: bool
  alpn_protos :: "u8 list"
  connect_state :: bool
  host_name :: "string option"
  ssl_bio :: "nat option"

record tls_heap =
  next_addr :: nat
  ctxs :: "nat \<Rightarrow> SSL_CTX option"
  ssls :: "nat \<Rightarrow> SSL option"
  specs :: "nat \<Rightarrow> ClientHelloSpec option"
  bios :: "nat set"

text \<open>
  The answers: whether \<open>SSL_CTX_new\<close>, \<open>SSL_new\<close>, the specification, the host name and the BIO pair get memory, and the results of
  \<open>SSL_CTX_set_cipher_list\<close> and \<open>SSL_set_alpn_protos\<close>.
\<close>

record tls_answers =
  ctx_memory :: bool
  cipher_result :: int
  ssl_memory :: bool
  alpn_result :: int
  spec_memory :: bool
  host_memory :: bool
  bio_memory :: bool

definition set_ssl :: "nat \<Rightarrow> (SSL \<Rightarrow> SSL) \<Rightarrow> tls_heap \<Rightarrow> tls_heap" where
  "set_ssl a f h = h\<lparr>ssls := (ssls h)(a := map_option f (ssls h a))\<rparr>"

definition SSL_set_tlsext_host_name :: "bool \<Rightarrow> string \<Rightarrow> SSL \<Rightarrow> SSL" where
  "SSL_set_tlsext_host_name memory name s =
    (let name = takeWhile (\<lambda>c. c \<noteq> CHR 0x00) name in
     s\<lparr>host_name := if name = [] \<or> 255 < length name \<or> \<not> memory then None else Some name\<rparr>)"

text \<open>\<open>SSL_free\<close> frees the BIO that \<open>SSL_set_bio\<close> has given to the connection.\<close>

definition BIO_free :: "nat option \<Rightarrow> tls_heap \<Rightarrow> tls_heap outcome" where
  "BIO_free b h = (case b of
      None \<Rightarrow> Ok h
    | Some b \<Rightarrow> if b \<in> bios h then Ok (h\<lparr>bios := bios h - {b}\<rparr>) else Undefined)"

definition delete_spec :: "nat \<Rightarrow> tls_heap \<Rightarrow> tls_heap outcome" where
  "delete_spec sp h = (case specs h sp of None \<Rightarrow> Undefined | Some _ \<Rightarrow> Ok (h\<lparr>specs := (specs h)(sp := None)\<rparr>))"

definition SSL_free :: "nat \<Rightarrow> tls_heap \<Rightarrow> tls_heap outcome" where
  "SSL_free a h = (case ssls h a of
      None \<Rightarrow> Undefined
    | Some s \<Rightarrow> BIO_free (ssl_bio s) (h\<lparr>ssls := (ssls h)(a := None)\<rparr>))"

text \<open>The deleter of the owning pointer to a connection.\<close>

definition SslFree :: "nat option \<Rightarrow> tls_heap \<Rightarrow> tls_heap outcome" where
  "SslFree p h = (case p of
      None \<Rightarrow> Ok h
    | Some a \<Rightarrow> (case ssls h a of
        None \<Rightarrow> Undefined
      | Some s \<Rightarrow> (case ex_spec s of
          None \<Rightarrow> SSL_free a h
        | Some sp \<Rightarrow> (case delete_spec sp (set_ssl a (\<lambda>s. s\<lparr>ex_spec := None\<rparr>) h) of
            Ok h \<Rightarrow> SSL_free a h
          | r \<Rightarrow> r))))"

section \<open>Contexts\<close>

record TlsContext =
  ctx_ptr :: "nat option"
  spec_factory :: "ClientHelloSpecFactory option"

definition tls1_2_version :: u16 where "tls1_2_version = 0x0303"
definition tls1_3_version :: u16 where "tls1_3_version = 0x0304"

text \<open>A context whose ciphers cannot be set is not freed.\<close>

definition TlsContext_client ::
    "tls_answers \<Rightarrow> ClientHelloSpecFactory option \<Rightarrow> tls_heap \<Rightarrow> TlsContext result \<times> tls_heap" where
  "TlsContext_client ans factory h =
    (if \<not> ctx_memory ans then (Inl (Error protocol_error []), h)
     else let a = next_addr h;
              c = \<lparr>cipher_list = [], min_proto_version = 0, max_proto_version = 0, grease_enabled = False\<rparr>;
              h = h\<lparr>next_addr := Suc a, ctxs := (ctxs h)(a \<mapsto> c)\<rparr>
          in if cipher_result ans \<noteq> 1
             then (Inl (Error wrong_protocol_type ''SSL_CTX_set_cipher_list ALL failed''), h)
             else (Inr \<lparr>ctx_ptr = Some a, spec_factory = factory\<rparr>,
               h\<lparr>ctxs := (ctxs h)(a \<mapsto> c\<lparr>cipher_list := ''ALL:!ADH:!LOW:!EXP:!MD5:@STRENGTH'', min_proto_version := tls1_2_version,
                 max_proto_version := tls1_3_version, grease_enabled := True\<rparr>)\<rparr>))"

definition context_free :: "TlsContext \<Rightarrow> tls_heap \<Rightarrow> tls_heap outcome" where
  "context_free c h = (case ctx_ptr c of
      None \<Rightarrow> Ok h
    | Some a \<Rightarrow> (case ctxs h a of None \<Rightarrow> Undefined | Some _ \<Rightarrow> Ok (h\<lparr>ctxs := (ctxs h)(a := None)\<rparr>)))"

definition context_move :: "TlsContext \<Rightarrow> TlsContext \<times> TlsContext" where
  "context_move other = (other, \<lparr>ctx_ptr = None, spec_factory = None\<rparr>)"

definition context_assign :: "TlsContext \<Rightarrow> TlsContext \<Rightarrow> tls_heap \<Rightarrow> (TlsContext \<times> TlsContext \<times> tls_heap) outcome" where
  "context_assign this other h = (case context_free this h of
      Ok h \<Rightarrow> Ok (other, \<lparr>ctx_ptr = None, spec_factory = None\<rparr>, h)
    | Terminated \<Rightarrow> Terminated
    | Undefined \<Rightarrow> Undefined)"

section \<open>Connections\<close>

record tls_object =
  obj_inner :: TcpStream
  obj_ssl :: "nat option"
  obj_bio :: "nat option"
  obj_buffer :: nat

text \<open>The protocols h2 and http/1.1.\<close>

definition alpn :: "u8 list" where
  "alpn = [0x02, 0x68, 0x32, 0x08, 0x68, 0x74, 0x74, 0x70, 0x2f, 0x31, 0x2e, 0x31]"

definition SSL_new :: "tls_answers \<Rightarrow> TlsContext \<Rightarrow> tls_heap \<Rightarrow> (nat \<times> tls_heap) option" where
  "SSL_new ans c h =
    (if ctx_ptr c = None \<or> \<not> ssl_memory ans then None
     else Some (next_addr h, h\<lparr>next_addr := Suc (next_addr h), ssls := (ssls h)(next_addr h \<mapsto>
       \<lparr>ex_spec = None, interceptor = False, alpn_protos = [], connect_state = False, host_name = None, ssl_bio = None\<rparr>)\<rparr>))"

text \<open>The specification of a connection, or the error when there is no memory for it.\<close>

definition attach_spec :: "tls_answers \<Rightarrow> TlsContext \<Rightarrow> nat \<Rightarrow> tls_heap \<Rightarrow> tls_heap result" where
  "attach_spec ans c raw_ssl h = (case spec_factory c of
      None \<Rightarrow> Inr h
    | Some f \<Rightarrow>
        if \<not> spec_memory ans then Inl (Error not_enough_memory ''alloc tls spec'')
        else let sp = next_addr h; h = h\<lparr>next_addr := Suc sp, specs := (specs h)(sp \<mapsto> get_tls_spec f ())\<rparr>
             in Inr (set_ssl raw_ssl (\<lambda>s. s\<lparr>ex_spec := Some sp, interceptor := True\<rparr>) h))"

text \<open>
  \<open>connect\<close> up to the construction of the stream. The owning pointer is made after the specification: the returns before it leave the
  connection behind, the one after it frees the connection.
\<close>

definition tls_open ::
    "tls_answers \<Rightarrow> TcpStream \<Rightarrow> TlsContext \<Rightarrow> string \<Rightarrow> tls_heap \<Rightarrow> (tls_object result \<times> tls_heap) outcome" where
  "tls_open ans tcp c host h = (case SSL_new ans c h of
      None \<Rightarrow> Ok (Inl (Error not_enough_memory ''tls connect''), h)
    | Some (raw_ssl, h) \<Rightarrow>
        let h = set_ssl raw_ssl (\<lambda>s. s\<lparr>ex_spec := None, interceptor := False\<rparr>) h in
        if alpn_result ans \<noteq> 0 then Ok (Inl (Error invalid_argument ''SSL_set_alpn_protos''), h)
        else let h = set_ssl raw_ssl (\<lambda>s. s\<lparr>alpn_protos := alpn\<rparr>) h in
        (case attach_spec ans c raw_ssl h of
          Inl e \<Rightarrow> Ok (Inl e, h)
        | Inr h \<Rightarrow>
            let h = set_ssl raw_ssl (\<lambda>s. SSL_set_tlsext_host_name (host_memory ans) host (s\<lparr>connect_state := True\<rparr>)) h in
            if \<not> bio_memory ans
            then (case SslFree (Some raw_ssl) h of
                Ok h \<Rightarrow> Ok (Inl (Error io_error ''tls connect: cant create bio pare''), h)
              | Terminated \<Rightarrow> Terminated
              | Undefined \<Rightarrow> Undefined)
            else let internal = next_addr h; network = Suc internal;
                     h = h\<lparr>next_addr := Suc network, bios := bios h \<union> {internal, network}\<rparr>;
                     h = set_ssl raw_ssl (\<lambda>s. s\<lparr>ssl_bio := Some internal\<rparr>) h
                 in Ok (Inr \<lparr>obj_inner = tcp, obj_ssl = Some raw_ssl, obj_bio = Some network, obj_buffer = 16384\<rparr>, h)))"

text \<open>The destructor: the members in the reverse of their order. A TCP stream has no destructor.\<close>

definition tls_destroy :: "tls_object \<Rightarrow> tls_heap \<Rightarrow> tls_heap outcome" where
  "tls_destroy t h = (case BIO_free (obj_bio t) h of Ok h \<Rightarrow> SslFree (obj_ssl t) h | r \<Rightarrow> r)"

text \<open>\<open>connect\<close>, where \<open>hs\<close> is the result of the handshake of the connection at an address. A failed one destroys the stream.\<close>

definition tls_connect ::
    "tls_answers \<Rightarrow> TcpStream \<Rightarrow> TlsContext \<Rightarrow> string \<Rightarrow> bool \<Rightarrow> (tls_heap \<Rightarrow> nat \<Rightarrow> unit result) \<Rightarrow> tls_heap \<Rightarrow>
      (tls_object result \<times> tls_heap) outcome" where
  "tls_connect ans tcp c host handshake hs h = (case tls_open ans tcp c host h of
      Ok (Inr t, h) \<Rightarrow>
        if handshake
        then (case hs h (the (obj_ssl t)) of
            Inr _ \<Rightarrow> Ok (Inr t, h)
          | Inl e \<Rightarrow> (case tls_destroy t h of
              Ok h \<Rightarrow> Ok (Inl e, h)
            | Terminated \<Rightarrow> Terminated
            | Undefined \<Rightarrow> Undefined))
        else Ok (Inr t, h)
    | r \<Rightarrow> r)"

definition tls_move :: "tls_object \<Rightarrow> tls_object \<times> tls_object" where
  "tls_move other =
    (other\<lparr>obj_inner := fst (tcp_move (obj_inner other))\<rparr>,
     \<lparr>obj_inner = snd (tcp_move (obj_inner other)), obj_ssl = None, obj_bio = None, obj_buffer = 0\<rparr>)"

text \<open>Move assignment to another stream, with the descriptors that it closes.\<close>

definition tls_assign :: "tls_object \<Rightarrow> tls_object \<Rightarrow> tls_heap \<Rightarrow> (tls_object \<times> tls_object \<times> int list \<times> tls_heap) outcome" where
  "tls_assign this other h = (case SslFree (obj_ssl this) h of
      Ok h \<Rightarrow> (case BIO_free (obj_bio this) h of
          Ok h \<Rightarrow> (case tcp_assign (obj_inner this) (obj_inner other) of
              (i, i', closed) \<Rightarrow> Ok (other\<lparr>obj_inner := i\<rparr>,
                \<lparr>obj_inner = i', obj_ssl = None, obj_bio = None, obj_buffer = 0\<rparr>, closed, h))
        | Terminated \<Rightarrow> Terminated
        | Undefined \<Rightarrow> Undefined)
    | Terminated \<Rightarrow> Terminated
    | Undefined \<Rightarrow> Undefined)"

section \<open>The hook for the ClientHello\<close>

text \<open>
  The hook gets the bytes of the message and gives its result with the bytes of the memory it puts in their place, if any. \<open>memory\<close>
  says whether \<open>OPENSSL_malloc\<close> succeeds. The rewriter is a partial function, hence the \<open>option\<close> around the result.
\<close>

definition my_client_hello_interceptor ::
    "endian \<Rightarrow> bool \<Rightarrow> tls_heap \<Rightarrow> nat \<Rightarrow> u8 list \<Rightarrow> (int \<times> u8 list option) outcome option" where
  "my_client_hello_interceptor native memory h a original = (case ssls h a of
      None \<Rightarrow> Some Undefined
    | Some s \<Rightarrow> (case ex_spec s of
        None \<Rightarrow> Some (Ok (1, None))
      | Some sp \<Rightarrow> (case specs h sp of
          None \<Rightarrow> Some Undefined
        | Some spec \<Rightarrow> map_option (\<lambda>r. Ok (case r of
              Inl e \<Rightarrow> (0, None)
            | Inr new_hello \<Rightarrow> if new_hello = [] then (0, None) else if \<not> memory then (0, None) else (1, Some new_hello)))
            (rewrite native original spec))))"

text \<open>
  The patch in \<open>tls_add_message\<close>: the handshake message that is added to the flight, \<open>None\<close> when the handshake fails. \<open>copy\<close> says
  whether the copy of the new message succeeds; if it does not, the message stays as it was.
\<close>

definition SSL3_MT_CLIENT_HELLO :: u8 where "SSL3_MT_CLIENT_HELLO = 1"

definition intercepted_message :: "endian \<Rightarrow> bool \<Rightarrow> bool \<Rightarrow> tls_heap \<Rightarrow> nat \<Rightarrow> u8 list \<Rightarrow> u8 list option outcome option" where
  "intercepted_message native memory copy h a msg = (case ssls h a of
      None \<Rightarrow> Some Undefined
    | Some s \<Rightarrow>
        if interceptor s \<and> msg \<noteq> [] \<and> hd msg = SSL3_MT_CLIENT_HELLO
        then map_option (\<lambda>r. case r of
            Ok (ret, new) \<Rightarrow> Ok (if ret = 0 then None else (case new of
                None \<Rightarrow> Some msg
              | Some new_msg \<Rightarrow> Some (if copy then new_msg else msg)))
          | Terminated \<Rightarrow> Terminated
          | Undefined \<Rightarrow> Undefined) (my_client_hello_interceptor native memory h a msg)
        else Some (Ok (Some msg)))"

section \<open>Streams that are made, moved and destroyed\<close>

text \<open>
  The streams of a program are in slots that are not reused. Connecting and move construction make one in the next slot, move
  assignment takes one from another slot, and one is destroyed. Events on a slot without a stream change nothing; a step without
  result is undefined behaviour.
\<close>

record tls_world =
  heap :: tls_heap
  streams :: "nat \<Rightarrow> tls_object option"
  slots :: nat
  closed_fds :: "int list"

definition tls_init :: tls_world where
  "tls_init = \<lparr>heap = \<lparr>next_addr = 0, ctxs = Map.empty, ssls = Map.empty, specs = Map.empty, bios = {}\<rparr>, streams = Map.empty,
     slots = 0, closed_fds = []\<rparr>"

datatype tls_event =
    Connect_tls tls_answers TcpStream TlsContext string bool "tls_heap \<Rightarrow> nat \<Rightarrow> unit result"
  | Move_tls nat
  | Assign_tls nat nat
  | Drop_tls nat

definition ok_option :: "'a outcome \<Rightarrow> 'a option" where
  "ok_option x = (case x of Ok y \<Rightarrow> Some y | _ \<Rightarrow> None)"

lemma ok_option_Ok [simp]: "ok_option (Ok y) = Some y"
  by (simp add: ok_option_def)

fun tls_step :: "tls_event \<Rightarrow> tls_world \<Rightarrow> tls_world option" where
  "tls_step (Connect_tls ans tcp c host handshake hs) w =
    map_option (\<lambda>(r, h). case r of
        Inl e \<Rightarrow> w\<lparr>heap := h\<rparr>
      | Inr t \<Rightarrow> w\<lparr>heap := h, streams := (streams w)(slots w \<mapsto> t), slots := Suc (slots w)\<rparr>)
      (ok_option (tls_connect ans tcp c host handshake hs (heap w)))"
| "tls_step (Move_tls j) w = Some (case streams w j of
      None \<Rightarrow> w
    | Some other \<Rightarrow> (case tls_move other of
        (this, other) \<Rightarrow> w\<lparr>streams := (streams w)(slots w \<mapsto> this, j \<mapsto> other), slots := Suc (slots w)\<rparr>))"
| "tls_step (Assign_tls i j) w = (case (streams w i, streams w j) of
      (Some this, Some other) \<Rightarrow>
        if i = j then Some w
        else map_option (\<lambda>(this, other, closed, h).
          w\<lparr>heap := h, streams := (streams w)(i \<mapsto> this, j \<mapsto> other), closed_fds := closed_fds w @ closed\<rparr>)
          (ok_option (tls_assign this other (heap w)))
    | _ \<Rightarrow> Some w)"
| "tls_step (Drop_tls i) w = (case streams w i of
      None \<Rightarrow> Some w
    | Some t \<Rightarrow> map_option (\<lambda>h. w\<lparr>heap := h, streams := (streams w)(i := None)\<rparr>) (ok_option (tls_destroy t (heap w))))"

fun tls_run :: "tls_event list \<Rightarrow> tls_world \<Rightarrow> tls_world option" where
  "tls_run [] w = Some w"
| "tls_run (e # es) w = Option.bind (tls_step e w) (tls_run es)"

interpretation tls_events: event_system tls_step tls_run
  by unfold_locales simp_all

section \<open>Ownership\<close>

text \<open>The specification and the BIO of each connection.\<close>

definition spec_of :: "tls_heap \<Rightarrow> nat \<Rightarrow> nat option" where
  "spec_of h a = Option.bind (ssls h a) ex_spec"

definition bio_of :: "tls_heap \<Rightarrow> nat \<Rightarrow> nat option" where
  "bio_of h a = Option.bind (ssls h a) ssl_bio"

text \<open>
  \<open>own\<close> and \<open>net\<close> give the connection and the network end of the BIO pair of each slot. Each object has one owner. A connection that no
  slot owns has neither a specification nor a BIO.
\<close>

record owners =
  own :: "nat \<Rightarrow> nat option"
  net :: "nat \<Rightarrow> nat option"

definition heap_inv :: "tls_heap \<Rightarrow> owners \<Rightarrow> bool" where
  "heap_inv h r \<longleftrightarrow> inj_map (own r) \<and> inj_map (net r) \<and> inj_map (spec_of h) \<and> inj_map (bio_of h) \<and>
    ran (own r) = dom (bio_of h) \<and> dom (spec_of h) \<subseteq> ran (own r) \<and>
    dom (specs h) = ran (spec_of h) \<and> bios h = ran (bio_of h) \<union> ran (net r) \<and> ran (bio_of h) \<inter> ran (net r) = {} \<and>
    dom (ssls h) \<union> dom (specs h) \<union> bios h \<subseteq> {..<next_addr h}"

lemmas heap_views = spec_of_def bio_of_def

lemma views_eq:
  "ssls h' = (ssls h)(a := x) \<Longrightarrow> spec_of h' = (spec_of h)(a := Option.bind x ex_spec) \<and> bio_of h' = (bio_of h)(a := Option.bind x ssl_bio)"
  by (auto simp: heap_views fun_eq_iff)

lemma owners_order [simp]: "r\<lparr>net := x, own := y\<rparr> = r\<lparr>own := y, net := x\<rparr>"
  by (cases r) simp

lemma heap_invD:
  assumes "heap_inv h r"
  shows "inj_map (own r)" "inj_map (net r)" "inj_map (spec_of h)" "inj_map (bio_of h)" "ran (own r) = dom (bio_of h)"
    "dom (spec_of h) \<subseteq> ran (own r)" "dom (specs h) = ran (spec_of h)" "bios h = ran (bio_of h) \<union> ran (net r)"
    "ran (bio_of h) \<inter> ran (net r) = {}" "dom (ssls h) \<union> dom (specs h) \<union> bios h \<subseteq> {..<next_addr h}"
  using assms unfolding heap_inv_def by blast+

lemma heap_invI:
  assumes "inj_map (own r)" "inj_map (net r)" "inj_map (spec_of h)" "inj_map (bio_of h)" "ran (own r) = dom (bio_of h)"
    "dom (spec_of h) \<subseteq> ran (own r)" "dom (specs h) = ran (spec_of h)" "bios h = ran (bio_of h) \<union> ran (net r)"
    "ran (bio_of h) \<inter> ran (net r) = {}" "dom (ssls h) \<union> dom (specs h) \<union> bios h \<subseteq> {..<next_addr h}"
  shows "heap_inv h r"
  unfolding heap_inv_def by (intro conjI assms)

lemma heap_inv_del:
  assumes inv: "heap_inv h r" and a: "own r i = Some a" "bio_of h a = Some b"
    and h': "ssls h' = (ssls h)(a := None)" "specs h' = specs h |` (- set_option (spec_of h a))" "bios h' = bios h - {b}"
      "next_addr h' = next_addr h"
  shows "heap_inv h' (r\<lparr>own := (own r)(i := None)\<rparr>)"
proof -
  note D = heap_invD [OF inv]
  have v: "spec_of h' = (spec_of h)(a := None)" "bio_of h' = (bio_of h)(a := None)"
    using views_eq [OF h'(1)] by simp_all
  have r: "own (r\<lparr>own := (own r)(i := None)\<rparr>) = (own r)(i := None)" "net (r\<lparr>own := (own r)(i := None)\<rparr>) = net r" by simp_all
  have o: "ran ((own r)(i := None)) = ran (own r) - {a}" using ran_del [OF D(1), of i] a(1) by simp
  have b: "ran ((bio_of h)(a := None)) = ran (bio_of h) - {b}" using ran_del [OF D(4), of a] a(2) by simp
  have s: "ran ((spec_of h)(a := None)) = ran (spec_of h) - set_option (spec_of h a)" by (rule ran_del [OF D(3)])
  have "b \<in> ran (bio_of h)" using a(2) by (rule ranI)
  then have "b \<notin> ran (net r)" using D(9) by blast
  then have bios: "bios h - {b} = (ran (bio_of h) - {b}) \<union> ran (net r)" using D(8) by blast
  have specs: "dom (specs h') = ran (spec_of h) - set_option (spec_of h a)" using D(7) by (simp add: h'(2) Diff_eq)
  have "dom (ssls h') \<subseteq> dom (ssls h)" by (auto simp: h'(1))
  moreover have "dom (specs h') \<subseteq> dom (specs h)" using specs D(7) by blast
  ultimately have "dom (ssls h') \<union> dom (specs h') \<union> bios h' \<subseteq> {..<next_addr h'}" using D(10) unfolding h'(3,4) by blast
  moreover have "ran (own r) - {a} = dom ((bio_of h)(a := None))" using D(5) by (simp only: dom_fun_upd) simp
  moreover have "dom ((spec_of h)(a := None)) \<subseteq> ran (own r) - {a}" using D(6) by (simp only: dom_fun_upd) auto
  moreover have "(ran (bio_of h) - {b}) \<inter> ran (net r) = {}" using D(9) by blast
  ultimately show ?thesis
    unfolding heap_inv_def v h'(3) r b s using inj_map_del D(1-4) specs bios o by (intro conjI) (simp only: | assumption)+
qed

lemma restrict_compl: "m |` (- {x}) = m(x := None)" "m |` UNIV = m"
  by (auto simp: restrict_map_def)

text \<open>The connections without a BIO, and that all connections outside \<open>A\<close> stay as they are, with their specifications.\<close>

definition leaked :: "tls_heap \<Rightarrow> nat set" where
  "leaked h = dom (ssls h) - dom (bio_of h)"

definition keeps :: "nat set \<Rightarrow> tls_heap \<Rightarrow> tls_heap \<Rightarrow> bool" where
  "keeps A h h' \<longleftrightarrow> (\<forall>a. a \<notin> A \<longrightarrow> ssls h' a = ssls h a \<and> (\<forall>sp. spec_of h a = Some sp \<longrightarrow> specs h' sp = specs h sp))"

lemma keeps_trans: "keeps A h h1 \<Longrightarrow> keeps B h1 h2 \<Longrightarrow> keeps (A \<union> B) h h2"
  by (auto simp: keeps_def spec_of_def)

lemma SslFree_ok:
  assumes inv: "heap_inv h r"
  shows "\<exists>h'. SslFree (own r i) h = Ok h' \<and> heap_inv h' (r\<lparr>own := (own r)(i := None)\<rparr>) \<and> keeps (set_option (own r i)) h h' \<and>
    leaked h' = leaked h"
proof (cases "own r i")
  case None
  then have "(own r)(i := None) = own r" by (simp add: fun_upd_idem)
  then show ?thesis using inv None by (simp add: SslFree_def keeps_def)
next
  case (Some a)
  note D = heap_invD [OF inv]
  obtain b where b: "bio_of h a = Some b" using D(5) Some by (auto simp: ran_def)
  then obtain s where s: "ssls h a = Some s" "ssl_bio s = Some b" by (auto simp: bio_of_def bind_eq_Some_conv)
  have "b \<in> bios h" using D(8) b by (auto simp: ran_def)
  moreover have "specs h sp \<noteq> None" if "ex_spec s = Some sp" for sp
  proof -
    have "spec_of h a = Some sp" using s that by (simp add: spec_of_def)
    then have "sp \<in> dom (specs h)" unfolding D(7) by (rule ranI)
    then show ?thesis by blast
  qed
  ultimately obtain h' where h': "SslFree (Some a) h = Ok h'" "ssls h' = (ssls h)(a := None)" "ctxs h' = ctxs h"
    "specs h' = specs h |` (- set_option (spec_of h a))" "bios h' = bios h - {b}" "next_addr h' = next_addr h"
    using s by (intro that [of "h\<lparr>ssls := (ssls h)(a := None), specs := specs h |` (- set_option (spec_of h a)), bios := bios h - {b}\<rparr>"],
        cases "ex_spec s")
      (auto simp: SslFree_def SSL_free_def BIO_free_def delete_spec_def set_ssl_def spec_of_def restrict_compl)
  have "specs h' sp = specs h sp" if "a' \<noteq> a" "spec_of h a' = Some sp" for a' sp
    using inj_mapD [OF D(3), of a sp a'] that by (auto simp: h'(4) restrict_map_def)
  then have "keeps {a} h h'" by (auto simp: keeps_def h'(2))
  moreover have "leaked h' = leaked h"
    using views_eq [OF h'(2)] h'(2) b by (auto simp: leaked_def)
  ultimately show ?thesis using h'(1) heap_inv_del [OF inv Some b h'(2,4,5,6)] Some by auto
qed

lemma BIO_free_ok:
  assumes inv: "heap_inv h r"
  shows "\<exists>h'. BIO_free (net r i) h = Ok h' \<and> heap_inv h' (r\<lparr>net := (net r)(i := None)\<rparr>) \<and> keeps {} h h' \<and> leaked h' = leaked h"
proof (cases "net r i")
  case None
  then have "(net r)(i := None) = net r" by (simp add: fun_upd_idem)
  then show ?thesis using inv None by (simp add: BIO_free_def keeps_def)
next
  case (Some b)
  note D = heap_invD [OF inv]
  let ?h = "h\<lparr>bios := bios h - {b}\<rparr>"
  have r: "own (r\<lparr>net := (net r)(i := None)\<rparr>) = own r" "net (r\<lparr>net := (net r)(i := None)\<rparr>) = (net r)(i := None)"
    "bios ?h = bios h - {b}" "specs ?h = specs h" "ssls ?h = ssls h" "next_addr ?h = next_addr h" by simp_all
  have v: "spec_of ?h = spec_of h" "bio_of ?h = bio_of h" by (simp_all add: heap_views fun_eq_iff)
  have n: "ran ((net r)(i := None)) = ran (net r) - {b}" using ran_del [OF D(2), of i] Some by simp
  have b: "b \<in> ran (net r)" using Some by (rule ranI)
  then have "bios h - {b} = ran (bio_of h) \<union> (ran (net r) - {b})" using D(8,9) by blast
  moreover have "ran (bio_of h) \<inter> (ran (net r) - {b}) = {}" using D(9) by blast
  moreover have "dom (ssls h) \<union> dom (specs h) \<union> (bios h - {b}) \<subseteq> {..<next_addr h}" using D(10) by blast
  ultimately have "heap_inv ?h (r\<lparr>net := (net r)(i := None)\<rparr>)"
    unfolding heap_inv_def v r using inj_map_del D(1-7) n by (intro conjI) (simp only: | assumption)+
  moreover have "BIO_free (Some b) h = Ok ?h" using b D(8) by (simp add: BIO_free_def)
  ultimately show ?thesis using Some v by (auto simp: keeps_def leaked_def)
qed

lemma heap_inv_take:
  assumes "heap_inv h r" "i \<noteq> j"
  shows "own r i = None \<Longrightarrow> heap_inv h (r\<lparr>own := (own r)(i := own r j, j := None)\<rparr>)"
    "net r i = None \<Longrightarrow> heap_inv h (r\<lparr>net := (net r)(i := net r j, j := None)\<rparr>)"
  using assms by (auto simp: heap_inv_def ran_take intro: inj_map_take)

text \<open>A connection that no slot owns, and one that a new slot owns.\<close>

lemma fresh_ran:
  assumes "heap_inv h r" "next_addr h \<le> x"
  shows "x \<notin> ran (spec_of h)" "x \<notin> ran (bio_of h)" "x \<notin> ran (net r)" "x \<notin> dom (ssls h)" "x \<notin> dom (specs h)" "x \<notin> ran (own r)"
proof -
  note D = heap_invD [OF assms(1)]
  show "x \<notin> dom (ssls h)" "x \<notin> dom (specs h)" using D(10) assms(2) by auto
  then show "x \<notin> ran (spec_of h)" using D(7) by blast
  show "x \<notin> ran (bio_of h)" "x \<notin> ran (net r)" using D(8,10) assms(2) by auto
  have "dom (bio_of h) \<subseteq> dom (ssls h)" by (auto simp: bio_of_def bind_eq_Some_conv)
  then show "x \<notin> ran (own r)" using D(5) \<open>x \<notin> dom (ssls h)\<close> by blast
qed

lemma heap_inv_next:
  assumes inv: "heap_inv h r" and n: "next_addr h \<le> n"
  shows "heap_inv (h\<lparr>next_addr := n\<rparr>) r"
proof -
  note D = heap_invD [OF inv]
  have v: "spec_of (h\<lparr>next_addr := n\<rparr>) = spec_of h" "bio_of (h\<lparr>next_addr := n\<rparr>) = bio_of h"
    "ssls (h\<lparr>next_addr := n\<rparr>) = ssls h" "specs (h\<lparr>next_addr := n\<rparr>) = specs h" "bios (h\<lparr>next_addr := n\<rparr>) = bios h"
    "next_addr (h\<lparr>next_addr := n\<rparr>) = n" by (simp_all add: heap_views fun_eq_iff)
  have "dom (ssls h) \<union> dom (specs h) \<union> bios h \<subseteq> {..<n}" using D(10) n by fastforce
  then show ?thesis unfolding heap_inv_def v using D(1-9) by (intro conjI) assumption+
qed

lemma heap_inv_leak:
  assumes inv: "heap_inv h r" and s: "ex_spec s = None" "ssl_bio s = None"
    and h': "ssls h' = (ssls h)(next_addr h \<mapsto> s)" "specs h' = specs h" "bios h' = bios h" "next_addr h < next_addr h'"
  shows "heap_inv h' r"
proof -
  note D = heap_invD [OF inv]
  have "ssls h (next_addr h) = None" using fresh_ran(4) [OF inv, of "next_addr h"] by (auto simp: dom_def)
  then have "spec_of h (next_addr h) = None" "bio_of h (next_addr h) = None" by (simp_all add: heap_views)
  then have v: "spec_of h' = spec_of h" "bio_of h' = bio_of h"
    using views_eq [OF h'(1)] s by (simp_all add: fun_upd_idem)
  have "dom (ssls h') \<subseteq> {..<next_addr h'}" "dom (specs h) \<union> bios h \<subseteq> {..<next_addr h'}"
    using D(10) h'(4) by (auto simp: h'(1)) 
  then show ?thesis using D unfolding heap_inv_def v h'(2,3) by simp
qed

lemma heap_inv_new:
  assumes inv: "heap_inv h r" and i: "own r i = None" "net r i = None"
    and s: "ssl_bio s = Some b" "\<And>sp. ex_spec s = Some sp \<Longrightarrow> next_addr h \<le> sp \<and> sp < next_addr h'"
    and b: "next_addr h \<le> b" "next_addr h \<le> nb" "b \<noteq> nb" "b < next_addr h'" "nb < next_addr h'"
    and h': "ssls h' = (ssls h)(next_addr h \<mapsto> s)" "dom (specs h') = dom (specs h) \<union> set_option (ex_spec s)" "bios h' = bios h \<union> {b, nb}"
  shows "heap_inv h' (r\<lparr>own := (own r)(i \<mapsto> next_addr h), net := (net r)(i \<mapsto> nb)\<rparr>)"
proof -
  note D = heap_invD [OF inv]
  note fresh = fresh_ran [OF inv]
  let ?a = "next_addr h"
  have r: "own (r\<lparr>own := (own r)(i \<mapsto> ?a), net := (net r)(i \<mapsto> nb)\<rparr>) = (own r)(i \<mapsto> ?a)"
    "net (r\<lparr>own := (own r)(i \<mapsto> ?a), net := (net r)(i \<mapsto> nb)\<rparr>) = (net r)(i \<mapsto> nb)" by simp_all
  have "ssls h ?a = None" using fresh(4) [of ?a] by (auto simp: dom_def)
  then have n: "spec_of h ?a = None" "bio_of h ?a = None" by (simp_all add: heap_views)
  have v: "spec_of h' = (spec_of h)(?a := ex_spec s)" "bio_of h' = (bio_of h)(?a \<mapsto> b)"
    using views_eq [OF h'(1)] s(1) by simp_all
  have o: "ran ((own r)(i \<mapsto> ?a)) = insert ?a (ran (own r))" "ran ((net r)(i \<mapsto> nb)) = insert nb (ran (net r))"
    "ran ((bio_of h)(?a \<mapsto> b)) = insert b (ran (bio_of h))"
    using i n by simp_all
  have sp: "inj_map ((spec_of h)(?a := ex_spec s))" "ran ((spec_of h)(?a := ex_spec s)) = ran (spec_of h) \<union> set_option (ex_spec s)"
    using n(1) fresh(1) s(2) inj_map_new [OF D(3)] D(3) by (cases "ex_spec s"; simp add: fun_upd_idem)+
  have "dom (ssls h') \<union> dom (specs h') \<union> bios h' \<subseteq> {..<next_addr h'}"
  proof -
    have lt: "?a < next_addr h'" using b by linarith
    then have "dom (ssls h) \<union> dom (specs h) \<union> bios h \<subseteq> {..<next_addr h'}" using D(10) by fastforce
    moreover have "set_option (ex_spec s) \<subseteq> {..<next_addr h'}" using s(2) by (auto simp: elem_set)
    ultimately show ?thesis using lt b(4,5) unfolding h' by auto
  qed
  moreover have "inj_map ((own r)(i \<mapsto> ?a))" "inj_map ((net r)(i \<mapsto> nb))" "inj_map ((bio_of h)(?a \<mapsto> b))"
    using fresh(2,3,6) b(1,2) by (auto intro!: inj_map_new D(1,2,4))
  moreover have "insert ?a (ran (own r)) = dom ((bio_of h)(?a \<mapsto> b))" using D(5) by simp
  moreover have "dom ((spec_of h)(?a := ex_spec s)) \<subseteq> insert ?a (ran (own r))" using D(6) by (cases "ex_spec s") auto
  moreover have "dom (specs h') = ran (spec_of h) \<union> set_option (ex_spec s)" using D(7) h'(2) by simp
  moreover have "bios h' = insert b (ran (bio_of h)) \<union> insert nb (ran (net r))" using D(8) h'(3) by blast
  moreover have "insert b (ran (bio_of h)) \<inter> insert nb (ran (net r)) = {}" using D(9) fresh(2,3) b by auto
  ultimately show ?thesis unfolding heap_inv_def r v o sp by (intro conjI sp) assumption+
qed

text \<open>What opening a connection does: nothing, or it leaves a connection behind, or it uses up addresses, or it makes a stream.\<close>

definition early_failure :: "tls_event \<Rightarrow> bool" where
  "early_failure e = (case e of
      Connect_tls ans tcp c host handshake hs \<Rightarrow> ctx_ptr c \<noteq> None \<and> ssl_memory ans \<and>
        (alpn_result ans \<noteq> 0 \<or> spec_factory c \<noteq> None \<and> \<not> spec_memory ans)
    | _ \<Rightarrow> False)"

lemma tls_open_early:
  assumes "ctx_ptr c \<noteq> None" "ssl_memory ans" "alpn_result ans \<noteq> 0 \<or> spec_factory c \<noteq> None \<and> \<not> spec_memory ans"
  obtains e s where "tls_open ans tcp c host h = Ok (Inl e, h\<lparr>next_addr := Suc (next_addr h), ssls := (ssls h)(next_addr h \<mapsto> s)\<rparr>)"
    "ex_spec s = None" "ssl_bio s = None"
  using assms by (cases "alpn_result ans = 0") (force simp: tls_open_def SSL_new_def set_ssl_def attach_spec_def)+

lemma tls_open_late:
  assumes "heap_inv h r" "ctx_ptr c = None \<or> \<not> ssl_memory ans \<or> alpn_result ans = 0 \<and> (spec_factory c = None \<or> spec_memory ans)"
    and "ctx_ptr c = None \<or> \<not> ssl_memory ans \<or> \<not> bio_memory ans"
  obtains e n where "tls_open ans tcp c host h = Ok (Inl e, h\<lparr>next_addr := n\<rparr>)" "next_addr h \<le> n"
proof (cases "ctx_ptr c = None \<or> \<not> ssl_memory ans")
  case True
  then show ?thesis by (intro that [of _ "next_addr h"]) (auto simp: tls_open_def SSL_new_def)
next
  case False
  have "ssls h (next_addr h) = None" "specs h (Suc (next_addr h)) = None"
    using fresh_ran(4) [OF assms(1), of "next_addr h"] fresh_ran(5) [OF assms(1), of "Suc (next_addr h)"] by (auto simp: dom_def)
  then show ?thesis
    using False assms(2,3) by (cases "spec_factory c")
      (auto simp: tls_open_def SSL_new_def set_ssl_def attach_spec_def SslFree_def SSL_free_def BIO_free_def delete_spec_def
        SSL_set_tlsext_host_name_def Let_def fun_upd_idem fun_upd_twist intro!: that)
qed

lemma tls_open_new:
  assumes "ctx_ptr c \<noteq> None" "ssl_memory ans" "alpn_result ans = 0" "spec_factory c = None \<or> spec_memory ans" "bio_memory ans"
  obtains s b h' where
    "tls_open ans tcp c host h = Ok (Inr \<lparr>obj_inner = tcp, obj_ssl = Some (next_addr h), obj_bio = Some (Suc b), obj_buffer = 16384\<rparr>, h')"
    "ssls h' = (ssls h)(next_addr h \<mapsto> s)" "ssl_bio s = Some b" "bios h' = bios h \<union> {b, Suc b}" "next_addr h \<le> b" "Suc b < next_addr h'"
    "interceptor s \<longleftrightarrow> spec_factory c \<noteq> None" "ctxs h' = ctxs h"
    "case spec_factory c of None \<Rightarrow> ex_spec s = None \<and> specs h' = specs h
     | Some f \<Rightarrow> ex_spec s = Some (Suc (next_addr h)) \<and> Suc (next_addr h) < b \<and> specs h' = (specs h)(Suc (next_addr h) \<mapsto> get_tls_spec f ())"
  using assms
  by (cases "spec_factory c")
    (force simp: tls_open_def SSL_new_def set_ssl_def attach_spec_def SSL_set_tlsext_host_name_def Let_def)+

lemma tls_destroy_ok:
  assumes inv: "heap_inv h r" and t: "obj_ssl t = own r i" "obj_bio t = net r i"
  shows "\<exists>h'. tls_destroy t h = Ok h' \<and> heap_inv h' (r\<lparr>own := (own r)(i := None), net := (net r)(i := None)\<rparr>) \<and>
    keeps (set_option (own r i)) h h' \<and> leaked h' = leaked h"
proof -
  obtain h1 where h1: "BIO_free (net r i) h = Ok h1" "heap_inv h1 (r\<lparr>net := (net r)(i := None)\<rparr>)" "keeps {} h h1" "leaked h1 = leaked h"
    using BIO_free_ok [OF inv] by blast
  obtain h2 where h2: "SslFree (own r i) h1 = Ok h2" "heap_inv h2 (r\<lparr>own := (own r)(i := None), net := (net r)(i := None)\<rparr>)"
    "keeps (set_option (own r i)) h1 h2" "leaked h2 = leaked h1"
    using SslFree_ok [OF h1(2), of i] by auto
  show ?thesis using h1 h2 keeps_trans [OF h1(3) h2(3)] by (simp add: tls_destroy_def t)
qed

lemma tls_assign_ok:
  assumes inv: "heap_inv h r" and ij: "i \<noteq> j" and t: "obj_ssl t = own r i" "obj_bio t = net r i" "obj_ssl u = own r j" "obj_bio u = net r j"
  shows "\<exists>t' u' fds h'. tls_assign t u h = Ok (t', u', fds, h') \<and> obj_ssl t' = own r j \<and> obj_bio t' = net r j \<and> obj_ssl u' = None \<and>
    obj_bio u' = None \<and> heap_inv h' (r\<lparr>own := (own r)(i := own r j, j := None), net := (net r)(i := net r j, j := None)\<rparr>) \<and>
    keeps (set_option (own r i)) h h' \<and> leaked h' = leaked h"
proof -
  obtain h1 where h1: "SslFree (own r i) h = Ok h1" "heap_inv h1 (r\<lparr>own := (own r)(i := None)\<rparr>)" "keeps (set_option (own r i)) h h1"
    "leaked h1 = leaked h"
    using SslFree_ok [OF inv] by blast
  obtain h2 where h2: "BIO_free (net r i) h1 = Ok h2" "heap_inv h2 (r\<lparr>own := (own r)(i := None), net := (net r)(i := None)\<rparr>)"
    "keeps {} h1 h2" "leaked h2 = leaked h1"
    using BIO_free_ok [OF h1(2), of i] by auto
  have "heap_inv h2 (r\<lparr>own := (own r)(i := own r j, j := None), net := (net r)(i := None)\<rparr>)"
    using heap_inv_take(1) [OF h2(2) ij] ij by simp
  from heap_inv_take(2) [OF this ij] have "heap_inv h2 (r\<lparr>own := (own r)(i := own r j, j := None), net := (net r)(i := net r j, j := None)\<rparr>)"
    using ij by simp
  then show ?thesis using h1 h2 keeps_trans [OF h1(3) h2(3)] by (simp add: tls_assign_def t tcp_assign_def)
qed

text \<open>\<open>made\<close>: the connection of a new stream has the hook and the specification of the factory.\<close>

definition made :: "TlsContext \<Rightarrow> tls_heap \<Rightarrow> nat \<Rightarrow> bool" where
  "made c h a \<longleftrightarrow> (\<exists>s. ssls h a = Some s \<and> (interceptor s \<longleftrightarrow> spec_factory c \<noteq> None) \<and>
     (\<forall>f. spec_factory c = Some f \<longrightarrow> (\<exists>sp. ex_spec s = Some sp \<and> specs h sp = Some (get_tls_spec f ()))))"

definition connected :: "tls_heap \<Rightarrow> owners \<Rightarrow> nat \<Rightarrow> TlsContext \<Rightarrow> bool \<Rightarrow> tls_object result \<Rightarrow> tls_heap \<Rightarrow> bool" where
  "connected h r i c early res h' \<longleftrightarrow> keeps (- dom (ssls h)) h h' \<and> leaked h' = leaked h \<union> (if early then {next_addr h} else {}) \<and>
     next_addr h \<notin> leaked h \<and> (case res of
       Inl _ \<Rightarrow> heap_inv h' r
     | Inr t \<Rightarrow> heap_inv h' (r\<lparr>own := (own r)(i := obj_ssl t), net := (net r)(i := obj_bio t)\<rparr>) \<and>
         (\<exists>a. obj_ssl t = Some a \<and> a \<notin> dom (ssls h) \<and> made c h' a))"

lemma tls_open_ok:
  assumes inv: "heap_inv h r" and i: "own r i = None" "net r i = None"
  shows "\<exists>res h'. tls_open ans tcp c host h = Ok (res, h') \<and>
    connected h r i c (early_failure (Connect_tls ans tcp c host handshake hs)) res h'"
proof -
  note fresh = fresh_ran [OF inv order_refl]
  note fresh1 = fresh_ran [OF inv le_SucI [OF order_refl]]
  have l: "next_addr h \<notin> leaked h" using fresh(4) by (simp add: leaked_def)
  have k: "spec_of h a = Some sp \<Longrightarrow> sp \<noteq> Suc (next_addr h)" for a sp using fresh1(1) ranI by fast
  have n: "bio_of h (next_addr h) = None" using fresh(4) by (auto simp: bio_of_def dom_def)
  consider (early) "early_failure (Connect_tls ans tcp c host handshake hs)"
    | (late) "\<not> early_failure (Connect_tls ans tcp c host handshake hs)" "ctx_ptr c = None \<or> \<not> ssl_memory ans \<or> \<not> bio_memory ans"
    | (new) "\<not> early_failure (Connect_tls ans tcp c host handshake hs)" "ctx_ptr c \<noteq> None" "ssl_memory ans" "bio_memory ans"
    by blast
  then show ?thesis
  proof cases
    case early
    then obtain e s where s: "tls_open ans tcp c host h = Ok (Inl e, h\<lparr>next_addr := Suc (next_addr h), ssls := (ssls h)(next_addr h \<mapsto> s)\<rparr>)"
      "ex_spec s = None" "ssl_bio s = None"
      by (elim tls_open_early [rotated 3]) (auto simp: early_failure_def)
    let ?h = "h\<lparr>next_addr := Suc (next_addr h), ssls := (ssls h)(next_addr h \<mapsto> s)\<rparr>"
    have "heap_inv ?h r" by (rule heap_inv_leak [OF inv s(2,3)]) simp_all
    moreover have "bio_of ?h = bio_of h" using n s(3) by (auto simp: bio_of_def fun_eq_iff)
    then have "leaked ?h = leaked h \<union> {next_addr h}" using n by (auto simp: leaked_def)
    moreover have "keeps (- dom (ssls h)) h ?h" using fresh(4) by (auto simp: keeps_def)
    ultimately show ?thesis using s(1) early l by (simp add: connected_def)
  next
    case late
    then obtain e n where "tls_open ans tcp c host h = Ok (Inl e, h\<lparr>next_addr := n\<rparr>)" "next_addr h \<le> n"
      using tls_open_late [OF inv, of c ans tcp host] by (auto simp: early_failure_def)
    moreover from this have "heap_inv (h\<lparr>next_addr := n\<rparr>) r"
      by (intro heap_inv_next [OF inv])
    ultimately show ?thesis using late l by (simp add: connected_def keeps_def leaked_def bio_of_def [abs_def])
  next
    case new
    from new(1-3) have c: "alpn_result ans = 0" "spec_factory c = None \<or> spec_memory ans" by (auto simp: early_failure_def)
    obtain s b h' where h': "tls_open ans tcp c host h =
        Ok (Inr \<lparr>obj_inner = tcp, obj_ssl = Some (next_addr h), obj_bio = Some (Suc b), obj_buffer = 16384\<rparr>, h')"
      "ssls h' = (ssls h)(next_addr h \<mapsto> s)" "ssl_bio s = Some b" "bios h' = bios h \<union> {b, Suc b}" "next_addr h \<le> b" "Suc b < next_addr h'"
      "interceptor s \<longleftrightarrow> spec_factory c \<noteq> None" "ctxs h' = ctxs h"
      "case spec_factory c of None \<Rightarrow> ex_spec s = None \<and> specs h' = specs h
       | Some f \<Rightarrow> ex_spec s = Some (Suc (next_addr h)) \<and> Suc (next_addr h) < b \<and> specs h' = (specs h)(Suc (next_addr h) \<mapsto> get_tls_spec f ())"
      by (rule tls_open_new [OF new(2,3) c new(4), of tcp host h])
    have "heap_inv h' (r\<lparr>own := (own r)(i \<mapsto> next_addr h), net := (net r)(i \<mapsto> Suc b)\<rparr>)"
      by (rule heap_inv_new [OF inv i h'(3) _ h'(5) _ _ _ h'(6) h'(2) _ h'(4)]) (use h'(5,6,9) in \<open>auto split: option.splits\<close>)
    moreover have "leaked h' = leaked h"
      using views_eq [OF h'(2)] h'(2,3) fresh(4) by (auto simp: leaked_def)
    moreover have "keeps (- dom (ssls h)) h h'"
      using h'(2,9) fresh(4) k by (auto simp: keeps_def split: option.splits)
    moreover have "made c h' (next_addr h)" using h'(2,7,9) by (auto simp: made_def split: option.splits)
    ultimately show ?thesis using h'(1) new(1) l fresh(4) by (simp add: connected_def)
  qed
qed

lemma tls_connect_ok:
  assumes inv: "heap_inv h r" and i: "own r i = None" "net r i = None"
  shows "\<exists>res h'. tls_connect ans tcp c host handshake hs h = Ok (res, h') \<and>
    connected h r i c (early_failure (Connect_tls ans tcp c host handshake hs)) res h'"
proof -
  let ?early = "early_failure (Connect_tls ans tcp c host handshake hs)"
  obtain res h1 where o: "tls_open ans tcp c host h = Ok (res, h1)" "connected h r i c ?early res h1"
    using tls_open_ok [OF inv i] by blast
  show ?thesis
  proof (cases "\<exists>t e. res = Inr t \<and> handshake \<and> hs h1 (the (obj_ssl t)) = Inl e")
    case True
    then obtain t e where t: "res = Inr t" "handshake" "hs h1 (the (obj_ssl t)) = Inl e" by blast
    let ?r = "r\<lparr>own := (own r)(i := obj_ssl t), net := (net r)(i := obj_bio t)\<rparr>"
    have h1: "keeps (- dom (ssls h)) h h1" "leaked h1 = leaked h \<union> (if ?early then {next_addr h} else {})" "next_addr h \<notin> leaked h" "heap_inv h1 ?r"
      using o(2) t(1) by (simp_all add: connected_def)
    have r: "?r\<lparr>own := (own ?r)(i := None), net := (net ?r)(i := None)\<rparr> = r" using i by (cases r) (auto simp: fun_eq_iff)
    obtain h2 where h2: "tls_destroy t h1 = Ok h2" "heap_inv h2 r" "keeps (set_option (obj_ssl t)) h1 h2" "leaked h2 = leaked h1"
      using tls_destroy_ok [OF h1(4), of t i] unfolding r by auto
    have "set_option (obj_ssl t) \<subseteq> - dom (ssls h)" using o(2) t(1) by (auto simp: connected_def)
    then have "keeps (- dom (ssls h)) h h2" using keeps_trans [OF h1(1) h2(3)] by (simp add: sup_absorb1)
    then show ?thesis using o(1) t h2 h1 by (auto simp: tls_connect_def connected_def)
  next
    case False
    then have "tls_connect ans tcp c host handshake hs h = Ok (res, h1)"
      using o(1) by (cases res) (auto simp: tls_connect_def split: sum.splits)
    then show ?thesis using o(2) by blast
  qed
qed

section \<open>The streams of a program\<close>

definition owners_of :: "tls_world \<Rightarrow> owners" where
  "owners_of w = \<lparr>own = (\<lambda>i. Option.bind (streams w i) obj_ssl), net = (\<lambda>i. Option.bind (streams w i) obj_bio)\<rparr>"

definition world_inv :: "tls_world \<Rightarrow> bool" where
  "world_inv w \<longleftrightarrow> heap_inv (heap w) (owners_of w) \<and> (\<forall>i\<ge>slots w. streams w i = None)"

fun touches :: "tls_event \<Rightarrow> nat \<Rightarrow> bool" where
  "touches (Move_tls j) k \<longleftrightarrow> j = k"
| "touches (Assign_tls i j) k \<longleftrightarrow> i = k \<or> j = k"
| "touches (Drop_tls i) k \<longleftrightarrow> i = k"
| "touches (Connect_tls ans tcp c host handshake hs) k \<longleftrightarrow> False"

text \<open>A step keeps the invariant, leaves a connection behind exactly in an early failure, and keeps the streams it does not touch.\<close>

definition tls_stepped :: "tls_event \<Rightarrow> tls_world \<Rightarrow> tls_world \<Rightarrow> bool" where
  "tls_stepped e w w' \<longleftrightarrow> world_inv w' \<and>
     card (leaked (heap w')) = card (leaked (heap w)) + (if early_failure e then 1 else 0) \<and>
     (\<forall>k t a. streams w k = Some t \<longrightarrow> obj_ssl t = Some a \<longrightarrow> \<not> touches e k \<longrightarrow>
        streams w' k = Some t \<and> (\<forall>c. made c (heap w) a \<longrightarrow> made c (heap w') a))"

lemma made_keeps: "made c h a \<Longrightarrow> keeps A h h' \<Longrightarrow> a \<notin> A \<Longrightarrow> made c h' a"
  by (fastforce simp: made_def keeps_def spec_of_def)

lemma world_own:
  assumes "world_inv w" "streams w k = Some t" "obj_ssl t = Some a"
  shows "own (owners_of w) k = Some a" "a \<in> dom (ssls (heap w))"
proof -
  show "own (owners_of w) k = Some a" using assms by (simp add: owners_of_def)
  then have "a \<in> dom (bio_of (heap w))" using assms(1) heap_invD(5) [of "heap w"] ranI by (fastforce simp: world_inv_def)
  then show "a \<in> dom (ssls (heap w))" by (auto simp: bio_of_def bind_eq_Some_conv)
qed

lemma finite_leaked:
  assumes "world_inv w"
  shows "finite (leaked (heap w))"
proof -
  have "dom (ssls (heap w)) \<subseteq> {..<next_addr (heap w)}"
    using heap_invD(10) [of "heap w" "owners_of w"] assms by (simp add: world_inv_def)
  then show ?thesis unfolding leaked_def by (rule finite_subset [OF subset_trans [OF Diff_subset]]) simp
qed

lemma tls_step_connect:
  assumes inv: "world_inv w" and e: "e = Connect_tls ans tcp c host handshake hs"
  shows "\<exists>w'. tls_step e w = Some w' \<and> tls_stepped e w w' \<and>
    (\<forall>t. streams w' (slots w) = Some t \<longrightarrow> (\<exists>a. obj_ssl t = Some a \<and> made c (heap w') a))"
proof -
  have h: "heap_inv (heap w) (owners_of w)" and n: "streams w (slots w) = None" "\<And>i. slots w \<le> i \<Longrightarrow> streams w i = None"
    using inv by (simp_all add: world_inv_def)
  have i: "own (owners_of w) (slots w) = None" "net (owners_of w) (slots w) = None" using n(1) by (simp_all add: owners_of_def)
  obtain res h' where r: "tls_connect ans tcp c host handshake hs (heap w) = Ok (res, h')"
    "connected (heap w) (owners_of w) (slots w) c (early_failure e) res h'"
    using tls_connect_ok [OF h i] unfolding e by blast
  let ?w = "case res of Inl e \<Rightarrow> w\<lparr>heap := h'\<rparr> | Inr t \<Rightarrow> w\<lparr>heap := h', streams := (streams w)(slots w \<mapsto> t), slots := Suc (slots w)\<rparr>"
  have s: "tls_step e w = Some ?w" using r(1) unfolding e by simp
  have o: "owners_of ?w = (case res of Inl _ \<Rightarrow> owners_of w
    | Inr t \<Rightarrow> (owners_of w)\<lparr>own := (own (owners_of w))(slots w := obj_ssl t), net := (net (owners_of w))(slots w := obj_bio t)\<rparr>)"
    by (auto simp: owners_of_def fun_eq_iff split: sum.splits)
  have w: "heap ?w = h'" "\<And>k. k \<noteq> slots w \<Longrightarrow> streams ?w k = streams w k" by (auto split: sum.splits)
  have "world_inv ?w" using r(2) n unfolding world_inv_def o by (auto simp: connected_def split: sum.splits)
  moreover have "card (leaked h') = card (leaked (heap w)) + (if early_failure e then 1 else 0)"
    using r(2) finite_leaked [OF inv] by (auto simp: connected_def)
  moreover have "streams ?w k = Some t \<and> (\<forall>c. made c (heap w) a \<longrightarrow> made c h' a)"
    if "streams w k = Some t" "obj_ssl t = Some a" for k t a
    using that n(1) w(2) [of k] world_own [OF inv that] r(2) made_keeps by (fastforce simp: connected_def)
  ultimately have "tls_stepped e w ?w" unfolding tls_stepped_def w(1) by blast
  moreover have "\<exists>a. obj_ssl t = Some a \<and> made c (heap ?w) a" if "streams ?w (slots w) = Some t" for t
    using that r(2) n(1) unfolding w(1) by (auto simp: connected_def split: sum.splits)
  ultimately show ?thesis using s by blast
qed

lemma tls_step_drop:
  assumes inv: "world_inv w" and t: "streams w i = Some t"
  shows "\<exists>w'. tls_step (Drop_tls i) w = Some w' \<and> tls_stepped (Drop_tls i) w w'"
proof -
  have h: "heap_inv (heap w) (owners_of w)" and n: "\<And>i. slots w \<le> i \<Longrightarrow> streams w i = None" using inv by (simp_all add: world_inv_def)
  have ti: "obj_ssl t = own (owners_of w) i" "obj_bio t = net (owners_of w) i" using t by (simp_all add: owners_of_def)
  obtain h' where h': "tls_destroy t (heap w) = Ok h'" "keeps (set_option (own (owners_of w) i)) (heap w) h'" "leaked h' = leaked (heap w)"
    "heap_inv h' ((owners_of w)\<lparr>own := (own (owners_of w))(i := None), net := (net (owners_of w))(i := None)\<rparr>)"
    using tls_destroy_ok [OF h ti] by blast
  let ?w = "w\<lparr>heap := h', streams := (streams w)(i := None)\<rparr>"
  have o: "owners_of ?w = (owners_of w)\<lparr>own := (own (owners_of w))(i := None), net := (net (owners_of w))(i := None)\<rparr>"
    by (auto simp: owners_of_def fun_eq_iff)
  have "world_inv ?w" using h'(4) n unfolding world_inv_def o by simp
  moreover have "made c h' a" if "streams w k = Some u" "obj_ssl u = Some a" "i \<noteq> k" "made c (heap w) a" for k u a c
  proof -
    have "a \<notin> set_option (own (owners_of w) i)" using inj_mapD [OF heap_invD(1) [OF h]] world_own(1) [OF inv that(1,2)] that(3) by auto
    then show ?thesis by (rule made_keeps [OF that(4) h'(2)])
  qed
  ultimately have "tls_stepped (Drop_tls i) w ?w" using h'(3) by (auto simp: tls_stepped_def early_failure_def)
  then show ?thesis using t h'(1) by simp
qed

lemma tls_step_assign:
  assumes inv: "world_inv w" and t: "streams w i = Some t" "streams w j = Some u" "i \<noteq> j"
  shows "\<exists>w'. tls_step (Assign_tls i j) w = Some w' \<and> tls_stepped (Assign_tls i j) w w'"
proof -
  let ?r = "owners_of w"
  have h: "heap_inv (heap w) ?r" and n: "\<And>i. slots w \<le> i \<Longrightarrow> streams w i = None" using inv by (simp_all add: world_inv_def)
  have ti: "obj_ssl t = own ?r i" "obj_bio t = net ?r i" "obj_ssl u = own ?r j" "obj_bio u = net ?r j"
    using t by (simp_all add: owners_of_def)
  obtain t' u' fds h' where h': "tls_assign t u (heap w) = Ok (t', u', fds, h')" "obj_ssl t' = own ?r j" "obj_bio t' = net ?r j"
    "obj_ssl u' = None" "obj_bio u' = None" "keeps (set_option (own ?r i)) (heap w) h'" "leaked h' = leaked (heap w)"
    "heap_inv h' (?r\<lparr>own := (own ?r)(i := own ?r j, j := None), net := (net ?r)(i := net ?r j, j := None)\<rparr>)"
    using tls_assign_ok [OF h t(3) ti] by blast
  let ?w = "w\<lparr>heap := h', streams := (streams w)(i \<mapsto> t', j \<mapsto> u'), closed_fds := closed_fds w @ fds\<rparr>"
  have o: "owners_of ?w = ?r\<lparr>own := (own ?r)(i := own ?r j, j := None), net := (net ?r)(i := net ?r j, j := None)\<rparr>"
    using h'(2-5) t(3) by (auto simp: owners_of_def fun_eq_iff)
  have "i < slots w" "j < slots w" using n t by (metis option.distinct(1) not_less)+
  then have "world_inv ?w" using h'(8) n unfolding world_inv_def o by auto
  moreover have "made c h' a" if "streams w k = Some v" "obj_ssl v = Some a" "i \<noteq> k" "made c (heap w) a" for k v a c
  proof -
    have "a \<notin> set_option (own ?r i)" using inj_mapD [OF heap_invD(1) [OF h]] world_own(1) [OF inv that(1,2)] that(3) by auto
    then show ?thesis by (rule made_keeps [OF that(4) h'(6)])
  qed
  ultimately have "tls_stepped (Assign_tls i j) w ?w" using h'(7) by (auto simp: tls_stepped_def early_failure_def)
  then show ?thesis using t h'(1) by simp
qed

lemma tls_step_move:
  assumes inv: "world_inv w" and u: "streams w j = Some u"
  shows "\<exists>w'. tls_step (Move_tls j) w = Some w' \<and> tls_stepped (Move_tls j) w w'"
proof -
  let ?r = "owners_of w" and ?i = "slots w"
  have h: "heap_inv (heap w) ?r" and n: "\<And>i. slots w \<le> i \<Longrightarrow> streams w i = None" using inv by (simp_all add: world_inv_def)
  have ij: "?i \<noteq> j" using n [of ?i] u by auto
  obtain t' u' where t': "tls_move u = (t', u')" "obj_ssl t' = own ?r j" "obj_bio t' = net ?r j" "obj_ssl u' = None" "obj_bio u' = None"
    using u by (simp add: tls_move_def owners_of_def)
  let ?w = "w\<lparr>streams := (streams w)(?i \<mapsto> t', j \<mapsto> u'), slots := Suc ?i\<rparr>"
  have i: "own ?r ?i = None" "net ?r ?i = None" using n [of ?i] by (simp_all add: owners_of_def)
  have o: "owners_of ?w = ?r\<lparr>own := (own ?r)(?i := own ?r j, j := None), net := (net ?r)(?i := net ?r j, j := None)\<rparr>"
    using t'(2-5) ij by (auto simp: owners_of_def fun_eq_iff)
  have "heap_inv (heap w) (owners_of ?w)"
    unfolding o using heap_inv_take(2) [OF heap_inv_take(1) [OF h ij i(1)] ij] i(2) by simp
  moreover have "j < ?i" using n u by (metis option.distinct(1) not_less)
  ultimately have "world_inv ?w" using n unfolding world_inv_def by auto
  then have "tls_stepped (Move_tls j) w ?w" using n [of ?i] by (auto simp: tls_stepped_def early_failure_def)
  then show ?thesis using u t'(1) by simp
qed

lemma tls_step_ok:
  assumes "world_inv w"
  shows "\<exists>w'. tls_step e w = Some w' \<and> tls_stepped e w w'"
proof -
  have same: "tls_step e w = Some w \<Longrightarrow> \<not> early_failure e \<Longrightarrow> ?thesis" using assms by (simp add: tls_stepped_def)
  show ?thesis
  proof (cases e)
    case (Connect_tls ans tcp c host handshake hs)
    then show ?thesis using tls_step_connect [OF assms] by blast
  next
    case (Move_tls j)
    then show ?thesis using tls_step_move [OF assms, of j] same by (cases "streams w j") (auto simp: early_failure_def)
  next
    case (Assign_tls i j)
    then show ?thesis using tls_step_assign [OF assms, of i _ j] same
      by (cases "streams w i"; cases "streams w j"; cases "i = j") (auto simp: early_failure_def)
  next
    case (Drop_tls i)
    then show ?thesis using tls_step_drop [OF assms, of i] same by (cases "streams w i") (auto simp: early_failure_def)
  qed
qed

lemma tls_init_inv: "world_inv tls_init" "leaked (heap tls_init) = {}"
  by (auto simp: world_inv_def tls_init_def heap_inv_def owners_of_def heap_views [abs_def] leaked_def)

lemma tls_run_ok:
  "world_inv w \<Longrightarrow> \<exists>w'. tls_run es w = Some w' \<and> world_inv w' \<and>
    card (leaked (heap w')) = card (leaked (heap w)) + length (filter early_failure es)"
proof (induction es arbitrary: w)
  case (Cons e es)
  then obtain w1 where w1: "tls_step e w = Some w1" "tls_stepped e w w1" using tls_step_ok by blast
  then have "world_inv w1" "card (leaked (heap w1)) = card (leaked (heap w)) + (if early_failure e then 1 else 0)"
    by (simp_all add: tls_stepped_def)
  then show ?case using Cons.IH [of w1] w1(1) by auto
qed simp

lemma tls_run_keeps:
  assumes "world_inv w" "streams w k = Some t" "obj_ssl t = Some a" "made c (heap w) a" "tls_run es w = Some w'"
    and "\<forall>e\<in>set es. \<not> touches e k"
  shows "streams w' k = Some t \<and> made c (heap w') a"
  using assms(1,2,4-6)
proof (induction es arbitrary: w)
  case (Cons e es)
  obtain w1 where w1: "tls_step e w = Some w1" "tls_stepped e w w1" using tls_step_ok [OF Cons.prems(1)] by blast
  then have "world_inv w1" "streams w1 k = Some t" "made c (heap w1) a"
    using Cons.prems(2,3,5) assms(3) by (simp_all add: tls_stepped_def)
  then show ?case using Cons.IH [of w1] Cons.prems(4,5) w1(1) by auto
qed simp

lemma intercepted_made:
  assumes "made c h a" "length msg < 2 ^ 63"
  shows "intercepted_message native memory copy h a msg = Some (Ok (case spec_factory c of
      None \<Rightarrow> Some msg
    | Some f \<Rightarrow> if msg = [] \<or> hd msg \<noteq> SSL3_MT_CLIENT_HELLO then Some msg
        else (case p_hello msg of
            None \<Rightarrow> None
          | Some hello \<Rightarrow> if \<not> memory then None else Some (if copy then ser_hello (transform (get_tls_spec f ()) hello) else msg))))"
proof -
  obtain s where s: "ssls h a = Some s" "interceptor s \<longleftrightarrow> spec_factory c \<noteq> None"
    "\<And>f. spec_factory c = Some f \<Longrightarrow> \<exists>sp. ex_spec s = Some sp \<and> specs h sp = Some (get_tls_spec f ())"
    using assms(1) unfolding made_def by blast
  show ?thesis
  proof (cases "spec_factory c")
    case None
    then show ?thesis using s(1,2) by (simp add: intercepted_message_def)
  next
    case (Some f)
    obtain sp where sp: "ex_spec s = Some sp" "specs h sp = Some (get_tls_spec f ())" using s(3) [OF Some] by blast
    have "ser_hello x \<noteq> []" for x by (simp add: ser_hello_def)
    then show ?thesis
      using s(1,2) Some sp rewrite_agrees [OF assms(2), of native "get_tls_spec f ()"]
      by (auto simp: intercepted_message_def my_client_hello_interceptor_def agrees_def bad_def split: option.splits)
  qed
qed

lemma leaked_unowned:
  assumes "world_inv w"
  shows "leaked (heap w) = dom (ssls (heap w)) - {a. \<exists>i t. streams w i = Some t \<and> obj_ssl t = Some a}"
proof -
  have "dom (bio_of (heap w)) = ran (own (owners_of w))" using heap_invD(5) assms unfolding world_inv_def by metis
  also have "\<dots> = {a. \<exists>i t. streams w i = Some t \<and> obj_ssl t = Some a}"
    by (auto simp: owners_of_def ran_def bind_eq_Some_conv)
  finally show ?thesis by (simp add: leaked_def)
qed


definition sample_context :: TlsContext where
  "sample_context = \<lparr>ctx_ptr = Some 0, spec_factory = Some (create_hello_spec_factory make_test_spec False)\<rparr>"

definition sample_answers :: tls_answers where
  "sample_answers = \<lparr>ctx_memory = True, cipher_result = 1, ssl_memory = True, alpn_result = 0, spec_memory = True, host_memory = True,
     bio_memory = True\<rparr>"

definition sample_connect :: tls_event where
  "sample_connect = Connect_tls sample_answers \<lparr>fd = 5\<rparr> sample_context ''example.org'' True (\<lambda>_ _. Inr ())"

lemmas connect_eval = sample_connect_def sample_context_def sample_answers_def tls_connect_def tls_open_def SSL_new_def set_ssl_def attach_spec_def
  SSL_set_tlsext_host_name_def create_hello_spec_factory_def tls_init_def tls_destroy_def SslFree_def SSL_free_def BIO_free_def
  delete_spec_def Let_def




section \<open>The context\<close>

text \<open>
  A context that \<open>client\<close> returns allows TLS 1.2 and 1.3, and freeing it, also after it was moved, gives back what was allocated. When
  the ciphers cannot be set the context stays allocated.
\<close>

theorem client_context:
  assumes "ctxs h (next_addr h) = None" "TlsContext_client ans f h = (r, h')"
  shows "case r of
      Inl e \<Rightarrow> dom (ctxs h') = dom (ctxs h) \<union> (if ctx_memory ans then {next_addr h} else {})
    | Inr c \<Rightarrow> spec_factory c = f \<and> (\<exists>a x h''. ctx_ptr c = Some a \<and> ctxs h' a = Some x \<and> min_proto_version x = tls1_2_version \<and>
        max_proto_version x = tls1_3_version \<and> context_free (snd (context_move c)) h' = Ok h' \<and>
        context_free (fst (context_move c)) h' = Ok h'' \<and> ctxs h'' = ctxs h)"
  using assms by (auto simp: TlsContext_client_def context_free_def context_move_def Let_def fun_upd_idem split: if_splits)

end
