(* ===== verification/Any_Stream.thy ===== *)
theory Any_Stream
  imports Tls
begin

text \<open>
  The interface of connections (\<open>http_types/connection.ixx\<close>) and the stream that hides which kind of connection it holds
  (\<open>net/any_stream.ixx\<close>). A box has a pointer to an object with the operations of its kind, or none after it was moved from.
\<close>

section \<open>Boxes\<close>

text \<open>\<open>AnyStreamImpl\<close>: the operations of a stream and its state. A read gives its result, the bytes and the new state.\<close>

record 's any_stream =
  any_read :: "nat \<Rightarrow> u32 \<Rightarrow> 's \<Rightarrow> int result \<times> u8 list \<times> 's"
  any_write :: "u8 list \<Rightarrow> u32 \<Rightarrow> 's \<Rightarrow> int result \<times> 's"
  any_close :: "'s \<Rightarrow> 's"
  any_is_alive :: "'s \<Rightarrow> bool"
  any_inner :: 's

record 's BoxedStream =
  ptr :: "'s any_stream option"

definition BoxedStream_new :: "'s any_stream \<Rightarrow> 's BoxedStream" where
  "BoxedStream_new a = \<lparr>ptr = Some a\<rparr>"

definition boxed_move :: "'s BoxedStream \<Rightarrow> 's BoxedStream \<times> 's BoxedStream" where
  "boxed_move other = (\<lparr>ptr = ptr other\<rparr>, \<lparr>ptr = None\<rparr>)"

text \<open>The assignment from another box: the stream that the box had is destroyed.\<close>

definition boxed_assign :: "'s BoxedStream \<Rightarrow> 's BoxedStream \<Rightarrow> 's BoxedStream \<times> 's BoxedStream" where
  "boxed_assign this other = (this\<lparr>ptr := ptr other\<rparr>, other\<lparr>ptr := None\<rparr>)"

definition boxed_read :: "nat \<Rightarrow> u32 \<Rightarrow> 's BoxedStream \<Rightarrow> (int result \<times> u8 list \<times> 's BoxedStream) outcome" where
  "boxed_read size_buf timeout_ms b = (case ptr b of
      None \<Rightarrow> Undefined
    | Some a \<Rightarrow> (case any_read a size_buf timeout_ms (any_inner a) of (r, bs, s) \<Rightarrow> Ok (r, bs, b\<lparr>ptr := Some (a\<lparr>any_inner := s\<rparr>)\<rparr>)))"

definition boxed_write :: "u8 list \<Rightarrow> u32 \<Rightarrow> 's BoxedStream \<Rightarrow> (int result \<times> 's BoxedStream) outcome" where
  "boxed_write buf timeout_ms b = (case ptr b of
      None \<Rightarrow> Undefined
    | Some a \<Rightarrow> (case any_write a buf timeout_ms (any_inner a) of (r, s) \<Rightarrow> Ok (r, b\<lparr>ptr := Some (a\<lparr>any_inner := s\<rparr>)\<rparr>)))"

definition boxed_close :: "'s BoxedStream \<Rightarrow> 's BoxedStream outcome" where
  "boxed_close b = (case ptr b of
      None \<Rightarrow> Undefined
    | Some a \<Rightarrow> Ok (b\<lparr>ptr := Some (a\<lparr>any_inner := any_close a (any_inner a)\<rparr>)\<rparr>))"

definition boxed_is_alive :: "'s BoxedStream \<Rightarrow> bool" where
  "boxed_is_alive b = (case ptr b of None \<Rightarrow> False | Some a \<Rightarrow> any_is_alive a (any_inner a))"

section \<open>The contract of a connection\<close>

text \<open>A connection that was closed is not alive, however often it is closed.\<close>

locale connection =
  fixes close :: "'s \<Rightarrow> 's"
    and alive :: "'s \<Rightarrow> bool"
  assumes closed_dead: "\<not> alive (close s)"
    and close_again: "close (close s) = close s"
begin

lemma closed_n: "0 < n \<Longrightarrow> (close ^^ n) s = close s"
proof (induction n)
  case (Suc n)
  then show ?case by (cases n) (simp_all add: close_again)
qed simp

lemma closed_n_dead: "0 < n \<Longrightarrow> \<not> alive ((close ^^ n) s)"
  by (simp add: closed_n closed_dead)

end

text \<open>A connection on top of another one, which passes \<open>close\<close> on and is alive only if the other one is.\<close>

locale layered = connection +
  fixes outer_close :: "'t \<Rightarrow> 't"
    and outer_alive :: "'t \<Rightarrow> bool"
    and below :: "'t \<Rightarrow> 's"
    and with_below :: "'s \<Rightarrow> 't \<Rightarrow> 't"
  assumes below_with: "below (with_below s t) = s" "with_below s' (with_below s t) = with_below s' t"
    and outer_close_below: "outer_close t = with_below (close (below t)) t"
    and outer_alive_below: "outer_alive t \<Longrightarrow> alive (below t)"
begin

lemma outer_connection: "connection outer_close outer_alive"
proof
  show "\<not> outer_alive (outer_close t)" for t
    using outer_alive_below [of "outer_close t"] closed_dead by (auto simp: outer_close_below below_with)
  show "outer_close (outer_close t) = outer_close t" for t
    by (simp add: outer_close_below below_with close_again)
qed

end

sublocale layered \<subseteq> outer: connection outer_close outer_alive
  by (rule outer_connection)

text \<open>TCP streams, whatever \<open>recv\<close> and \<open>errno\<close> say, and TLS streams over them.\<close>

interpretation tcp_conn: connection "\<lambda>s. fst (tcp_close s)" "is_alive n errno" for n errno
  by unfold_locales (simp_all add: tcp_close_def is_alive_def)

interpretation tls_conn: layered "\<lambda>s. fst (tcp_close s)" "is_alive n errno" "tls_close (\<lambda>s. fst (tcp_close s))"
    "tls_is_alive (is_alive n errno) received" inner "\<lambda>s t. t\<lparr>inner := s\<rparr>" for n errno and received :: "'e \<Rightarrow> bool"
  by unfold_locales (simp_all add: tls_close_def tls_is_alive_def)

section \<open>A box behaves as what it holds\<close>

definition boxed :: "'s any_stream \<Rightarrow> 's \<Rightarrow> 's BoxedStream" where
  "boxed vt s = BoxedStream_new (vt\<lparr>any_inner := s\<rparr>)"

lemma boxed_ops:
  "boxed_read k ms (boxed vt s) = (case any_read vt k ms s of (r, bs, s) \<Rightarrow> Ok (r, bs, boxed vt s))"
  "boxed_write buf ms (boxed vt s) = (case any_write vt buf ms s of (r, s) \<Rightarrow> Ok (r, boxed vt s))"
  "boxed_close (boxed vt s) = Ok (boxed vt (any_close vt s))"
  "boxed_is_alive (boxed vt s) = any_is_alive vt s"
  by (simp_all add: boxed_def BoxedStream_new_def boxed_read_def boxed_write_def boxed_close_def boxed_is_alive_def split: prod.splits)

text \<open>
  A move hands the stream over. The box that is left reports that it is not alive, so a session on it is not reused; any other
  operation on it follows a null pointer.
\<close>

theorem moved_box:
  assumes "boxed_move b = (b', left)"
  shows "b' = b \<and> \<not> boxed_is_alive left \<and> boxed_read k ms left = Undefined \<and> boxed_write buf ms left = Undefined \<and> boxed_close left = Undefined"
  using assms by (auto simp: boxed_move_def boxed_is_alive_def boxed_read_def boxed_write_def boxed_close_def)

text \<open>A box with a TLS stream over TCP that was closed is dead, whatever the socket and BoringSSL say, and stays as it is when it is
  closed again.\<close>

theorem boxed_tls_closed:
  assumes "any_close vt = tls_close (\<lambda>s. fst (tcp_close s))" "any_is_alive vt = tls_is_alive (is_alive n errno) received"
  shows "\<exists>b. boxed_close (boxed vt t) = Ok b \<and> \<not> boxed_is_alive b \<and> boxed_close b = Ok b"
  by (simp add: boxed_ops assms tls_conn.outer.closed_dead tls_conn.outer.close_again)

end
