(* ===== verification/Event_Loop.thy ===== *)
theory Event_Loop
  imports Ppnt_Prelude "HOL-Library.AList"
begin

text \<open>
  The timers of the JavaScript runtime (\<open>event_loop.ixx\<close>) and the functions that scripts call on them (\<open>timeout.cpp\<close>). Time is the
  \<open>steady_clock\<close> in nanoseconds. The heap is the list of its keys; \<open>first\<close>, a parameter, is the key that
  \<open>std::priority_queue\<close> has at the top, of which only the deadline is determined. V8 and the scripts are parameters: \<open>call\<close>
  runs a callback and \<open>microtasks\<close> the microtasks, and both change the loop only through its operations.
\<close>

section \<open>The loop\<close>

datatype ('f, 'v) timer_task = JS 'f "'v list" | Native 'f

record TimerKey =
  deadline :: int
  key_id :: int

record ('f, 'v) TimerData =
  task :: "('f, 'v) timer_task"
  is_interval :: bool
  interval_ms :: int

text \<open>\<open>clock\<close> is what \<open>steady_clock::now()\<close> returns, and \<open>fired\<close> records the keys whose callbacks were called, and whether
  they are intervals.\<close>

record ('f, 'v) EventLoop =
  next_id :: int
  timer_heap :: "TimerKey list"
  timer_map :: "(int \<times> ('f, 'v) TimerData) list"
  clock :: int
  fired :: "(TimerKey \<times> bool) list"

type_synonym ('f, 'v) caller = "('f, 'v) timer_task \<Rightarrow> ('f, 'v) EventLoop \<Rightarrow> ('f, 'v) EventLoop"
type_synonym ('f, 'v) checkpoint = "('f, 'v) EventLoop \<Rightarrow> ('f, 'v) EventLoop"

definition int_max :: int where "int_max = 2 ^ 31 - 1"
definition long_max :: int where "long_max = 2 ^ 63 - 1"
definition long_min :: int where "long_min = - (2 ^ 63)"

text \<open>A time point plus milliseconds: undefined when the nanoseconds do not fit 64 bits.\<close>

definition add_ms :: "int \<Rightarrow> int \<Rightarrow> int option" where
  "add_ms t ms = (if ms * 1000000 \<le> long_max \<and> t + ms * 1000000 \<le> long_max then Some (t + ms * 1000000) else None)"

definition clear_all :: "('f, 'v) EventLoop \<Rightarrow> ('f, 'v) EventLoop" where
  "clear_all l = l\<lparr>timer_map := [], timer_heap := []\<rparr>"

definition cancel :: "int \<Rightarrow> ('f, 'v) EventLoop \<Rightarrow> ('f, 'v) EventLoop" where
  "cancel i l = l\<lparr>timer_map := AList.delete i (timer_map l)\<rparr>"

definition normalize_delay :: "int \<Rightarrow> int" where
  "normalize_delay delay_ms = max 0 delay_ms"

text \<open>\<open>schedule_js\<close> and \<open>schedule_task\<close>, which differ in the task only.\<close>

definition schedule :: "('f, 'v) timer_task \<Rightarrow> int \<Rightarrow> bool \<Rightarrow> ('f, 'v) EventLoop \<Rightarrow> (int \<times> ('f, 'v) EventLoop) outcome" where
  "schedule t delay_ms interval l =
    (if int_max \<le> next_id l then Undefined
     else let i = next_id l; normalized = normalize_delay delay_ms in
       (case add_ms (clock l) normalized of
         None \<Rightarrow> Undefined
       | Some d \<Rightarrow>
           let data = \<lparr>task = t, is_interval = interval, interval_ms = (if interval then max 1 normalized else normalized)\<rparr>
           in Ok (i, l\<lparr>next_id := i + 1, timer_heap := timer_heap l @ [\<lparr>deadline = d, key_id = i\<rparr>],
             timer_map := (if map_of (timer_map l) i = None then timer_map l @ [(i, data)] else timer_map l)\<rparr>)))"

definition set_timeout :: "'f \<Rightarrow> int \<Rightarrow> 'v list \<Rightarrow> ('f, 'v) EventLoop \<Rightarrow> (int \<times> ('f, 'v) EventLoop) outcome" where
  "set_timeout callback delay_ms args = schedule (JS callback args) delay_ms False"

definition set_interval :: "'f \<Rightarrow> int \<Rightarrow> 'v list \<Rightarrow> ('f, 'v) EventLoop \<Rightarrow> (int \<times> ('f, 'v) EventLoop) outcome" where
  "set_interval callback ms args = schedule (JS callback args) (max 1 ms) True"

definition set_timeout_task :: "'f \<Rightarrow> int \<Rightarrow> ('f, 'v) EventLoop \<Rightarrow> (int \<times> ('f, 'v) EventLoop) outcome" where
  "set_timeout_task t delay_ms = schedule (Native t) delay_ms False"

definition set_interval_task :: "'f \<Rightarrow> int \<Rightarrow> ('f, 'v) EventLoop \<Rightarrow> (int \<times> ('f, 'v) EventLoop) outcome" where
  "set_interval_task t ms = schedule (Native t) (max 1 ms) True"

definition has_pending :: "('f, 'v) EventLoop \<Rightarrow> bool" where
  "has_pending l \<longleftrightarrow> timer_map l \<noteq> []"

text \<open>The body of the loop of \<open>tick\<close> for a key that is due: whether an interval is pushed again, after the callback.\<close>

definition refresh :: "TimerKey \<Rightarrow> ('f, 'v) EventLoop \<Rightarrow> ('f, 'v) EventLoop outcome" where
  "refresh key l = (case map_of (timer_map l) (key_id key) of
      None \<Rightarrow> Ok l
    | Some data \<Rightarrow> (case add_ms (deadline key) (interval_ms data) of
        None \<Rightarrow> Undefined
      | Some d \<Rightarrow> Ok (l\<lparr>timer_heap := timer_heap l @ [\<lparr>deadline = d, key_id = key_id key\<rparr>]\<rparr>)))"

definition fire ::
  "('f, 'v) caller \<Rightarrow> ('f, 'v) checkpoint \<Rightarrow>
    TimerKey \<Rightarrow> ('f, 'v) EventLoop \<Rightarrow> ('f, 'v) EventLoop outcome" where
  "fire call microtasks key l =
    (let l = l\<lparr>timer_heap := remove1 key (timer_heap l)\<rparr> in
     case map_of (timer_map l) (key_id key) of
       None \<Rightarrow> Ok l
     | Some data \<Rightarrow>
         let l = (if is_interval data then l else cancel (key_id key) l);
             l = microtasks (call (task data) (l\<lparr>fired := fired l @ [(key, is_interval data)]\<rparr>))
         in if is_interval data then refresh key l else Ok l)"

partial_function (option) tick_loop ::
  "(TimerKey list \<Rightarrow> TimerKey) \<Rightarrow> ('f, 'v) caller \<Rightarrow> ('f, 'v) checkpoint \<Rightarrow> int \<Rightarrow> ('f, 'v) EventLoop \<Rightarrow> (bool \<times> ('f, 'v) EventLoop) outcome option" where
  "tick_loop first call microtasks now l =
    (if timer_heap l = [] then Some (Ok (timer_map l \<noteq> [], l))
     else let key = first (timer_heap l) in
       if now < deadline key then Some (Ok (True, l))
       else (case fire call microtasks key l of
         Ok l \<Rightarrow> tick_loop first call microtasks now l
       | Terminated \<Rightarrow> Some Terminated
       | Undefined \<Rightarrow> Some Undefined))"

text \<open>\<open>pass\<close> is the time between the reading of the clock and the loop.\<close>

definition tick ::
  "(TimerKey list \<Rightarrow> TimerKey) \<Rightarrow> ('f, 'v) caller \<Rightarrow> ('f, 'v) checkpoint \<Rightarrow> int \<Rightarrow> ('f, 'v) EventLoop \<Rightarrow> (bool \<times> ('f, 'v) EventLoop) outcome option" where
  "tick first call microtasks pass l =
    (let l = microtasks l; now = clock l in tick_loop first call microtasks now (l\<lparr>clock := clock l + pass\<rparr>))"

definition wait_for_next :: "(TimerKey list \<Rightarrow> TimerKey) \<Rightarrow> ('f, 'v) EventLoop \<Rightarrow> ('f, 'v) EventLoop" where
  "wait_for_next first l =
    (if timer_heap l = [] then l
     else let key = first (timer_heap l) in if clock l < deadline key then l\<lparr>clock := deadline key\<rparr> else l)"

partial_function (option) run_until_empty ::
  "(TimerKey list \<Rightarrow> TimerKey) \<Rightarrow> ('f, 'v) caller \<Rightarrow> ('f, 'v) checkpoint \<Rightarrow> int \<Rightarrow> ('f, 'v) EventLoop \<Rightarrow> ('f, 'v) EventLoop outcome option" where
  "run_until_empty first call microtasks pass l = Option.bind (tick first call microtasks pass l) (\<lambda>res. case res of
      Ok (again, l) \<Rightarrow> if again then run_until_empty first call microtasks pass (wait_for_next first l) else Some (Ok l)
    | Terminated \<Rightarrow> Some Terminated
    | Undefined \<Rightarrow> Some Undefined)"

declare tick_loop.simps [code] run_until_empty.simps [code]

section \<open>What scripts can do\<close>

inductive js_step :: "('f, 'v) EventLoop \<Rightarrow> ('f, 'v) EventLoop \<Rightarrow> bool" where
  js_schedule: "schedule t ms b l = Ok (i, l') \<Longrightarrow> js_step l l'"
| js_cancel: "js_step l (cancel i l)"
| js_clear: "js_step l (clear_all l)"
| js_time: "clock l \<le> t \<Longrightarrow> js_step l (l\<lparr>clock := t\<rparr>)"

definition well_behaved :: "('f, 'v) caller \<Rightarrow> ('f, 'v) checkpoint \<Rightarrow> bool" where
  "well_behaved call microtasks \<longleftrightarrow> (\<forall>t l. js_step\<^sup>*\<^sup>* l (call t l)) \<and> (\<forall>l. js_step\<^sup>*\<^sup>* l (microtasks l))"

definition min_first :: "(TimerKey list \<Rightarrow> TimerKey) \<Rightarrow> bool" where
  "min_first first \<longleftrightarrow> (\<forall>ks. ks \<noteq> [] \<longrightarrow> first ks \<in> set ks \<and> (\<forall>k\<in>set ks. deadline (first ks) \<le> deadline k))"

section \<open>The invariant\<close>

definition map_ids :: "('f, 'v) EventLoop \<Rightarrow> int set" where
  "map_ids l = fst ` set (timer_map l)"

definition heap_ids :: "('f, 'v) EventLoop \<Rightarrow> int set" where
  "heap_ids l = key_id ` set (timer_heap l)"

text \<open>
  Each timer has one key, also a cancelled one until its key comes up; ids are never used again, and a one-shot timer that was called
  is gone. \<open>E\<close> holds the id of the interval whose callback runs: its key is not in the heap.
\<close>

definition loop_inv :: "int set \<Rightarrow> ('f, 'v) EventLoop \<Rightarrow> bool" where
  "loop_inv E l \<longleftrightarrow> distinct (map fst (timer_map l)) \<and> distinct (map key_id (timer_heap l)) \<and>
    map_ids l \<subseteq> heap_ids l \<union> E \<and> heap_ids l \<inter> E = {} \<and> (\<forall>i\<in>heap_ids l \<union> E. i < next_id l) \<and>
    (\<forall>(i, d)\<in>set (timer_map l). 0 \<le> interval_ms d \<and> (is_interval d \<longrightarrow> 1 \<le> interval_ms d)) \<and>
    (\<forall>(k, b)\<in>set (fired l). key_id k < next_id l \<and> (\<not> b \<longrightarrow> key_id k \<notin> heap_ids l \<union> E)) \<and>
    distinct (map (key_id \<circ> fst) (filter (\<lambda>x. \<not> snd x) (fired l)))"

lemma add_ms_Some: "add_ms t ms = Some d \<Longrightarrow> d = t + ms * 1000000"
  by (simp add: add_ms_def split: if_splits)

lemma schedule_Ok:
  assumes "schedule t ms b l = Ok (i, l')" "map_of (timer_map l) (next_id l) = None"
  shows "i = next_id l \<and> l' = l\<lparr>next_id := i + 1,
      timer_heap := timer_heap l @ [\<lparr>deadline = clock l + max 0 ms * 1000000, key_id = i\<rparr>],
      timer_map := timer_map l @ [(i, \<lparr>task = t, is_interval = b, interval_ms = (if b then max 1 (max 0 ms) else max 0 ms)\<rparr>)]\<rparr>"
  using assms by (auto simp: schedule_def normalize_delay_def Let_def dest: add_ms_Some split: if_splits option.splits)

lemma loop_invD:
  assumes "loop_inv E l"
  shows "distinct (map fst (timer_map l))" "distinct (map key_id (timer_heap l))" "map_ids l \<subseteq> heap_ids l \<union> E" "heap_ids l \<inter> E = {}"
    "i \<in> heap_ids l \<union> E \<Longrightarrow> i < next_id l" "(i, d) \<in> set (timer_map l) \<Longrightarrow> 0 \<le> interval_ms d"
    "(i, d) \<in> set (timer_map l) \<Longrightarrow> is_interval d \<Longrightarrow> 1 \<le> interval_ms d" "(k, b) \<in> set (fired l) \<Longrightarrow> key_id k < next_id l"
    "(k, False) \<in> set (fired l) \<Longrightarrow> key_id k \<notin> heap_ids l \<union> E"
    "distinct (map (key_id \<circ> fst) (filter (\<lambda>x. \<not> snd x) (fired l)))"
  using assms unfolding loop_inv_def by auto

lemma loop_invI:
  assumes "distinct (map fst (timer_map l))" "distinct (map key_id (timer_heap l))" "map_ids l \<subseteq> heap_ids l \<union> E" "heap_ids l \<inter> E = {}"
    "\<And>i. i \<in> heap_ids l \<union> E \<Longrightarrow> i < next_id l" "\<And>i d. (i, d) \<in> set (timer_map l) \<Longrightarrow> 0 \<le> interval_ms d"
    "\<And>i d. (i, d) \<in> set (timer_map l) \<Longrightarrow> is_interval d \<Longrightarrow> 1 \<le> interval_ms d"
    "\<And>k b. (k, b) \<in> set (fired l) \<Longrightarrow> key_id k < next_id l"
    "\<And>k. (k, False) \<in> set (fired l) \<Longrightarrow> key_id k \<notin> heap_ids l \<union> E"
    "distinct (map (key_id \<circ> fst) (filter (\<lambda>x. \<not> snd x) (fired l)))"
  shows "loop_inv E l"
proof -
  have "\<forall>i\<in>heap_ids l \<union> E. i < next_id l"
    using assms(5) by blast
  moreover have "\<forall>(i, d)\<in>set (timer_map l). 0 \<le> interval_ms d \<and> (is_interval d \<longrightarrow> 1 \<le> interval_ms d)"
    using assms(6, 7) by blast
  moreover have "\<forall>(k, b)\<in>set (fired l). key_id k < next_id l \<and> (\<not> b \<longrightarrow> key_id k \<notin> heap_ids l \<union> E)"
    using assms(8, 9) by auto
  ultimately show ?thesis
    unfolding loop_inv_def using assms(1-4, 10) by simp
qed

lemma loop_inv_fresh:
  assumes "loop_inv E l"
  shows "next_id l \<notin> heap_ids l \<union> E" "next_id l \<notin> map_ids l" "map_of (timer_map l) (next_id l) = None"
proof -
  show 1: "next_id l \<notin> heap_ids l \<union> E"
    using loop_invD(5) [OF assms] by blast
  then show 2: "next_id l \<notin> map_ids l"
    using loop_invD(3) [OF assms] by blast
  then show "map_of (timer_map l) (next_id l) = None"
    by (simp add: map_ids_def map_of_eq_None_iff)
qed

lemma schedule_inv:
  assumes "schedule t ms b l = Ok (i, l')" "loop_inv E l"
  shows "loop_inv E l'"
proof -
  note l' = schedule_Ok [OF assms(1) loop_inv_fresh(3) [OF assms(2)]]
  note fresh = loop_inv_fresh(1, 2) [OF assms(2)]
  have ids: "heap_ids l' = insert (next_id l) (heap_ids l)" "map_ids l' = insert (next_id l) (map_ids l)" "next_id l' = next_id l + 1"
    "fired l' = fired l"
    using l' by (auto simp: heap_ids_def map_ids_def)
  show ?thesis
  proof (rule loop_invI)
    show "distinct (map fst (timer_map l'))" "distinct (map key_id (timer_heap l'))"
      using l' fresh loop_invD(1, 2) [OF assms(2)] by (auto simp: heap_ids_def map_ids_def)
    show "map_ids l' \<subseteq> heap_ids l' \<union> E" "heap_ids l' \<inter> E = {}"
      using ids fresh loop_invD(3, 4) [OF assms(2)] by auto
    fix j assume "j \<in> heap_ids l' \<union> E"
    then have "j = next_id l \<or> j \<in> heap_ids l \<union> E" using ids by auto
    then show "j < next_id l'" using loop_invD(5) [OF assms(2), of j] ids by linarith
  next
    fix j d assume "(j, d) \<in> set (timer_map l')"
    then show "0 \<le> interval_ms d" "is_interval d \<Longrightarrow> 1 \<le> interval_ms d"
      using l' loop_invD(6, 7) [OF assms(2), of j d] by (auto split: if_splits)
  next
    fix k b assume "(k, b) \<in> set (fired l')"
    then show "key_id k < next_id l'" using loop_invD(8) [OF assms(2), of k b] ids by simp
  next
    fix k assume "(k, False) \<in> set (fired l')"
    then show "key_id k \<notin> heap_ids l' \<union> E"
      using loop_invD(8, 9) [OF assms(2), of k] ids by fastforce
  next
    show "distinct (map (key_id \<circ> fst) (filter (\<lambda>x. \<not> snd x) (fired l')))"
      using loop_invD(10) [OF assms(2)] ids by simp
  qed
qed

lemma shrink_inv:
  assumes "loop_inv E l" "set (timer_map l') \<subseteq> set (timer_map l)" "distinct (map fst (timer_map l'))"
    and "timer_heap l' = timer_heap l" "next_id l' = next_id l" "fired l' = fired l"
  shows "loop_inv E l'"
proof (rule loop_invI)
  have ids: "map_ids l' \<subseteq> map_ids l" "heap_ids l' = heap_ids l"
    using assms(2, 4) by (auto simp: map_ids_def heap_ids_def)
  show "distinct (map fst (timer_map l'))" by fact
  show "distinct (map key_id (timer_heap l'))" "map_ids l' \<subseteq> heap_ids l' \<union> E" "heap_ids l' \<inter> E = {}"
    using loop_invD(2-4) [OF assms(1)] assms(4) ids by auto
  show "i < next_id l'" if "i \<in> heap_ids l' \<union> E" for i
    using loop_invD(5) [OF assms(1)] that ids assms(5) by auto
  show "0 \<le> interval_ms d" "is_interval d \<Longrightarrow> 1 \<le> interval_ms d" if "(i, d) \<in> set (timer_map l')" for i d
    using loop_invD(6, 7) [OF assms(1)] that assms(2) by auto
  show "key_id k < next_id l'" if "(k, b) \<in> set (fired l')" for k b
    using loop_invD(8) [OF assms(1)] that assms(5, 6) by auto
  show "key_id k \<notin> heap_ids l' \<union> E" if "(k, False) \<in> set (fired l')" for k
    using loop_invD(9) [OF assms(1)] that assms(6) ids by auto
  show "distinct (map (key_id \<circ> fst) (filter (\<lambda>x. \<not> snd x) (fired l')))"
    using loop_invD(10) [OF assms(1)] assms(6) by simp
qed

lemma cancel_inv: "loop_inv E l \<Longrightarrow> loop_inv E (cancel i l)"
  by (rule shrink_inv) (auto simp: cancel_def AList.delete_eq loop_inv_def intro!: distinct_map_filter)

lemma js_step_inv:
  assumes "js_step l l'" "loop_inv E l"
  shows "loop_inv E l'"
  using assms(1)
proof cases
  case (js_schedule t ms b i)
  then show ?thesis by (rule schedule_inv [OF _ assms(2)])
next
  case (js_cancel i)
  then show ?thesis using cancel_inv [OF assms(2)] by simp
next
  case js_clear
  then show ?thesis
    using assms(2) by (auto simp: loop_inv_def clear_all_def map_ids_def heap_ids_def)
next
  case (js_time t)
  then show ?thesis by (auto intro: shrink_inv [OF assms(2)] simp: loop_invD(1) [OF assms(2)])
qed

section \<open>What a script leaves alone\<close>

definition script_ran :: "('f, 'v) EventLoop \<Rightarrow> ('f, 'v) EventLoop \<Rightarrow> bool" where
  "script_ran l l' \<longleftrightarrow> fired l' = fired l \<and> clock l \<le> clock l' \<and> next_id l \<le> next_id l' \<and>
    set (timer_heap l') \<subseteq> set (timer_heap l) \<union> {k. clock l \<le> deadline k} \<and>
    (\<forall>i<next_id l. map_of (timer_map l') i = None \<or> map_of (timer_map l') i = map_of (timer_map l) i)"

lemma script_ran_trans:
  assumes "script_ran l l'" "script_ran l' l''"
  shows "script_ran l l''"
proof -
  have "{k. clock l' \<le> deadline k} \<subseteq> {k. clock l \<le> deadline k}"
    using assms(1) by (auto simp: script_ran_def)
  then have "set (timer_heap l'') \<subseteq> set (timer_heap l) \<union> {k. clock l \<le> deadline k}"
    using assms unfolding script_ran_def by blast
  moreover have "\<forall>i<next_id l. map_of (timer_map l'') i = None \<or> map_of (timer_map l'') i = map_of (timer_map l) i"
    using assms unfolding script_ran_def by (metis less_le_trans)
  ultimately show ?thesis
    using assms by (simp add: script_ran_def)
qed

lemma js_step_ran:
  assumes "js_step l l'" "loop_inv E l"
  shows "script_ran l l'"
  using assms(1)
proof cases
  case (js_schedule t ms b i)
  then show ?thesis
    using schedule_Ok [OF js_schedule loop_inv_fresh(3) [OF assms(2)]] by (auto simp: script_ran_def map_add_def split: option.split)
next
  case (js_cancel i)
  then show ?thesis by (simp add: script_ran_def cancel_def delete_conv')
next
  case js_clear
  then show ?thesis by (simp add: script_ran_def clear_all_def)
next
  case (js_time t)
  then show ?thesis by (simp add: script_ran_def)
qed

lemma js_run:
  assumes "js_step\<^sup>*\<^sup>* l l'" "loop_inv E l"
  shows "loop_inv E l' \<and> script_ran l l'"
  using assms
proof (induction rule: rtranclp_induct)
  case base
  then show ?case by (simp add: script_ran_def)
next
  case (step l' l'')
  then show ?case
    using js_step_inv [OF step(2)] js_step_ran [OF step(2)] script_ran_trans by blast
qed

lemma callback_run:
  assumes "well_behaved call microtasks" "loop_inv E l"
  shows "loop_inv E (microtasks (call t l))" "script_ran l (microtasks (call t l))"
proof -
  have "js_step\<^sup>*\<^sup>* l (microtasks (call t l))"
    using assms(1) unfolding well_behaved_def by (meson rtranclp_trans)
  then show "loop_inv E (microtasks (call t l))" "script_ran l (microtasks (call t l))"
    using js_run [OF _ assms(2)] by blast+
qed

section \<open>Firing a timer\<close>

definition popped :: "TimerKey \<Rightarrow> ('f, 'v) EventLoop \<Rightarrow> ('f, 'v) EventLoop" where
  "popped key l = l\<lparr>timer_heap := remove1 key (timer_heap l)\<rparr>"

lemma popped_ids:
  assumes "loop_inv {} l" "key \<in> set (timer_heap l)"
  shows "set (timer_heap (popped key l)) = set (timer_heap l) - {key}" "heap_ids (popped key l) = heap_ids l - {key_id key}"
    "distinct (map key_id (timer_heap (popped key l)))"
proof -
  have d: "distinct (timer_heap l)" "inj_on key_id (set (timer_heap l))"
    using loop_invD(2) [OF assms(1)] by (auto simp: distinct_map)
  then show s: "set (timer_heap (popped key l)) = set (timer_heap l) - {key}"
    by (simp add: popped_def)
  then show "heap_ids (popped key l) = heap_ids l - {key_id key}"
    using d(2) assms(2) by (auto simp: heap_ids_def inj_on_def)
  show "distinct (map key_id (timer_heap (popped key l)))"
    using d s by (auto simp: popped_def distinct_map inj_on_def)
qed

lemma popped_inv:
  assumes "loop_inv {} l" "key \<in> set (timer_heap l)"
    and "set m \<subseteq> set (timer_map l)" "distinct (map fst m)" "E \<subseteq> {key_id key}" "fst ` set m \<subseteq> heap_ids l - {key_id key} \<union> E"
    and "fs = fired l \<or> fs = fired l @ [(key, E \<noteq> {})]"
  shows "loop_inv E (popped key l\<lparr>timer_map := m, fired := fs\<rparr>)"
proof -
  let ?l = "popped key l\<lparr>timer_map := m, fired := fs\<rparr>"
  have id: "key_id key \<in> heap_ids l"
    using assms(2) by (simp add: heap_ids_def)
  have ids: "heap_ids ?l = heap_ids l - {key_id key}" "map_ids ?l = fst ` set m" "timer_heap ?l = timer_heap (popped key l)"
    using popped_ids(2) [OF assms(1, 2)] by (simp_all add: heap_ids_def map_ids_def popped_def)
  show ?thesis
  proof (rule loop_invI)
    show "distinct (map fst (timer_map ?l))" using assms(4) by simp
    show "distinct (map key_id (timer_heap ?l))" using popped_ids(3) [OF assms(1, 2)] ids(3) by simp
    show "map_ids ?l \<subseteq> heap_ids ?l \<union> E" "heap_ids ?l \<inter> E = {}"
      using assms(5, 6) ids by auto
    show "i < next_id ?l" if "i \<in> heap_ids ?l \<union> E" for i
      using loop_invD(5) [OF assms(1), of i] that ids(1) assms(5) id by (auto simp: popped_def)
    show "0 \<le> interval_ms d" "is_interval d \<Longrightarrow> 1 \<le> interval_ms d" if "(i, d) \<in> set (timer_map ?l)" for i d
      using loop_invD(6, 7) [OF assms(1), of i d] that assms(3) by auto
    show "key_id k < next_id ?l" if "(k, b) \<in> set (fired ?l)" for k b
      using loop_invD(8) [OF assms(1), of k b] loop_invD(5) [OF assms(1), of "key_id key"] that assms(7) id by (auto simp: popped_def)
    show "key_id k \<notin> heap_ids ?l \<union> E" if "(k, False) \<in> set (fired ?l)" for k
    proof (cases "(k, False) \<in> set (fired l)")
      case True
      then have "key_id k \<notin> heap_ids l" "key_id k \<noteq> key_id key"
        using loop_invD(9) [OF assms(1), of k] id by auto
      then show ?thesis using ids(1) assms(5) by blast
    next
      case False
      then have "k = key" "E = {}" using that assms(7) by auto
      then show ?thesis using ids(1) by simp
    qed
    have "key_id k \<noteq> key_id key" if "(k, False) \<in> set (fired l)" for k
      using loop_invD(9) [OF assms(1), of k] that id by auto
    then show "distinct (map (key_id \<circ> fst) (filter (\<lambda>x. \<not> snd x) (fired ?l)))"
      using loop_invD(10) [OF assms(1)] assms(7) by fastforce
  qed
qed

text \<open>The effect of one round of the loop of \<open>tick\<close>.\<close>

definition fired_one :: "TimerKey \<Rightarrow> ('f, 'v) EventLoop \<Rightarrow> ('f, 'v) EventLoop \<Rightarrow> bool" where
  "fired_one key l l' \<longleftrightarrow> clock l \<le> clock l' \<and> next_id l \<le> next_id l' \<and>
    fired l' = fired l @ (case map_of (timer_map l) (key_id key) of None \<Rightarrow> [] | Some d \<Rightarrow> [(key, is_interval d)]) \<and>
    (\<exists>R. set (timer_heap l') \<subseteq> set (timer_heap l) - {key} \<union> {k. clock l \<le> deadline k} \<union> set_option R \<and>
      (\<forall>k\<in>set_option R. deadline key < deadline k)) \<and>
    (\<forall>i<next_id l. i \<notin> map_ids l \<longrightarrow> i \<notin> map_ids l')"

lemma map_of_ids: "map_of (timer_map l) i = None \<longleftrightarrow> i \<notin> map_ids l"
  by (simp add: map_ids_def map_of_eq_None_iff)

lemma refresh_inv:
  assumes "loop_inv {key_id key} l" "refresh key l = Ok l'"
    and "\<And>d. map_of (timer_map l) (key_id key) = Some d \<Longrightarrow> 1 \<le> interval_ms d"
  obtains R where "loop_inv {} l'" "l' = l\<lparr>timer_heap := timer_heap l'\<rparr>" "set (timer_heap l') = set (timer_heap l) \<union> set_option R"
    "\<forall>k\<in>set_option R. deadline key < deadline k"
proof (cases "map_of (timer_map l) (key_id key)")
  case None
  then have "key_id key \<notin> map_ids l" by (simp add: map_of_ids)
  moreover have "l' = l" using assms(2) None by (simp add: refresh_def)
  moreover have "loop_inv {} l"
    by (rule loop_invI) (use loop_invD [OF assms(1)] \<open>key_id key \<notin> map_ids l\<close> in auto)
  ultimately show ?thesis
    by (intro that [of None]) auto
next
  case (Some d)
  then obtain t where t: "add_ms (deadline key) (interval_ms d) = Some t"
    "l' = l\<lparr>timer_heap := timer_heap l @ [\<lparr>deadline = t, key_id = key_id key\<rparr>]\<rparr>"
    using assms(2) by (auto simp: refresh_def split: option.splits)
  have ids: "heap_ids l' = heap_ids l \<union> {key_id key}" "map_ids l' = map_ids l" "key_id key \<notin> heap_ids l"
    using t(2) loop_invD(4) [OF assms(1)] by (auto simp: heap_ids_def map_ids_def)
  have "loop_inv {} l'"
    by (rule loop_invI, insert loop_invD [OF assms(1)] ids) (auto simp: t(2) heap_ids_def)
  moreover have "deadline key < t"
    using add_ms_Some [OF t(1)] assms(3) [OF Some] by simp
  ultimately show ?thesis
    by (intro that [of "Some \<lparr>deadline = t, key_id = key_id key\<rparr>"]) (auto simp: t(2))
qed

lemma ran_fired:
  assumes "script_ran (popped key l\<lparr>timer_map := m, fired := fired l @ fs\<rparr>) l'" "loop_inv {} l" "key \<in> set (timer_heap l)"
    and "\<And>i. map_of (timer_map l) i = None \<Longrightarrow> map_of m i = None"
  shows "clock l \<le> clock l'" "next_id l \<le> next_id l'" "fired l' = fired l @ fs"
    "set (timer_heap l') \<subseteq> set (timer_heap l) - {key} \<union> {k. clock l \<le> deadline k}" "i < next_id l \<Longrightarrow> i \<notin> map_ids l \<Longrightarrow> i \<notin> map_ids l'"
proof -
  show "clock l \<le> clock l'" "next_id l \<le> next_id l'" "fired l' = fired l @ fs"
    using assms(1) by (simp_all add: script_ran_def popped_def)
  show "set (timer_heap l') \<subseteq> set (timer_heap l) - {key} \<union> {k. clock l \<le> deadline k}"
    using assms(1) popped_ids(1) [OF assms(2, 3)] by (simp add: script_ran_def popped_def)
  show "i < next_id l \<Longrightarrow> i \<notin> map_ids l \<Longrightarrow> i \<notin> map_ids l'"
    using assms(1, 4) unfolding map_of_ids [symmetric] by (fastforce simp: script_ran_def popped_def)
qed

lemma fire_dead:
  assumes "loop_inv {} l" "key \<in> set (timer_heap l)" "fire call microtasks key l = Ok l'" "map_of (timer_map l) (key_id key) = None"
  shows "loop_inv {} l' \<and> fired_one key l l'"
proof -
  have l': "l' = popped key l\<lparr>timer_map := timer_map l, fired := fired l\<rparr>"
    using assms(3, 4) by (cases l) (auto simp: fire_def popped_def)
  have "map_ids l \<subseteq> heap_ids l - {key_id key} \<union> {}"
    using loop_invD(3) [OF assms(1)] assms(4) unfolding map_of_ids by auto
  then have "loop_inv {} l'"
    unfolding l' map_ids_def using loop_invD(1) [OF assms(1)] by (intro popped_inv [OF assms(1, 2)]) auto
  moreover have "script_ran (popped key l\<lparr>timer_map := timer_map l, fired := fired l @ []\<rparr>) l'"
    by (simp add: l' script_ran_def)
  note ran = ran_fired [OF this assms(1, 2)]
  have "fired_one key l l'"
    unfolding fired_one_def using ran assms(4) by (intro conjI exI [of _ None]) auto
  ultimately show ?thesis ..
qed

lemma fire_once:
  assumes "well_behaved call microtasks" "loop_inv {} l" "key \<in> set (timer_heap l)" "fire call microtasks key l = Ok l'"
    and "map_of (timer_map l) (key_id key) = Some d" "\<not> is_interval d"
  shows "loop_inv {} l' \<and> fired_one key l l'"
proof -
  let ?l = "popped key l\<lparr>timer_map := AList.delete (key_id key) (timer_map l), fired := fired l @ [(key, False)]\<rparr>"
  have l': "l' = microtasks (call (task d) ?l)"
    using assms(4-6) by (simp add: fire_def popped_def cancel_def)
  have "loop_inv {} ?l"
    using loop_invD(1, 3) [OF assms(2)]
    by (intro popped_inv [OF assms(2, 3)]) (auto simp: AList.delete_eq map_ids_def intro!: distinct_map_filter)
  note m = callback_run [OF assms(1) this, of "task d", folded l']
  note ran = ran_fired [OF m(2) assms(2, 3)]
  have "fired_one key l l'"
    unfolding fired_one_def using ran assms(5, 6) by (intro conjI exI [of _ None]) (auto simp: delete_conv')
  then show ?thesis using m(1) by simp
qed

lemma fire_interval:
  assumes "well_behaved call microtasks" "loop_inv {} l" "key \<in> set (timer_heap l)" "fire call microtasks key l = Ok l'"
    and "map_of (timer_map l) (key_id key) = Some d" "is_interval d"
  shows "loop_inv {} l' \<and> fired_one key l l'"
proof -
  let ?l = "popped key l\<lparr>timer_map := timer_map l, fired := fired l @ [(key, True)]\<rparr>"
  let ?m = "microtasks (call (task d) ?l)"
  have r: "refresh key ?m = Ok l'"
    using assms(4-6) by (simp add: fire_def popped_def)
  have inv: "loop_inv {key_id key} ?l"
    using loop_invD(1, 3) [OF assms(2)] by (intro popped_inv [OF assms(2, 3)]) (auto simp: map_ids_def)
  note m = callback_run [OF assms(1) inv, of "task d"]
  note ran = ran_fired [OF m(2) assms(2, 3)]
  have "key_id key < next_id ?l"
    using loop_invD(5) [OF inv, of "key_id key"] by simp
  then have "1 \<le> interval_ms e" if "map_of (timer_map ?m) (key_id key) = Some e" for e
    using m(2) that assms(5) loop_invD(7) [OF assms(2) map_of_SomeD [OF assms(5)] assms(6)] by (auto simp: script_ran_def)
  then obtain R where R: "loop_inv {} l'" "l' = ?m\<lparr>timer_heap := timer_heap l'\<rparr>" "set (timer_heap l') = set (timer_heap ?m) \<union> set_option R"
    "\<forall>k\<in>set_option R. deadline key < deadline k"
    by (rule refresh_inv [OF m(1) r])
  have same: "clock l' = clock ?m" "next_id l' = next_id ?m" "fired l' = fired ?m" "map_ids l' = map_ids ?m"
    by (subst R(2), simp add: map_ids_def)+
  have "fired_one key l l'"
    unfolding fired_one_def same using ran R(3, 4) assms(5, 6) by (intro conjI exI [of _ R]) auto
  then show ?thesis using R(1) by simp
qed

lemma fire_one:
  assumes "well_behaved call microtasks" "loop_inv {} l" "key \<in> set (timer_heap l)" "fire call microtasks key l = Ok l'"
  shows "loop_inv {} l' \<and> fired_one key l l'"
  using fire_dead [OF assms(2-4)] fire_once [OF assms] fire_interval [OF assms]
  by (cases "map_of (timer_map l) (key_id key)") auto

section \<open>A tick\<close>

text \<open>
  What the rounds of a tick do, from any point on: \<open>d\<close> is the deadline of the last key that was popped.
\<close>

definition ticked :: "int \<Rightarrow> ('f, 'v) EventLoop \<Rightarrow> (TimerKey \<times> bool) list \<Rightarrow> ('f, 'v) EventLoop \<Rightarrow> bool" where
  "ticked now l fs l' \<longleftrightarrow> loop_inv {} l' \<and> fired l' = fired l @ fs \<and> sorted (map (deadline \<circ> fst) fs) \<and>
    (\<forall>x\<in>set fs. deadline (fst x) \<le> now) \<and> (\<forall>k\<in>set (timer_heap l'). now < deadline k) \<and>
    (\<forall>i<next_id l. i \<notin> map_ids l \<longrightarrow> (\<forall>x\<in>set fs. key_id (fst x) \<noteq> i))"

lemma fired_one_later:
  assumes "fired_one key l l1" "now \<le> clock l" "deadline key \<le> now" "\<forall>k\<in>set (timer_heap l). deadline key \<le> deadline k"
  shows "\<forall>k\<in>set (timer_heap l1). deadline key \<le> deadline k"
proof -
  obtain R where "set (timer_heap l1) \<subseteq> set (timer_heap l) - {key} \<union> {k. clock l \<le> deadline k} \<union> set_option R"
    "\<forall>k\<in>set_option R. deadline key < deadline k"
    using assms(1) unfolding fired_one_def by blast
  moreover have "deadline key \<le> deadline k" if "clock l \<le> deadline k" for k
    using that assms(2, 3) by linarith
  ultimately show ?thesis using assms(4) by (auto dest!: subsetD less_imp_le)
qed

lemma ticked_fire:
  assumes "fired_one key l l1" "ticked now l1 fs l'" "\<forall>x\<in>set fs. deadline key \<le> deadline (fst x)" "deadline key \<le> now"
  shows "\<exists>fs. ticked now l fs l' \<and> (\<forall>x\<in>set fs. deadline key \<le> deadline (fst x))"
proof -
  define one where "one = (case map_of (timer_map l) (key_id key) of None \<Rightarrow> [] | Some d \<Rightarrow> [(key, is_interval d)])"
  have f: "fired l1 = fired l @ one" "next_id l \<le> next_id l1" "\<And>i. i < next_id l \<Longrightarrow> i \<notin> map_ids l \<Longrightarrow> i \<notin> map_ids l1"
    using assms(1) by (auto simp: fired_one_def one_def)
  have one: "one = [] \<or> (\<exists>b. one = [(key, b)]) \<and> key_id key \<in> map_ids l"
    using map_of_ids [of l "key_id key"] by (auto simp: one_def split: option.split)
  have "key_id (fst x) \<noteq> i" if i: "i < next_id l" "i \<notin> map_ids l" and x: "x \<in> set (one @ fs)" for i x
  proof (cases "x \<in> set fs")
    case True
    then show ?thesis using assms(2) f(2) f(3) [OF i] i(1) by (auto simp: ticked_def)
  next
    case False
    then have "key_id (fst x) \<in> map_ids l" using x one by auto
    then show ?thesis using i(2) by auto
  qed
  moreover have "sorted (map (deadline \<circ> fst) (one @ fs))" "\<forall>x\<in>set (one @ fs). deadline (fst x) \<le> now"
    "\<forall>x\<in>set (one @ fs). deadline key \<le> deadline (fst x)"
    using one assms(2-4) by (auto simp: ticked_def)
  ultimately show ?thesis
    using assms(2) f(1) by (intro exI [of _ "one @ fs"]) (simp add: ticked_def)
qed

definition ticks :: "int \<Rightarrow> int \<Rightarrow> ('f, 'v) EventLoop \<Rightarrow> bool \<Rightarrow> ('f, 'v) EventLoop \<Rightarrow> bool" where
  "ticks d now l again l' \<longleftrightarrow> (\<exists>fs. ticked now l fs l' \<and> (\<forall>x\<in>set fs. d \<le> deadline (fst x))) \<and> (again \<longleftrightarrow> timer_heap l' \<noteq> [])"

lemma ticks_done:
  assumes "loop_inv {} l" "min_first first" "timer_heap l = [] \<or> now < deadline (first (timer_heap l))"
  shows "ticks d now l (timer_heap l \<noteq> []) l" "timer_heap l = [] \<Longrightarrow> timer_map l = []"
proof -
  have "\<forall>k\<in>set (timer_heap l). now < deadline k"
    using assms(2, 3) unfolding min_first_def by (metis empty_iff empty_set less_le_trans)
  then show "ticks d now l (timer_heap l \<noteq> []) l"
    using assms(1) unfolding ticks_def ticked_def by (intro conjI exI [of _ "[]"]) simp_all
  show "timer_heap l = [] \<Longrightarrow> timer_map l = []"
    using loop_invD(3) [OF assms(1)] by (simp add: heap_ids_def map_ids_def)
qed

lemma ticks_fire:
  assumes "fired_one key l l1" "ticks (deadline key) now l1 again l'" "deadline key \<le> now" "d \<le> deadline key"
  shows "ticks d now l again l'"
proof -
  obtain fs where "ticked now l1 fs l'" "\<forall>x\<in>set fs. deadline key \<le> deadline (fst x)"
    using assms(2) by (auto simp: ticks_def)
  then obtain fs' where fs': "ticked now l fs' l'" "\<forall>x\<in>set fs'. deadline key \<le> deadline (fst x)"
    using ticked_fire [OF assms(1) _ _ assms(3)] by blast
  moreover have "\<forall>x\<in>set fs'. d \<le> deadline (fst x)"
    using fs'(2) assms(4) by (meson order_trans)
  ultimately show ?thesis
    using assms(2) unfolding ticks_def by blast
qed

lemma tick_loop_ticks:
  assumes "tick_loop first call microtasks now l = Some r"
  shows "\<forall>again l' d. r = Ok (again, l') \<longrightarrow> min_first first \<longrightarrow> well_behaved call microtasks \<longrightarrow> loop_inv {} l \<longrightarrow>
    now \<le> clock l \<longrightarrow> d \<le> now \<longrightarrow> (\<forall>k\<in>set (timer_heap l). d \<le> deadline k) \<longrightarrow> ticks d now l again l'"
proof (rule tick_loop.raw_induct [OF _ assms], goal_cases)
  case (1 tl first call microtasks now l r)
  show ?case
  proof (intro allI impI)
    fix again l' d
    assume a: "r = Ok (again, l')" "min_first first" "well_behaved call microtasks" "loop_inv {} l" "now \<le> clock l"
      "d \<le> now" "\<forall>k\<in>set (timer_heap l). d \<le> deadline k"
    let ?key = "first (timer_heap l)"
    show "ticks d now l again l'"
    proof (cases "timer_heap l = [] \<or> now < deadline ?key")
      case True
      note d = ticks_done [OF a(4, 2) True]
      then have "l' = l" "again \<longleftrightarrow> timer_heap l \<noteq> []"
        using 1(2) a(1) True by (simp_all add: Let_def split: if_splits)
      then show ?thesis using d(1) by simp
    next
      case False
      then obtain l1 where l1: "fire call microtasks ?key l = Ok l1" "tl first call microtasks now l1 = Some r"
        using 1(2) a(1) by (simp add: Let_def split: outcome.splits)
      have key: "?key \<in> set (timer_heap l)" "\<forall>k\<in>set (timer_heap l). deadline ?key \<le> deadline k" "deadline ?key \<le> now"
        using False a(2) by (simp_all add: min_first_def)
      note one = fire_one [OF a(3, 4) key(1) l1(1)]
      have "now \<le> clock l1"
        using one a(5) unfolding fired_one_def by linarith
      moreover note fired_one_later [OF conjunct2 [OF one] a(5) key(3, 2)]
      ultimately have "ticks (deadline ?key) now l1 again l'"
        using 1(1) [OF l1(2)] a(1-3) conjunct1 [OF one] key(3) by blast
      then show ?thesis
        using ticks_fire [OF conjunct2 [OF one] _ key(3)] key(1) a(7) by blast
    qed
  qed
qed

definition due :: "int \<Rightarrow> TimerKey \<Rightarrow> nat" where
  "due now k = nat (now - deadline k + 1)"

lemma sum_due:
  assumes "finite A" "finite B" "A \<subseteq> B \<union> Z \<union> set_option R" "\<forall>k\<in>Z. now < deadline k" "\<forall>k\<in>set_option R. due now k < n" "0 < n"
  shows "sum (due now) A < sum (due now) B + n"
proof -
  have fin: "finite (B \<union> set_option R)" using assms(2) by simp
  have "due now k = 0" if "k \<in> A - A \<inter> (B \<union> set_option R)" for k
  proof -
    have "k \<in> Z" using that assms(3) by blast
    then show ?thesis using assms(4) by (auto simp: due_def)
  qed
  then have "sum (due now) A = sum (due now) (A \<inter> (B \<union> set_option R))"
    using assms(1) by (intro sum.mono_neutral_right) auto
  also have "\<dots> \<le> sum (due now) (B \<union> set_option R)"
    using fin by (intro sum_mono2) auto
  also have "\<dots> \<le> sum (due now) B + sum (due now) (set_option R)"
    using assms(2) by (simp add: sum_Un_nat)
  also have "\<dots> < sum (due now) B + n"
    using assms(5, 6) by (cases R) auto
  finally show ?thesis .
qed

lemma fire_due:
  assumes "fired_one key l l1" "key \<in> set (timer_heap l)" "deadline key \<le> now" "now < clock l"
  shows "sum (due now) (set (timer_heap l1)) < sum (due now) (set (timer_heap l))"
proof -
  obtain R where R: "set (timer_heap l1) \<subseteq> set (timer_heap l) - {key} \<union> {k. clock l \<le> deadline k} \<union> set_option R"
    "\<forall>k\<in>set_option R. deadline key < deadline k"
    using assms(1) unfolding fired_one_def by blast
  have "sum (due now) (set (timer_heap l1)) < sum (due now) (set (timer_heap l) - {key}) + due now key"
    by (rule sum_due [OF _ _ R(1)]) (use R(2) assms(3, 4) in \<open>auto simp: due_def\<close>)
  also have "\<dots> = sum (due now) (set (timer_heap l))"
    using sum.remove [of "set (timer_heap l)" key "due now"] assms(2) by simp
  finally show ?thesis .
qed

lemma tick_loop_returns:
  assumes "min_first first" "well_behaved call microtasks"
  shows "loop_inv {} l \<Longrightarrow> now < clock l \<Longrightarrow> \<exists>r. tick_loop first call microtasks now l = Some r"
proof (induction "sum (due now) (set (timer_heap l))" arbitrary: l rule: less_induct)
  case less
  let ?key = "first (timer_heap l)"
  show ?case
  proof (cases "timer_heap l = [] \<or> now < deadline ?key")
    case True
    then show ?thesis by (subst tick_loop.simps) (auto simp: Let_def)
  next
    case False
    then have key: "?key \<in> set (timer_heap l)" "deadline ?key \<le> now"
      using assms(1) by (auto simp: min_first_def)
    show ?thesis
    proof (cases "fire call microtasks ?key l")
      case (Ok l1)
      note one = fire_one [OF assms(2) less.prems(1) key(1) Ok]
      have "now < clock l1"
        using one less.prems(2) by (auto simp: fired_one_def)
      then have "\<exists>r. tick_loop first call microtasks now l1 = Some r"
        using less.hyps fire_due [OF conjunct2 [OF one] key less.prems(2)] one by blast
      then show ?thesis
        using False Ok by (subst tick_loop.simps) (simp add: Let_def)
    qed (use False in \<open>subst tick_loop.simps, simp add: Let_def\<close>)+
  qed
qed


fun earliest :: "TimerKey list \<Rightarrow> TimerKey" where
  "earliest [] = \<lparr>deadline = 0, key_id = 0\<rparr>"
| "earliest [k] = k"
| "earliest (k # ks) = (let e = earliest ks in if deadline k \<le> deadline e then k else e)"

lemma min_first_earliest: "min_first earliest"
  unfolding min_first_def
proof (intro allI impI)
  fix ks :: "TimerKey list" assume "ks \<noteq> []"
  then show "earliest ks \<in> set ks \<and> (\<forall>k\<in>set ks. deadline (earliest ks) \<le> deadline k)"
    by (induction ks rule: earliest.induct) (auto simp: Let_def)
qed

text \<open>Two timers of 1 and 2 ms and an interval of 1 ms, 3 ms ago; the first callback cancels the second timer.\<close>

definition cancel_two :: "(nat, unit) caller" where
  "cancel_two t l = (case t of JS n _ \<Rightarrow> if n = 0 then cancel 2 l else l | Native _ \<Rightarrow> l)"

definition sample_loop :: "(nat, unit) EventLoop" where
  "sample_loop = \<lparr>next_id = 4,
     timer_heap = [\<lparr>deadline = 2000000, key_id = 2\<rparr>, \<lparr>deadline = 1000000, key_id = 1\<rparr>, \<lparr>deadline = 1500000, key_id = 3\<rparr>],
     timer_map = [(1, \<lparr>task = JS 0 [], is_interval = False, interval_ms = 1\<rparr>), (2, \<lparr>task = JS 1 [], is_interval = False, interval_ms = 2\<rparr>),
       (3, \<lparr>task = JS 2 [], is_interval = True, interval_ms = 1\<rparr>)],
     clock = 3000000, fired = []\<rparr>"


section \<open>The functions of the scripts\<close>

text \<open>What the functions use of V8: the type tests and conversions of values. A conversion that throws gives \<open>None\<close>.\<close>

record 'v v8_values =
  v8_is_function :: "'v \<Rightarrow> bool"
  v8_is_number :: "'v \<Rightarrow> bool"
  v8_integer_value :: "'v \<Rightarrow> int option"
  v8_int32_value :: "'v \<Rightarrow> int option"

datatype js_return = Throws string | Returns int | NoReturn

definition parse_delay :: "'v v8_values \<Rightarrow> 'v list \<Rightarrow> nat \<Rightarrow> int" where
  "parse_delay v8 info index =
    (if length info \<le> index \<or> \<not> v8_is_number v8 (info ! index) then 0
     else (case v8_integer_value v8 (info ! index) of
       None \<Rightarrow> 0
     | Some value \<Rightarrow> if long_max < value then long_max else if value < long_min then long_min else value))"

text \<open>The event loop of the isolate, if it has one, and the arguments of the call.\<close>

definition js_set_timeout ::
  "'v v8_values \<Rightarrow> 'v list \<Rightarrow> ('v, 'v) EventLoop option \<Rightarrow> (js_return \<times> ('v, 'v) EventLoop option) outcome" where
  "js_set_timeout v8 info loop = (case loop of
      None \<Rightarrow> Ok (Throws ''EventLoop is not available'', None)
    | Some l \<Rightarrow>
        if length info < 1 \<or> \<not> v8_is_function v8 (info ! 0)
        then Ok (Throws ''setTimeout callback must be a function'', Some l)
        else (case set_timeout (info ! 0) (parse_delay v8 info 1) (drop 2 info) l of
            Ok (i, l) \<Rightarrow> Ok (Returns i, Some l)
          | Terminated \<Rightarrow> Terminated
          | Undefined \<Rightarrow> Undefined))"

definition js_set_interval ::
  "'v v8_values \<Rightarrow> 'v list \<Rightarrow> ('v, 'v) EventLoop option \<Rightarrow> (js_return \<times> ('v, 'v) EventLoop option) outcome" where
  "js_set_interval v8 info loop = (case loop of
      None \<Rightarrow> Ok (Throws ''EventLoop is not available'', None)
    | Some l \<Rightarrow>
        if length info < 1 \<or> \<not> v8_is_function v8 (info ! 0)
        then Ok (Throws ''setInterval callback must be a function'', Some l)
        else (case set_interval (info ! 0) (parse_delay v8 info 1) (drop 2 info) l of
            Ok (i, l) \<Rightarrow> Ok (Returns i, Some l)
          | Terminated \<Rightarrow> Terminated
          | Undefined \<Rightarrow> Undefined))"

definition js_clear_timer :: "'v v8_values \<Rightarrow> 'v list \<Rightarrow> ('v, 'v) EventLoop option \<Rightarrow> ('v, 'v) EventLoop option" where
  "js_clear_timer v8 info loop = (case loop of
      None \<Rightarrow> None
    | Some l \<Rightarrow>
        if length info < 1 then Some l
        else (case v8_int32_value v8 (info ! 0) of None \<Rightarrow> Some l | Some i \<Rightarrow> Some (cancel i l)))"

lemma js_set_timeout_Returns:
  assumes "js_set_timeout v8 info (Some l) = Ok (Returns i, Some l')"
  shows "set_timeout (info ! 0) (parse_delay v8 info 1) (drop 2 info) l = Ok (i, l')"
  using assms by (auto simp: js_set_timeout_def split: if_splits outcome.splits)

text \<open>Clearing a timer leaves its key in the heap: with a timer set and cleared and nothing else to do, no callback is pending, yet the
  loop asks for another tick and waits until the deadline of the cleared timer.\<close>

theorem cleared_timer_waited:
  assumes "js_set_timeout v8 info (Some l) = Ok (Returns i, Some l1)" "js_clear_timer v8 [t] (Some l1) = Some l2" "v8_int32_value v8 t = Some i"
    and "0 < parse_delay v8 info 1" "timer_heap l = []" "timer_map l = []" "min_first first" "0 \<le> pass"
  shows "\<not> has_pending l2 \<and>
    (\<exists>l3. tick first call (\<lambda>l. l) pass l2 = Some (Ok (True, l3)) \<and> fired l3 = fired l \<and>
      clock l + parse_delay v8 info 1 * 1000000 \<le> clock (wait_for_next first l3))"
proof -
  let ?d = "clock l + parse_delay v8 info 1 * 1000000"
  have set: "schedule (JS (info ! 0) (drop 2 info)) (parse_delay v8 info 1) False l = Ok (i, l1)"
    using js_set_timeout_Returns [OF assms(1)] by (simp add: set_timeout_def)
  have l1: "timer_heap l1 = [\<lparr>deadline = ?d, key_id = i\<rparr>]" "map fst (timer_map l1) = [i]" "clock l1 = clock l" "fired l1 = fired l"
    using schedule_Ok [OF set] assms(4-6) by auto
  then have l2: "timer_map l2 = []" "timer_heap l2 = timer_heap l1" "clock l2 = clock l" "fired l2 = fired l"
    using assms(2, 3) by (auto simp: js_clear_timer_def cancel_def AList.delete_eq)
  have f: "first [\<lparr>deadline = ?d, key_id = i\<rparr>] = \<lparr>deadline = ?d, key_id = i\<rparr>"
    using assms(7) [unfolded min_first_def, rule_format, of "[\<lparr>deadline = ?d, key_id = i\<rparr>]"] by simp
  let ?l3 = "l2\<lparr>clock := clock l2 + pass\<rparr>"
  have "tick first call (\<lambda>l. l) pass l2 = Some (Ok (True, ?l3))"
    unfolding tick_def Let_def by (subst tick_loop.simps) (use l1(1) l2 f assms(4) in simp)
  moreover have "?d \<le> clock (wait_for_next first ?l3)"
    using l1(1) l2 f by (simp add: wait_for_next_def)
  ultimately show ?thesis
    using l2 by (auto simp: has_pending_def)
qed

text \<open>A delay that JavaScript converts to the largest integer, \<open>Infinity\<close> for instance, overflows the deadline.\<close>

lemma infinite_delay_undefined:
  assumes "v8_is_function v8 f" "v8_is_number v8 d" "v8_integer_value v8 d = Some long_max"
  shows "js_set_timeout v8 [f, d] (Some l) = Undefined"
  using assms by (simp add: js_set_timeout_def parse_delay_def set_timeout_def schedule_def normalize_delay_def add_ms_def long_max_def
      long_min_def Let_def)

definition int_values :: "int v8_values" where
  "int_values = \<lparr>v8_is_function = (\<lambda>v. v < 0), v8_is_number = (\<lambda>v. 0 \<le> v), v8_integer_value = Some, v8_int32_value = Some\<rparr>"

end
