(* ===== verification/Http1.thy ===== *)
theory Http1
  imports Http_Types
begin

text \<open>
  The HTTP/1 session of the client (\<open>http1.ixx\<close>). The parser llhttp is a parameter: \<open>exec\<close> gives for some input the name
  of its error, if any, the callbacks that were made and the new state of the parser. The reads of a connection are the list of their results,
  an empty one being the end of the stream, as is the end of the list.
\<close>

section \<open>Callbacks\<close>

datatype h1_event =
    On_message_begin | On_status int string | On_url string | On_header_field string | On_header_value string
  | On_headers_complete | On_body "u8 list" | On_message_complete

type_synonym 'p llhttp = "'p \<Rightarrow> u8 list \<Rightarrow> string option \<times> h1_event list \<times> 'p"

type_synonym reads = "u8 list result list"

record Http1Session =
  body_buffer :: "u8 list"
  response :: HeadParts
  temp_header_name :: string
  temp_header_value :: string
  last_was_value :: bool
  headers_complete :: bool
  message_complete :: bool

definition h1_new :: Http1Session where
  "h1_new = \<lparr>body_buffer = [], response = empty_head, temp_header_name = [], temp_header_value = [], last_was_value = False,
     headers_complete = False, message_complete = False\<rparr>"

definition commit_header :: "Http1Session \<Rightarrow> Http1Session" where
  "commit_header s =
    (if temp_header_name s \<noteq> []
     then s\<lparr>response := (response s)\<lparr>head_headers :=
              headers_add (temp_header_name s) (temp_header_value s) (head_headers (response s))\<rparr>,
            temp_header_name := [], temp_header_value := []\<rparr>
     else s)"

fun h1_callback :: "h1_event \<Rightarrow> Http1Session \<Rightarrow> Http1Session" where
  "h1_callback On_message_begin s = s"
| "h1_callback (On_status code message) s =
     s\<lparr>response := (response s)\<lparr>head_status := \<lparr>status_code = code, status_message = message\<rparr>\<rparr>\<rparr>"
| "h1_callback (On_url _) s = s"
| "h1_callback (On_header_field at) s =
    (let s = (if last_was_value s then (commit_header s)\<lparr>last_was_value := False\<rparr> else s)
     in s\<lparr>temp_header_name := temp_header_name s @ at\<rparr>)"
| "h1_callback (On_header_value at) s =
     s\<lparr>last_was_value := True, temp_header_value := temp_header_value s @ at\<rparr>"
| "h1_callback On_headers_complete s =
    (let s = (if last_was_value s then commit_header s else s) in s\<lparr>headers_complete := True\<rparr>)"
| "h1_callback (On_body at) s = s\<lparr>body_buffer := body_buffer s @ at\<rparr>"
| "h1_callback On_message_complete s = s\<lparr>message_complete := True\<rparr>"

text \<open>What is left of the head of a response that was moved away.\<close>

definition moved_head :: "HeadParts \<Rightarrow> HeadParts" where
  "moved_head h = h\<lparr>head_status := (head_status h)\<lparr>status_message := []\<rparr>, head_headers := []\<rparr>"

definition reset_state :: "Http1Session \<Rightarrow> Http1Session" where
  "reset_state s = s\<lparr>response := empty_head, body_buffer := [], temp_header_name := [], temp_header_value := [],
     last_was_value := False, headers_complete := False, message_complete := False\<rparr>"

section \<open>Requests\<close>

text \<open>
  The loop that \<open>request\<close> and \<open>body_full\<close>, and the two functions of a server session, have in common: read and parse until a
  flag is set. The state is that of the parser with that of the session.
\<close>

datatype pump_end = Finished | Eof | Failed ppnt_error

fun pump :: "(h1_event \<Rightarrow> 's \<Rightarrow> 's) \<Rightarrow> 'p llhttp \<Rightarrow> ('s \<Rightarrow> bool) \<Rightarrow> (string \<Rightarrow> string) \<Rightarrow> reads \<Rightarrow> 'p \<times> 's \<Rightarrow>
    pump_end \<times> reads \<times> 'p \<times> 's" where
  "pump callback exec flag what rs (p, s) =
    (if flag s then (Finished, rs, p, s)
     else (case rs of
       [] \<Rightarrow> (Eof, [], p, s)
     | r # rs \<Rightarrow> (case r of
         Inl e \<Rightarrow> (Failed e, rs, p, s)
       | Inr bs \<Rightarrow>
           if bs = [] then (Eof, rs, p, s)
           else let (err, evs, p) = exec p bs; s = fold callback evs s in
             (case err of
               None \<Rightarrow> pump callback exec flag what rs (p, s)
             | Some name \<Rightarrow> (Failed (Error bad_message (what name)), rs, p, s)))))"

text \<open>\<open>request\<close> with the result of the one write of the payload. \<close>

definition h1_request :: "'p llhttp \<Rightarrow> ('p \<Rightarrow> 'p) \<Rightarrow> endian \<Rightarrow> (u8 list \<Rightarrow> int result) \<Rightarrow> HttpRequest \<Rightarrow> reads \<Rightarrow>
    'p \<times> Http1Session \<Rightarrow> HeadParts result \<times> reads \<times> 'p \<times> Http1Session" where
  "h1_request exec reset native wr req rs ps =
    (let p = reset (fst ps); s = reset_state (snd ps) in
     case wr (serialize_to_h1 native req) of
       Inl e \<Rightarrow> (Inl e, rs, p, s)
     | Inr _ \<Rightarrow> (case pump h1_callback exec headers_complete (\<lambda>_. ''http1 request'') rs (p, s) of
         (Failed e, rs, p, s) \<Rightarrow> (Inl e, rs, p, s)
       | (_, rs, p, s) \<Rightarrow> (Inr (response s), rs, p, s\<lparr>response := moved_head (response s)\<rparr>)))"

definition h1_body_full :: "'p llhttp \<Rightarrow> reads \<Rightarrow> 'p \<times> Http1Session \<Rightarrow> u8 list result \<times> reads \<times> 'p \<times> Http1Session" where
  "h1_body_full exec rs ps = (case pump h1_callback exec message_complete (\<lambda>_. ''http1 body'') rs ps of
      (Failed e, rs, p, s) \<Rightarrow> (Inl e, rs, p, s)
    | (_, rs, p, s) \<Rightarrow> (Inr (body_buffer s), rs, p, s\<lparr>body_buffer := []\<rparr>))"

section \<open>The events of a message\<close>

text \<open>What the callbacks collect of the headers: the header begun, whether its value was begun, and the headers so far.\<close>

type_synonym collected = "string \<times> string \<times> bool \<times> HttpHeaderList"

definition commit :: "collected \<Rightarrow> collected" where
  "commit = (\<lambda>(name, val, lst, hs). if name = [] then (name, val, lst, hs) else ([], [], lst, headers_add name val hs))"

fun collect :: "h1_event \<Rightarrow> collected \<Rightarrow> collected" where
  "collect (On_header_field at) c =
    (let (name, val, lst, hs) = (if fst (snd (snd c)) then commit c else c) in (name @ at, val, False, hs))"
| "collect (On_header_value at) (name, val, lst, hs) = (name, val @ at, True, hs)"
| "collect On_headers_complete c = (if fst (snd (snd c)) then commit c else c)"
| "collect _ c = c"

fun event_body :: "h1_event \<Rightarrow> u8 list" where
  "event_body (On_body at) = at"
| "event_body _ = []"

text \<open>
  llhttp may give a header or the body in several pieces. \<open>header_events\<close> are the ways to give one header, \<open>message_events\<close> those to
  give a message that begins with the events \<open>start\<close> (of the status line, or of the request line).
\<close>

definition header_events :: "HttpHeader \<Rightarrow> h1_event list \<Rightarrow> bool" where
  "header_events h evs \<longleftrightarrow> hname h \<noteq> [] \<and> (\<exists>fs vs. evs = map On_header_field fs @ map On_header_value vs \<and> fs \<noteq> [] \<and> vs \<noteq> [] \<and>
     concat fs = hname h \<and> concat vs = hvalue h)"

inductive headers_events :: "HttpHeaderList \<Rightarrow> h1_event list \<Rightarrow> bool" where
  headers_nil: "headers_events [] []"
| headers_cons: "header_events h evs \<Longrightarrow> headers_events hs evs' \<Longrightarrow> headers_events (h # hs) (evs @ evs')"

fun start_event :: "h1_event \<Rightarrow> bool" where
  "start_event On_message_begin = True"
| "start_event (On_status _ _) = True"
| "start_event (On_url _) = True"
| "start_event _ = False"

definition message_events :: "h1_event list \<Rightarrow> HttpHeaderList \<Rightarrow> u8 list \<Rightarrow> h1_event list \<Rightarrow> bool" where
  "message_events start hs body evs \<longleftrightarrow> (\<forall>e\<in>set start. start_event e) \<and>
    (\<exists>hevs bs. headers_events hs hevs \<and> concat bs = body \<and>
      evs = (start @ hevs) @ On_headers_complete # map On_body bs @ [On_message_complete])"

fun parse_chunks :: "'p llhttp \<Rightarrow> 'p \<Rightarrow> u8 list list \<Rightarrow> (h1_event list \<times> 'p) option" where
  "parse_chunks exec p [] = Some ([], p)"
| "parse_chunks exec p (c # cs) = (case exec p c of
      (None, evs, p) \<Rightarrow> map_option (\<lambda>(evs', p). (evs @ evs', p)) (parse_chunks exec p cs)
    | (Some _, _, _) \<Rightarrow> None)"

lemma collect_start: "start_event e \<Longrightarrow> collect e c = c"
  by (cases e) auto

lemma fold_collect_start: "\<forall>e\<in>set es. start_event e \<Longrightarrow> fold collect es c = c"
  by (induction es) (auto simp: collect_start)

lemma collect_fields:
  "\<not> lst \<Longrightarrow> fold collect (map On_header_field fs) (name, val, lst, hs) = (name @ concat fs, val, lst, hs)"
  by (induction fs arbitrary: name) auto

lemma collect_values:
  "vs \<noteq> [] \<Longrightarrow> fold collect (map On_header_value vs) (name, val, lst, hs) = (name, val @ concat vs, True, hs)"
proof (induction vs arbitrary: val lst)
  case (Cons v vs)
  show ?case using Cons.IH [of "val @ v" True] by (cases "vs = []") auto
qed simp

text \<open>A state in which the headers \<open>hs\<close> were given: the last of them is not added yet.\<close>

definition collected_headers :: "HttpHeaderList \<Rightarrow> collected \<Rightarrow> bool" where
  "collected_headers hs = (\<lambda>(name, val, lst, added). if lst then name \<noteq> [] \<and> hs = headers_add name val added
     else name = [] \<and> val = [] \<and> hs = added)"

lemma collect_header:
  assumes "collected_headers hs c" "header_events h evs"
  shows "collected_headers (hs @ [h]) (fold collect evs c)"
proof -
  obtain name val lst added where c: "c = (name, val, lst, added)" by (cases c)
  obtain f fs vs where e: "evs = map On_header_field (f # fs) @ map On_header_value vs" "vs \<noteq> []"
    "f @ concat fs = hname h" "concat vs = hvalue h" "hname h \<noteq> []"
    using assms(2) unfolding header_events_def by (metis concat.simps(2) list.exhaust)
  have "collect (On_header_field f) c = (f, [], False, hs)"
    using assms(1) unfolding c by (cases lst) (auto simp: collected_headers_def commit_def)
  then have "fold collect evs c = (hname h, hvalue h, True, hs)"
    using e by (simp add: collect_fields collect_values)
  then show ?thesis using e(5) by (cases h) (simp add: collected_headers_def headers_add_def)
qed

lemma collect_headers:
  "headers_events hs evs \<Longrightarrow> collected_headers hs0 c \<Longrightarrow> collected_headers (hs0 @ hs) (fold collect evs c)"
proof (induction arbitrary: hs0 c rule: headers_events.induct)
  case (headers_cons h evs hs evs')
  show ?case using headers_cons.IH [OF collect_header [OF headers_cons.prems headers_cons.hyps(1)]] by simp
qed simp

lemma collect_complete:
  "collected_headers hs c \<Longrightarrow> snd (snd (snd (collect On_headers_complete c))) = hs"
  by (cases c) (auto simp: collected_headers_def commit_def split: if_splits)

lemma header_events_kind:
  "header_events h evs \<Longrightarrow> e \<in> set evs \<Longrightarrow> (\<exists>x. e = On_header_field x) \<or> (\<exists>x. e = On_header_value x)"
  by (auto simp: header_events_def)

lemma headers_events_kind:
  "headers_events hs evs \<Longrightarrow> e \<in> set evs \<Longrightarrow> (\<exists>x. e = On_header_field x) \<or> (\<exists>x. e = On_header_value x)"
proof (induction rule: headers_events.induct)
  case (headers_cons h evs hs evs')
  then show ?case by (auto dest: header_events_kind)
qed simp

lemma message_eventsE:
  assumes "message_events start hs body evs"
  obtains hevs bs where "headers_events hs hevs" "concat bs = body" "\<forall>e\<in>set start. start_event e"
    "evs = (start @ hevs) @ On_headers_complete # map On_body bs @ [On_message_complete]"
    "On_headers_complete \<notin> set (start @ hevs)" "On_message_complete \<notin> set (start @ hevs)"
    "\<forall>e\<in>set (start @ hevs). event_body e = []"
proof -
  obtain hevs bs where *: "headers_events hs hevs" "concat bs = body" "\<forall>e\<in>set start. start_event e"
    "evs = (start @ hevs) @ On_headers_complete # map On_body bs @ [On_message_complete]"
    using assms unfolding message_events_def by blast
  have "e \<noteq> On_headers_complete \<and> e \<noteq> On_message_complete \<and> event_body e = []" if "e \<in> set (start @ hevs)" for e
  proof (cases "e \<in> set start")
    case True
    then have "start_event e" using *(3) by blast
    then show ?thesis by (auto elim: start_event.elims)
  next
    case False
    then show ?thesis using headers_events_kind [OF *(1), of e] that by auto
  qed
  then show ?thesis using that * by blast
qed


section \<open>Sessions that collect a message\<close>

lemma prefix_to_first:
  "x \<notin> set a \<Longrightarrow> a @ x # b = e1 @ e2 \<Longrightarrow> x \<in> set e1 \<Longrightarrow> \<exists>m. e1 = a @ x # m"
proof (induction a arbitrary: e1)
  case Nil
  then show ?case by (cases e1) auto
next
  case (Cons y a)
  then show ?case by (cases e1) auto
qed

lemma pump_chunks:
  assumes "parse_chunks exec p cs = Some (evs, p')" "\<forall>c\<in>set cs. c \<noteq> []" "flag (fold callback evs s)"
  shows "\<exists>used cs' evs1 evs2 p1. evs = evs1 @ evs2 \<and> parse_chunks exec p1 cs' = Some (evs2, p') \<and>
    cs = used @ cs' \<and> parse_chunks exec p used = Some (evs1, p1) \<and> flag (fold callback evs1 s) \<and>
    pump callback exec flag what (map Inr cs @ rs) (p, s) = (Finished, map Inr cs' @ rs, p1, fold callback evs1 s)"
  using assms
proof (induction cs arbitrary: p s evs)
  case Nil
  then show ?case by force
next
  case (Cons c cs)
  show ?case
  proof (cases "flag s")
    case True
    then show ?thesis using Cons.prems(1)
      by (intro exI [of _ "[]"] exI [of _ "c # cs"] exI [of _ "[]"] exI [of _ evs] exI [of _ p]) simp
  next
    case False
    obtain evs0 p0 evs3 where x: "exec p c = (None, evs0, p0)" "parse_chunks exec p0 cs = Some (evs3, p')" "evs = evs0 @ evs3"
      using Cons.prems(1) by (auto split: prod.splits option.splits)
    have f: "flag (fold callback evs3 (fold callback evs0 s))" using Cons.prems(3) x(3) by simp
    have ne: "\<forall>c\<in>set cs. c \<noteq> []" using Cons.prems(2) by simp
    obtain used cs' evs1 evs2 p1 where l: "evs3 = evs1 @ evs2" "parse_chunks exec p1 cs' = Some (evs2, p')" "cs = used @ cs'"
      "parse_chunks exec p0 used = Some (evs1, p1)" "flag (fold callback evs1 (fold callback evs0 s))"
      "pump callback exec flag what (map Inr cs @ rs) (p0, fold callback evs0 s) =
        (Finished, map Inr cs' @ rs, p1, fold callback evs1 (fold callback evs0 s))"
      using Cons.IH [OF x(2) ne f] by blast
    have "pump callback exec flag what (map Inr (c # cs) @ rs) (p, s) = (Finished, map Inr cs' @ rs, p1, fold callback (evs0 @ evs1) s)"
      using x(1) Cons.prems(2) False l(6) by simp
    moreover have "parse_chunks exec p (c # used) = Some (evs0 @ evs1, p1)" using x(1) l(4) by simp
    ultimately show ?thesis using x(3) l(1,2,3,5)
      by (intro exI [of _ "c # used"] exI [of _ cs'] exI [of _ "evs0 @ evs1"] exI [of _ evs2] exI [of _ p1] conjI) (simp_all del: pump.simps)
  qed
qed

lemma parse_chunks_append:
  "parse_chunks exec p (cs @ ds) = (case parse_chunks exec p cs of
      None \<Rightarrow> None
    | Some (evs, p1) \<Rightarrow> map_option (\<lambda>(evs', p2). (evs @ evs', p2)) (parse_chunks exec p1 ds))"
  by (induction cs arbitrary: p) (auto split: prod.splits option.splits simp: option.map_comp comp_def option.map_ident split_def)

text \<open>
  What a session owes to the messages it collects: its callbacks collect the headers as \<open>collect\<close> does, append the body, and set
  each flag at its event only. The client and the server are both such sessions.
\<close>

locale h1_collector =
  fixes callback :: "h1_event \<Rightarrow> 's \<Rightarrow> 's"
    and header_fields :: "'s \<Rightarrow> collected"
    and buffered :: "'s \<Rightarrow> u8 list"
    and headers_done message_done :: "'s \<Rightarrow> bool"
  assumes fields_callback: "header_fields (callback e s) = collect e (header_fields s)"
    and buffered_callback: "buffered (callback e s) = buffered s @ event_body e"
    and headers_callback: "headers_done (callback e s) \<longleftrightarrow> headers_done s \<or> e = On_headers_complete"
    and message_callback: "message_done (callback e s) \<longleftrightarrow> message_done s \<or> e = On_message_complete"
begin

lemma fields_fold: "header_fields (fold callback evs s) = fold collect evs (header_fields s)"
  by (induction evs arbitrary: s) (simp_all add: fields_callback)

lemma buffered_fold: "buffered (fold callback evs s) = buffered s @ concat (map event_body evs)"
  by (induction evs arbitrary: s) (simp_all add: buffered_callback)

lemma headers_fold: "headers_done (fold callback evs s) \<longleftrightarrow> headers_done s \<or> On_headers_complete \<in> set evs"
  by (induction evs arbitrary: s) (auto simp: headers_callback)

lemma message_fold: "message_done (fold callback evs s) \<longleftrightarrow> message_done s \<or> On_message_complete \<in> set evs"
  by (induction evs arbitrary: s) (auto simp: message_callback)

text \<open>The first loop ends with the start of the message and its headers, and leaves the rest of the events to come.\<close>

lemma pump_headers:
  assumes m: "message_events start hs body evs"
    and p: "parse_chunks exec p cs = Some (evs, p')" "\<forall>c\<in>set cs. c \<noteq> []"
    and s: "header_fields s = ([], [], False, [])" "\<not> headers_done s"
  obtains used cs' hevs more p1 evs2 where
    "pump callback exec headers_done what (map Inr cs @ rs) (p, s) =
      (Finished, map Inr cs' @ rs, p1, fold callback (start @ hevs @ On_headers_complete # more) s)"
    "headers_events hs hevs" "\<forall>e\<in>set more. (\<exists>b. e = On_body b) \<or> e = On_message_complete"
    "evs = (start @ hevs @ On_headers_complete # more) @ evs2" "parse_chunks exec p1 cs' = Some (evs2, p')"
    "snd (snd (snd (header_fields (fold callback (start @ hevs @ On_headers_complete # more) s)))) = hs"
    "cs = used @ cs'" "parse_chunks exec p used = Some (start @ hevs @ On_headers_complete # more, p1)"
proof -
  obtain hevs bs where e: "headers_events hs hevs" "\<forall>e\<in>set start. start_event e"
    "evs = (start @ hevs) @ On_headers_complete # map On_body bs @ [On_message_complete]"
    "On_headers_complete \<notin> set (start @ hevs)"
    using m by (elim message_eventsE)
  have "headers_done (fold callback evs s)" unfolding headers_fold e(3) by simp
  from pump_chunks [where flag = headers_done and callback = callback, OF p this, of what rs] obtain used cs' evs1 evs2 p1 where
    l: "evs = evs1 @ evs2" "parse_chunks exec p1 cs' = Some (evs2, p')" "cs = used @ cs'" "headers_done (fold callback evs1 s)"
      "pump callback exec headers_done what (map Inr cs @ rs) (p, s) = (Finished, map Inr cs' @ rs, p1, fold callback evs1 s)"
      "parse_chunks exec p used = Some (evs1, p1)"
    by blast
  have "On_headers_complete \<in> set evs1" using l(4) s(2) by (simp add: headers_fold)
  then obtain more where more: "evs1 = (start @ hevs) @ On_headers_complete # more"
    using prefix_to_first [OF e(4), of "map On_body bs @ [On_message_complete]" evs1 evs2] e(3) l(1) by auto
  have "more @ evs2 = map On_body bs @ [On_message_complete]" using l(1) e(3) more by simp
  then have "set more \<subseteq> set (map On_body bs @ [On_message_complete])" by (metis Un_upper1 set_append)
  then have kinds: "\<forall>e\<in>set more. (\<exists>b. e = On_body b) \<or> e = On_message_complete" by auto
  have rest: "fold collect more c = c" for c using kinds by (induction more arbitrary: c) auto
  have "collected_headers hs (fold collect hevs (header_fields s))"
    using collect_headers [OF e(1), of "[]" "header_fields s"] by (simp add: s collected_headers_def)
  then have "snd (snd (snd (header_fields (fold callback evs1 s)))) = hs"
    unfolding fields_fold more using collect_complete by (simp add: fold_collect_start [OF e(2)] rest)
  with l(5,2,3,1,6) show ?thesis unfolding more append_assoc by (intro that [OF _ e(1) kinds]) simp_all
qed

text \<open>The second loop ends with the whole body.\<close>

lemma pump_body:
  assumes m: "message_events start hs body (evs1 @ evs2)"
    and p: "parse_chunks exec p cs = Some (evs2, p')" "\<forall>c\<in>set cs. c \<noteq> []"
    and s: "buffered s = concat (map event_body evs1)" "message_done s \<longleftrightarrow> On_message_complete \<in> set evs1"
  shows "\<exists>used cs' e3 p1 s1. pump callback exec message_done what (map Inr cs @ rs) (p, s) = (Finished, map Inr cs' @ rs, p1, s1) \<and>
    buffered s1 = body \<and> message_done s1 \<and> cs = used @ cs' \<and> parse_chunks exec p used = Some (e3, p1) \<and> On_message_complete \<in> set (evs1 @ e3)"
proof -
  obtain hevs bs where e: "concat bs = body"
    "evs1 @ evs2 = (start @ hevs) @ On_headers_complete # map On_body bs @ [On_message_complete]"
    "On_message_complete \<notin> set (start @ hevs)" "\<forall>e\<in>set (start @ hevs). event_body e = []"
    using m by (elim message_eventsE)
  have "On_message_complete \<in> set (evs1 @ evs2)" unfolding e(2) by simp
  then have "message_done (fold callback evs2 s)" by (auto simp: message_fold s(2))
  from pump_chunks [where flag = message_done and callback = callback, OF p this, of what rs] obtain used cs' e3 e4 p1 where
    l: "evs2 = e3 @ e4" "message_done (fold callback e3 s)"
      "pump callback exec message_done what (map Inr cs @ rs) (p, s) = (Finished, map Inr cs' @ rs, p1, fold callback e3 s)"
      "cs = used @ cs'" "parse_chunks exec p used = Some (e3, p1)"
    by blast
  have c: "On_message_complete \<in> set (evs1 @ e3)" using l(2) by (auto simp: message_fold s(2))
  have eq: "((start @ hevs) @ On_headers_complete # map On_body bs) @ [On_message_complete] = (evs1 @ e3) @ e4"
    using e(2) l(1) by simp
  have "On_message_complete \<notin> set ((start @ hevs) @ On_headers_complete # map On_body bs)" using e(3) by auto
  with c eq obtain m where m: "evs1 @ e3 = ((start @ hevs) @ On_headers_complete # map On_body bs) @ On_message_complete # m"
    using prefix_to_first by metis
  have "e4 = []" using eq unfolding m by simp
  then have "concat (map event_body (evs1 @ e3)) = concat (map event_body ((start @ hevs) @ On_headers_complete # map On_body bs @ [On_message_complete]))"
    using e(2) l(1) by simp
  also have "\<dots> = concat (map event_body (start @ hevs)) @ body"
    using e(1) by (simp add: comp_def)
  also have "\<dots> = body" using e(4) by (simp add: concat_eq_Nil_conv)
  finally have "buffered (fold callback e3 s) = body" by (simp add: buffered_fold s(1))
  with l(2-5) c show ?thesis by blast
qed

end


section \<open>Responses\<close>

definition client_fields :: "Http1Session \<Rightarrow> collected" where
  "client_fields s = (temp_header_name s, temp_header_value s, last_was_value s, head_headers (response s))"

interpretation client: h1_collector h1_callback client_fields body_buffer headers_complete message_complete
proof unfold_locales
  fix e :: h1_event and s :: Http1Session
  show "client_fields (h1_callback e s) = collect e (client_fields s)"
    by (cases e) (auto simp: client_fields_def commit_header_def commit_def Let_def)
  show "body_buffer (h1_callback e s) = body_buffer s @ event_body e"
    by (cases e) (auto simp: commit_header_def Let_def)
  show "headers_complete (h1_callback e s) \<longleftrightarrow> headers_complete s \<or> e = On_headers_complete"
    by (cases e) (auto simp: commit_header_def Let_def)
  show "message_complete (h1_callback e s) \<longleftrightarrow> message_complete s \<or> e = On_message_complete"
    by (cases e) (auto simp: commit_header_def Let_def)
qed

lemma status_callback:
  "(\<And>c m. e \<noteq> On_status c m) \<Longrightarrow> head_status (response (h1_callback e s)) = head_status (response s)"
  by (cases e) (auto simp: commit_header_def Let_def)

lemma status_fold:
  "(\<And>e c m. e \<in> set evs \<Longrightarrow> e \<noteq> On_status c m) \<Longrightarrow>
    head_status (response (fold h1_callback evs s)) = head_status (response s)"
  by (induction evs arbitrary: s) (simp_all add: status_callback)

lemma status_start:
  "ts \<noteq> [] \<Longrightarrow> head_status (response (fold h1_callback (map (On_status code) ts) s)) =
    \<lparr>status_code = code, status_message = last ts\<rparr>"
  by (induction ts arbitrary: s) auto

lemma status_message_events:
  assumes "ts \<noteq> []" "headers_events hs hevs" "\<forall>e\<in>set rest. (\<exists>b. e = On_body b) \<or> e = On_message_complete"
  shows "head_status (response (fold h1_callback ((On_message_begin # map (On_status code) ts) @ hevs @ On_headers_complete # rest) s)) =
    \<lparr>status_code = code, status_message = last ts\<rparr>"
proof -
  have "e \<noteq> On_status c m" if "e \<in> set (hevs @ On_headers_complete # rest)" for e c m
    using that headers_events_kind [OF assms(2), of e] assms(3) by auto
  note status_fold [OF this, of "hevs @ On_headers_complete # rest" "fold h1_callback (map (On_status code) ts) s"]
  then show ?thesis using status_start [OF assms(1), of code s] by simp
qed

text \<open>
  A response and its body use up the reads that hold it. The first of the two results is the head, and the session is left with the
  reads after the message when the message is not complete before its last read.
\<close>

lemma exchange_run:
  assumes m: "message_events (On_message_begin # map (On_status code) ts) hs body evs" "ts \<noteq> []"
    and p: "parse_chunks exec (reset p) cs = Some (evs, p')" "\<forall>c\<in>set cs. c \<noteq> []"
    and w: "wr (serialize_to_h1 native req) = Inr n"
  obtains head rs1 ps1 used cs' evs1 p2 s2 where "h1_request exec reset native wr req (map Inr cs @ rs) (p, s) = (Inr head, rs1, ps1)"
    "head_status head = \<lparr>status_code = code, status_message = last ts\<rparr>" "head_headers head = hs"
    "h1_body_full exec rs1 ps1 = (Inr body, map Inr cs' @ rs, p2, s2)" "cs = used @ cs'"
    "parse_chunks exec (reset p) used = Some (evs1, p2)" "On_message_complete \<in> set evs1"
    "headers_complete (snd ps1)" "message_complete s2"
proof -
  let ?start = "On_message_begin # map (On_status code) ts"
  let ?s = "reset_state s"
  have r: "client_fields ?s = ([], [], False, [])" "\<not> headers_complete ?s" "body_buffer ?s = []" "\<not> message_complete ?s"
    by (simp_all add: client_fields_def reset_state_def empty_head_def)
  obtain used cs' hevs more p1 evs2 where h:
    "pump h1_callback exec headers_complete (\<lambda>_. ''http1 request'') (map Inr cs @ rs) (reset p, ?s) =
      (Finished, map Inr cs' @ rs, p1, fold h1_callback (?start @ hevs @ On_headers_complete # more) ?s)"
    "headers_events hs hevs" "\<forall>e\<in>set more. (\<exists>b. e = On_body b) \<or> e = On_message_complete"
    "evs = (?start @ hevs @ On_headers_complete # more) @ evs2" "parse_chunks exec p1 cs' = Some (evs2, p')"
    "snd (snd (snd (client_fields (fold h1_callback (?start @ hevs @ On_headers_complete # more) ?s)))) = hs"
    "cs = used @ cs'" "parse_chunks exec (reset p) used = Some (?start @ hevs @ On_headers_complete # more, p1)"
    by (rule client.pump_headers [OF m(1) p r(1,2)])
  let ?evs1 = "?start @ hevs @ On_headers_complete # more"
  let ?s1 = "fold h1_callback ?evs1 ?s"
  let ?moved = "?s1\<lparr>response := moved_head (response ?s1)\<rparr>"
  have q: "h1_request exec reset native wr req (map Inr cs @ rs) (p, s) = (Inr (response ?s1), map Inr cs' @ rs, p1, ?moved)"
    by (simp only: h1_request_def w h(1) Let_def fst_conv snd_conv sum.case prod.case pump_end.case)
  have b: "body_buffer ?moved = concat (map event_body ?evs1)" "message_complete ?moved \<longleftrightarrow> On_message_complete \<in> set ?evs1"
    using client.buffered_fold [of ?evs1 ?s] client.message_fold [of ?evs1 ?s] r(3,4) by simp_all
  have ne: "\<forall>c\<in>set cs'. c \<noteq> []" using p(2) h(7) by simp
  obtain used2 cs2 e3 p2 s2 where l: "pump h1_callback exec message_complete (\<lambda>_. ''http1 body'') (map Inr cs' @ rs) (p1, ?moved) =
      (Finished, map Inr cs2 @ rs, p2, s2)" "body_buffer s2 = body" "message_complete s2" "cs' = used2 @ cs2"
      "parse_chunks exec p1 used2 = Some (e3, p2)" "On_message_complete \<in> set (?evs1 @ e3)"
    using client.pump_body [OF m(1) [unfolded h(4)] h(5) ne b, of "\<lambda>_. ''http1 body''" rs] by blast
  have "h1_body_full exec (map Inr cs' @ rs) (p1, ?moved) = (Inr body, map Inr cs2 @ rs, p2, s2\<lparr>body_buffer := []\<rparr>)"
    unfolding h1_body_full_def l(1) using l(2) by simp
  moreover have "head_headers (response ?s1) = hs" using h(6) by (simp only: client_fields_def snd_conv)
  moreover have "cs = (used @ used2) @ cs2" using h(7) l(4) by simp
  moreover have "parse_chunks exec (reset p) (used @ used2) = Some (?evs1 @ e3, p2)"
    unfolding parse_chunks_append h(8) by (simp add: l(5))
  moreover have "headers_complete (snd (p1, ?moved))" using client.headers_fold [of ?evs1 ?s] by simp
  moreover have "message_complete (s2\<lparr>body_buffer := []\<rparr>)" using l(3) by simp
  ultimately show ?thesis using that [OF q status_message_events [OF m(2) h(2,3)]] l(6) by blast
qed

text \<open>C8: However the reads cut a response, and however the parser cuts its headers and its body into pieces, \<open>request\<close> gives the
  response with its status code and its headers, in order, and the \<open>body_full\<close> that follows gives the whole body, also on a session
  that was used before. Of a reason phrase in several pieces only the last one is kept.\<close>

theorem response_reassembled:
  assumes m: "message_events (On_message_begin # map (On_status code) ts) hs body evs" "ts \<noteq> []"
    and p: "parse_chunks exec (reset p) cs = Some (evs, p')" "\<forall>c\<in>set cs. c \<noteq> []"
    and w: "wr (serialize_to_h1 native req) = Inr n"
  shows "\<exists>head rs1 ps1. h1_request exec reset native wr req (map Inr cs @ rs) (p, s) = (Inr head, rs1, ps1) \<and>
    head_status head = \<lparr>status_code = code, status_message = last ts\<rparr> \<and> head_headers head = hs \<and>
    fst (h1_body_full exec rs1 ps1) = Inr body"
proof -
  obtain head rs1 ps1 used cs' evs1 p2 s2 where "h1_request exec reset native wr req (map Inr cs @ rs) (p, s) = (Inr head, rs1, ps1)"
    "head_status head = \<lparr>status_code = code, status_message = last ts\<rparr>" "head_headers head = hs"
    "h1_body_full exec rs1 ps1 = (Inr body, map Inr cs' @ rs, p2, s2)" "cs = used @ cs'"
    "parse_chunks exec (reset p) used = Some (evs1, p2)" "On_message_complete \<in> set evs1"
    "headers_complete (snd ps1)" "message_complete s2"
    by (rule exchange_run [where reset = reset and p = p and wr = wr and native = native and req = req, OF m p w])
  then show ?thesis by (intro exI [of _ head] exI [of _ rs1] exI [of _ ps1]) simp
qed

text \<open>A parser of one byte for each event.\<close>

fun byte_events :: "u8 \<Rightarrow> h1_event list" where
  "byte_events b = (if b = 0 then [On_message_begin, On_status 200 ''O'', On_status 200 ''K'']
     else if b = 1 then [On_header_field ''na'', On_header_field ''me''] else if b = 2 then [On_header_value ''x'']
     else if b = 3 then [On_headers_complete] else if b = 4 then [On_message_complete] else [On_body [b]])"

definition byte_exec :: "unit llhttp" where
  "byte_exec p bs = (None, concat (map byte_events bs), p)"

lemma byte_message:
  "message_events (On_message_begin # map (On_status 200) [''O'', ''K'']) [\<lparr>hname = ''name'', hvalue = ''xx''\<rparr>] [7, 8]
    (concat (map byte_events [0, 1, 2, 2, 3, 7, 8, 4]))"
proof -
  have "header_events \<lparr>hname = ''name'', hvalue = ''xx''\<rparr> ([On_header_field ''na'', On_header_field ''me''] @ [On_header_value ''x'', On_header_value ''x''])"
    unfolding header_events_def by (intro conjI exI [of _ "[''na'', ''me'']"] exI [of _ "[''x'', ''x'']"]) simp_all
  then have "headers_events [\<lparr>hname = ''name'', hvalue = ''xx''\<rparr>]
      ([On_header_field ''na'', On_header_field ''me'', On_header_value ''x'', On_header_value ''x''] @ [])"
    using headers_cons headers_nil by fastforce
  then show ?thesis unfolding message_events_def
    by (intro conjI exI [of _ "[On_header_field ''na'', On_header_field ''me'', On_header_value ''x'', On_header_value ''x'']"]
        exI [of _ "[[7], [8]]"]) simp_all
qed

theorem response_reassembled_witness:
  "\<exists>head rs1 ps1. h1_request byte_exec id little (\<lambda>bs. Inr (int (length bs))) default_request
      (map Inr [[0, 1, 2], [2, 3, 7], [8, 4]] @ []) ((), h1_new\<lparr>body_buffer := [9], headers_complete := True\<rparr>) = (Inr head, rs1, ps1) \<and>
    head_status head = \<lparr>status_code = 200, status_message = last [''O'', ''K'']\<rparr> \<and>
    head_headers head = [\<lparr>hname = ''name'', hvalue = ''xx''\<rparr>] \<and> fst (h1_body_full byte_exec rs1 ps1) = Inr [7, 8]"
proof (rule response_reassembled [OF byte_message])
  show "parse_chunks byte_exec (id ()) [[0, 1, 2], [2, 3, 7], [8, 4]] = Some (concat (map byte_events [0, 1, 2, 2, 3, 7, 8, 4]), ())"
    by (simp add: byte_exec_def)
  show "(\<lambda>bs. Inr (int (length bs))) (serialize_to_h1 little default_request) = Inr (int (length (serialize_to_h1 little default_request)))"
    by simp
qed simp_all

text \<open>
  The end of the stream is no error. Before the headers it gives a response of status 0 without headers, and in the body what was
  received of it. A write that sends a part of the request counts as sent.
\<close>

theorem request_eof:
  assumes "wr (serialize_to_h1 native req) = Inr n"
  shows "\<exists>ps. h1_request exec reset native wr req (Inr [] # rs) (p, s) = (Inr empty_head, rs, ps)"
  using assms by (simp add: h1_request_def reset_state_def)

theorem body_eof:
  "\<not> message_complete s \<Longrightarrow> fst (h1_body_full exec (Inr [] # rs) (p, s)) = Inr (body_buffer s)"
  by (simp add: h1_body_full_def)

end
