(* ===== verification/Http2.thy ===== *)
theory Http2
  imports Http_Types "HOL-Library.Sublist"
begin

text \<open>
  The HTTP/2 session of the client (\<open>http2.ixx\<close>). Each request is a coroutine, and one more, the background driver, reads from the
  connection and lets nghttp2 make its callbacks. A coroutine runs from one suspension to the next without interruption; the events
  below are these pieces of code, and a run of a session is any order of them that the coroutines allow. What nghttp2 does with the
  bytes it is given, and the results of reading and writing, are parts of the events.
\<close>

section \<open>State\<close>

text \<open>A waker is set or not: it resumes the request of the stream it is set on.\<close>

record Http2StreamContext =
  stream_id :: int
  ctx_status_code :: int
  ctx_headers :: HttpHeaderList
  ctx_body_buffer :: "u8 list"
  header_complete :: bool
  stream_closed :: bool
  header_waker :: bool
  body_waker :: bool

definition new_context :: "int \<Rightarrow> Http2StreamContext" where
  "new_context i = \<lparr>stream_id = i, ctx_status_code = -1, ctx_headers = [], ctx_body_buffer = [], header_complete = False,
     stream_closed = False, header_waker = False, body_waker = False\<rparr>"

text \<open>Where a request stands, from the writing of its frames to the end of \<open>body_full\<close> on its response.\<close>

datatype h2_task =
    Flushing | Awaiting_headers | Headers_posted bool | Responded HeadParts
  | Awaiting_body | Body_posted "u8 list" | Body_done "u8 list result" | Request_failed ppnt_error

datatype h2_driver = Not_started | Reading | Writing | Ended

text \<open>
  \<open>tasks\<close> has for every stream its context and its request, which share the context also when the stream is no longer a key of the
  map \<open>streams_\<close>; \<open>streams\<close> is the set of these keys.
\<close>

record Http2Session =
  tasks :: "int \<Rightarrow> (Http2StreamContext \<times> h2_task) option"
  streams :: "int set"
  should_close :: bool
  back_task :: h2_driver

definition h2_new :: Http2Session where
  "h2_new = \<lparr>tasks = \<lambda>_. None, streams = {}, should_close = False, back_task = Not_started\<rparr>"

definition update_task :: "int \<Rightarrow> (Http2StreamContext \<times> h2_task \<Rightarrow> Http2StreamContext \<times> h2_task) \<Rightarrow> Http2Session \<Rightarrow> Http2Session" where
  "update_task i f s = s\<lparr>tasks := (tasks s)(i := map_option f (tasks s i))\<rparr>"

text \<open>Calls of the wakers: each is moved out of the context before, and posts the request with a value.\<close>

definition wake_header :: "bool \<Rightarrow> Http2StreamContext \<times> h2_task \<Rightarrow> Http2StreamContext \<times> h2_task" where
  "wake_header ok = (\<lambda>(c, t). if header_waker c then (c\<lparr>header_waker := False\<rparr>, Headers_posted ok) else (c, t))"

definition wake_body :: "Http2StreamContext \<times> h2_task \<Rightarrow> Http2StreamContext \<times> h2_task" where
  "wake_body = (\<lambda>(c, t). if body_waker c then (c\<lparr>ctx_body_buffer := [], body_waker := False\<rparr>, Body_posted (ctx_body_buffer c))
     else (c, t))"

section \<open>Callbacks\<close>

datatype frame_kind = Headers_response | Headers_other | Other_frame

datatype h2_callback =
    On_header frame_kind int string string
  | On_data_chunk_recv int "u8 list"
  | On_stream_close int u32
  | On_frame_recv frame_kind int

fun callback_stream :: "h2_callback \<Rightarrow> int" where
  "callback_stream (On_header _ i _ _) = i"
| "callback_stream (On_data_chunk_recv i _) = i"
| "callback_stream (On_stream_close i _) = i"
| "callback_stream (On_frame_recv _ i) = i"

definition add_header :: "string \<Rightarrow> string \<Rightarrow> Http2StreamContext \<Rightarrow> Http2StreamContext" where
  "add_header key val c =
    (if key = '':status'' then (case from_chars_int val of FC_ok n \<Rightarrow> c\<lparr>ctx_status_code := n\<rparr> | _ \<Rightarrow> c)
     else if \<not> starts_with '':'' key then c\<lparr>ctx_headers := headers_add key val (ctx_headers c)\<rparr>
     else c)"

fun callback_context :: "h2_callback \<Rightarrow> Http2StreamContext \<times> h2_task \<Rightarrow> Http2StreamContext \<times> h2_task" where
  "callback_context (On_header kind _ key val) (c, t) = (if kind = Other_frame then (c, t) else (add_header key val c, t))"
| "callback_context (On_data_chunk_recv _ bs) (c, t) = (c\<lparr>ctx_body_buffer := ctx_body_buffer c @ bs\<rparr>, t)"
| "callback_context (On_stream_close _ _) (c, t) = wake_body (wake_header False (c\<lparr>header_complete := True, stream_closed := True\<rparr>, t))"
| "callback_context (On_frame_recv kind _) (c, t) =
    (if kind = Headers_response then wake_header True (c\<lparr>header_complete := True\<rparr>, t) else (c, t))"

definition session_callback :: "h2_callback \<Rightarrow> Http2Session \<Rightarrow> Http2Session" where
  "session_callback cb s =
    (if callback_stream cb \<notin> streams s then s else update_task (callback_stream cb) (callback_context cb) s)"

section \<open>Coroutines\<close>

text \<open>The end of \<open>background_driver\<close>, after its loop.\<close>

definition end_context :: "Http2StreamContext \<times> h2_task \<Rightarrow> Http2StreamContext \<times> h2_task" where
  "end_context = (\<lambda>(c, t). wake_body (wake_header False (c\<lparr>stream_closed := True\<rparr>, t)))"

definition driver_end :: "Http2Session \<Rightarrow> Http2Session" where
  "driver_end s = s\<lparr>tasks := \<lambda>i. if i \<in> streams s then map_option end_context (tasks s i) else tasks s i,
     streams := {}, should_close := True, back_task := Ended\<rparr>"

definition ensure_background_driver :: "Http2Session \<Rightarrow> Http2Session" where
  "ensure_background_driver s =
    (if back_task s = Not_started then (if should_close s then driver_end s else s\<lparr>back_task := Reading\<rparr>) else s)"

text \<open>The fields of a request, as \<open>request\<close> gives them to nghttp2. It gives no body.\<close>

definition request_nva :: "HttpRequest \<Rightarrow> (string \<times> string) list" where
  "request_nva req =
    [('':method'', req_method req), ('':scheme'', scheme_of (req_url req)),
     ('':path'', if path_of (req_url req) = [] then ''/'' else path_of (req_url req)),
     ('':authority'', case headers_get ''host'' (req_headers req) of Some h \<Rightarrow> h | None \<Rightarrow> host_of (req_url req))] @
    map (\<lambda>h. (to_lower_ascii_str (hname h), hvalue h))
      (filter (\<lambda>h. \<not> (ignore_case_equal (hname h) ''host'' \<or> ignore_case_equal (hname h) ''connection'' \<or>
                 ignore_case_equal (hname h) ''keep-alive'' \<or> ignore_case_equal (hname h) ''upgrade'')) (req_headers req))"

text \<open>
  The events: a request is submitted (with the id nghttp2 returns) and writes; its writing ends; it goes on after a waker; its
  \<open>body_full\<close> is called, or goes on; the session is closed; and those of the background driver: a read that nghttp2
  received, with the callbacks it made and whether it succeeded, a read that failed, the end of its writing.
\<close>

datatype h2_event =
    Submitted int | Flushed int bool | Resume_request int | Call_body_full int | Resume_body_full int
  | Close | Received "h2_callback list" bool | Read_failed | Driver_flushed bool

definition request_submitted :: "int \<Rightarrow> Http2Session \<Rightarrow> Http2Session" where
  "request_submitted i s = (let s = ensure_background_driver s in
     if i < 0 then s else s\<lparr>tasks := (tasks s)(i \<mapsto> (new_context i, Flushing)), streams := insert i (streams s)\<rparr>)"

definition erase_stream :: "int \<Rightarrow> Http2Session \<Rightarrow> Http2Session" where
  "erase_stream i s = s\<lparr>streams := streams s - {i}\<rparr>"

definition set_task :: "int \<Rightarrow> Http2StreamContext \<Rightarrow> h2_task \<Rightarrow> Http2Session \<Rightarrow> Http2Session" where
  "set_task i c t s = s\<lparr>tasks := (tasks s)(i \<mapsto> (c, t))\<rparr>"

definition request_flushed :: "int \<Rightarrow> bool \<Rightarrow> Http2StreamContext \<Rightarrow> Http2Session \<Rightarrow> Http2Session" where
  "request_flushed i ok c s =
    (if \<not> ok then set_task i c (Request_failed (Error io_error ''Failed to send request'')) (erase_stream i s)
     else set_task i (c\<lparr>header_waker := True\<rparr>) Awaiting_headers s)"

definition context_head :: "Http2StreamContext \<Rightarrow> HeadParts" where
  "context_head c = empty_head\<lparr>head_status := \<lparr>status_code = ctx_status_code c, status_message = []\<rparr>, head_headers := ctx_headers c\<rparr>"

definition request_resumed :: "int \<Rightarrow> bool \<Rightarrow> Http2StreamContext \<Rightarrow> Http2Session \<Rightarrow> Http2Session" where
  "request_resumed i success c s =
    (if \<not> success \<or> stream_closed c \<and> ctx_status_code c = -1
     then set_task i c (Request_failed (Error connection_aborted ''Stream closed or failed'')) (erase_stream i s)
     else set_task i (c\<lparr>ctx_headers := []\<rparr>) (Responded (context_head c)) s)"

definition h2_body_full :: "int \<Rightarrow> Http2StreamContext \<Rightarrow> Http2Session \<Rightarrow> Http2Session" where
  "h2_body_full i c s =
    (if i \<notin> streams s then set_task i c (Body_done (Inl (Error invalid_argument ''Stream id not found''))) s
     else if stream_closed c then set_task i (c\<lparr>ctx_body_buffer := []\<rparr>) (Body_done (Inr (ctx_body_buffer c))) (erase_stream i s)
     else set_task i (c\<lparr>body_waker := True\<rparr>) Awaiting_body s)"

fun h2_step :: "h2_event \<Rightarrow> Http2Session \<Rightarrow> Http2Session option" where
  "h2_step (Submitted i) s = (if 0 \<le> i \<and> tasks s i \<noteq> None then None else Some (request_submitted i s))"
| "h2_step (Flushed i ok) s = (case tasks s i of Some (c, Flushing) \<Rightarrow> Some (request_flushed i ok c s) | _ \<Rightarrow> None)"
| "h2_step (Resume_request i) s = (case tasks s i of Some (c, Headers_posted ok) \<Rightarrow> Some (request_resumed i ok c s) | _ \<Rightarrow> None)"
| "h2_step (Call_body_full i) s = (case tasks s i of
      Some (c, Responded _) \<Rightarrow> Some (h2_body_full i c s)
    | Some (c, Body_done _) \<Rightarrow> Some (h2_body_full i c s)
    | _ \<Rightarrow> None)"
| "h2_step (Resume_body_full i) s = (case tasks s i of
      Some (c, Body_posted bs) \<Rightarrow> Some (set_task i c (Body_done (Inr bs)) (erase_stream i s)) | _ \<Rightarrow> None)"
| "h2_step Close s = Some (s\<lparr>should_close := True\<rparr>)"
| "h2_step (Received cbs ok) s =
    (if back_task s = Reading
     then (let s = fold session_callback cbs s in Some (if ok then s\<lparr>back_task := Writing\<rparr> else driver_end s)) else None)"
| "h2_step Read_failed s = (if back_task s = Reading then Some (driver_end s) else None)"
| "h2_step (Driver_flushed ok) s =
    (if back_task s = Writing
     then Some (if ok \<and> \<not> should_close s then s\<lparr>back_task := Reading\<rparr> else driver_end s) else None)"

fun h2_run :: "h2_event list \<Rightarrow> Http2Session \<Rightarrow> Http2Session option" where
  "h2_run [] s = Some s"
| "h2_run (e # es) s = Option.bind (h2_step e s) (h2_run es)"

interpretation h2_events: event_system h2_step h2_run
  by unfold_locales simp_all

section \<open>Streams do not interfere\<close>

definition stream_view :: "int \<Rightarrow> Http2Session \<Rightarrow> (Http2StreamContext \<times> h2_task) option \<times> bool \<times> bool \<times> h2_driver" where
  "stream_view i s = (tasks s i, i \<in> streams s, should_close s, back_task s)"

fun project :: "int \<Rightarrow> h2_event \<Rightarrow> h2_event list" where
  "project i (Submitted j) = [Submitted (if j = i then j else -1)]"
| "project i (Flushed j ok) = (if j = i then [Flushed j ok] else [])"
| "project i (Resume_request j) = (if j = i then [Resume_request j] else [])"
| "project i (Call_body_full j) = (if j = i then [Call_body_full j] else [])"
| "project i (Resume_body_full j) = (if j = i then [Resume_body_full j] else [])"
| "project i (Received cbs ok) = [Received (filter (\<lambda>cb. callback_stream cb = i) cbs) ok]"
| "project i e = [e]"

lemmas session_defs = update_task_def driver_end_def ensure_background_driver_def request_submitted_def erase_stream_def set_task_def
  request_flushed_def request_resumed_def h2_body_full_def

lemma callback_view_other: "callback_stream cb \<noteq> i \<Longrightarrow> stream_view i (session_callback cb s) = stream_view i s"
  by (simp add: stream_view_def session_callback_def update_task_def)

lemma callback_view_same:
  "stream_view i s = stream_view i t \<Longrightarrow> callback_stream cb = i \<Longrightarrow> stream_view i (session_callback cb s) = stream_view i (session_callback cb t)"
  by (auto simp: stream_view_def session_callback_def update_task_def)

lemma callbacks_view:
  "stream_view i s = stream_view i t \<Longrightarrow>
    stream_view i (fold session_callback cbs s) = stream_view i (fold session_callback (filter (\<lambda>cb. callback_stream cb = i) cbs) t)"
proof (induction cbs arbitrary: s t)
  case (Cons cb cbs)
  show ?case
  proof (cases "callback_stream cb = i")
    case True
    then show ?thesis using Cons.IH [OF callback_view_same [OF Cons.prems True]] by simp
  next
    case False
    then show ?thesis using Cons.IH [of "session_callback cb s" t] callback_view_other [OF False, of s] Cons.prems by simp
  qed
qed simp

lemma driver_end_view: "stream_view i s = stream_view i t \<Longrightarrow> stream_view i (driver_end s) = stream_view i (driver_end t)"
  by (simp add: stream_view_def driver_end_def)

lemma submitted_view:
  "stream_view i s = stream_view i t \<Longrightarrow>
    stream_view i (request_submitted j s) = stream_view i (request_submitted (if j = i then j else -1) t)"
  by (auto simp: stream_view_def session_defs Let_def)

lemma step_other_view:
  assumes "h2_step e s = Some s'" "project i e = []"
  shows "stream_view i s' = stream_view i s"
  using assms
  by (cases e) (auto simp: stream_view_def session_defs split: option.splits h2_task.splits if_splits)

lemma stream_viewD:
  assumes "stream_view i s = stream_view i t"
  shows "tasks t i = tasks s i" "i \<in> streams t \<longleftrightarrow> i \<in> streams s" "should_close t = should_close s" "back_task t = back_task s"
  using assms by (simp_all add: stream_view_def)

lemma task_step_view:
  assumes v: "stream_view i s = stream_view i t" and i: "tasks s i = Some (c, tk)"
  shows "stream_view i (request_flushed i ok c s) = stream_view i (request_flushed i ok c t)"
    "stream_view i (request_resumed i ok c s) = stream_view i (request_resumed i ok c t)"
    "stream_view i (h2_body_full i c s) = stream_view i (h2_body_full i c t)"
    "stream_view i (set_task i c tk' (erase_stream i s)) = stream_view i (set_task i c tk' (erase_stream i t))"
  using stream_viewD [OF v] by (simp_all add: stream_view_def session_defs)

lemma back_task_view:
  "stream_view i s = stream_view i t \<Longrightarrow> stream_view i (s\<lparr>back_task := d\<rparr>) = stream_view i (t\<lparr>back_task := d\<rparr>)"
  "stream_view i s = stream_view i t \<Longrightarrow> stream_view i (s\<lparr>should_close := b\<rparr>) = stream_view i (t\<lparr>should_close := b\<rparr>)"
  by (simp_all add: stream_view_def)

text \<open>The enabled events of a request and of the driver, with their effects.\<close>

lemma task_stepE:
  assumes "h2_step e s = Some s'" "e \<in> {Flushed i ok, Resume_request i, Call_body_full i, Resume_body_full i}"
  obtains c where "e = Flushed i ok" "tasks s i = Some (c, Flushing)" "s' = request_flushed i ok c s"
  | c success where "e = Resume_request i" "tasks s i = Some (c, Headers_posted success)" "s' = request_resumed i success c s"
  | c tk where "e = Call_body_full i" "tasks s i = Some (c, tk)" "(\<exists>h. tk = Responded h) \<or> (\<exists>r. tk = Body_done r)" "s' = h2_body_full i c s"
  | c bs where "e = Resume_body_full i" "tasks s i = Some (c, Body_posted bs)" "s' = set_task i c (Body_done (Inr bs)) (erase_stream i s)"
  using assms by (cases "tasks s i") (auto split: h2_task.splits)

lemma driver_stepE:
  assumes "h2_step e s = Some s'" "e \<in> {Received cbs ok, Read_failed, Driver_flushed ok}"
  obtains "e = Received cbs ok" "back_task s = Reading" "ok" "s' = (fold session_callback cbs s)\<lparr>back_task := Writing\<rparr>"
  | "e = Received cbs ok" "back_task s = Reading" "\<not> ok" "s' = driver_end (fold session_callback cbs s)"
  | "e = Read_failed" "back_task s = Reading" "s' = driver_end s"
  | "e = Driver_flushed ok" "back_task s = Writing" "ok" "\<not> should_close s" "s' = s\<lparr>back_task := Reading\<rparr>"
  | "e = Driver_flushed ok" "back_task s = Writing" "\<not> ok \<or> should_close s" "s' = driver_end s"
  using assms by (cases ok) (auto simp: Let_def split: if_splits)

lemma step_same_view_task:
  assumes "h2_step e s = Some s'" "e \<in> {Flushed i ok, Resume_request i, Call_body_full i, Resume_body_full i}"
    and v: "stream_view i s = stream_view i t"
  shows "\<exists>t'. h2_step e t = Some t' \<and> stream_view i s' = stream_view i t'"
  using assms(1,2)
proof (cases rule: task_stepE)
  case (1 c)
  then show ?thesis using stream_viewD(1) [OF v] task_step_view(1) [OF v 1(2)] by simp
next
  case (2 c success)
  then show ?thesis using stream_viewD(1) [OF v] task_step_view(2) [OF v 2(2)] by simp
next
  case (3 c tk)
  then show ?thesis using stream_viewD(1) [OF v] task_step_view(3) [OF v 3(2)] by auto
next
  case (4 c bs)
  then show ?thesis using stream_viewD(1) [OF v] task_step_view(4) [OF v 4(2)] by simp
qed

lemma step_same_view_driver:
  assumes "h2_step e s = Some s'" "e \<in> {Received cbs ok, Read_failed, Driver_flushed ok}" "project i e = [e']"
    and v: "stream_view i s = stream_view i t"
  shows "\<exists>t'. h2_step e' t = Some t' \<and> stream_view i s' = stream_view i t'"
proof -
  note w = callbacks_view [OF v, of cbs]
  note views = stream_viewD [OF v] back_task_view(1) [OF w] back_task_view(1) [OF v] driver_end_view [OF w] driver_end_view [OF v]
  show ?thesis using assms(1,2)
  proof (cases rule: driver_stepE)
    case 1
    then show ?thesis using assms(3) views(4,5) by (auto simp: Let_def)
  next
    case 2
    then show ?thesis using assms(3) views(4,7) by (auto simp: Let_def)
  next
    case 3
    then show ?thesis using assms(3) views(4,8) by auto
  next
    case 4
    then show ?thesis using assms(3) views(3,4,6) by auto
  next
    case 5
    then show ?thesis using assms(3) views(3,4,8) by auto
  qed
qed

lemma step_same_view:
  assumes s: "h2_step e s = Some s'" "project i e = [e']" and v: "stream_view i s = stream_view i t"
  shows "\<exists>t'. h2_step e' t = Some t' \<and> stream_view i s' = stream_view i t'"
proof (cases e)
  case (Submitted j)
  then have "e' = Submitted (if j = i then j else -1)" "s' = request_submitted j s" using s by (auto split: if_splits)
  moreover have "\<not> (0 \<le> (if j = i then j else -1) \<and> tasks t (if j = i then j else -1) \<noteq> None)"
    using s stream_viewD(1) [OF v] Submitted by (auto split: if_splits)
  ultimately show ?thesis using submitted_view [OF v, of j] by (simp only: h2_step.simps if_False) blast
next
  case Close
  then show ?thesis using s back_task_view(2) [OF v] by auto
next
  case (Received cbs ok)
  then show ?thesis using step_same_view_driver [OF s(1) _ s(2) v] by blast
next
  case Read_failed
  then show ?thesis using step_same_view_driver [OF s(1) _ s(2) v] by blast
next
  case (Driver_flushed ok)
  then show ?thesis using step_same_view_driver [OF s(1) _ s(2) v] by blast
next
  case (Flushed j ok)
  then show ?thesis using s(2) step_same_view_task [OF s(1) _ v, of ok] by (auto split: if_splits)
qed (use s(2) step_same_view_task [OF s(1) _ v] in \<open>auto split: if_splits\<close>)

lemma project_cases: "project i e = [] \<or> (\<exists>e'. project i e = [e'])"
  by (cases e) auto

text \<open>C6: Streams do not interfere. Whatever the requests on the other streams do and receive, in whatever order, one stream and its
  request end as in a session that only ever had this stream: with its own events, and those of the driver without the callbacks of
  other streams.\<close>

theorem streams_isolated:
  "h2_run es h2_new = Some s \<Longrightarrow>
    \<exists>t. h2_run (concat (map (project i) es)) h2_new = Some t \<and> stream_view i t = stream_view i s"
proof -
  have "stream_view i s0 = stream_view i t0 \<Longrightarrow> h2_run es s0 = Some s \<Longrightarrow>
    \<exists>t. h2_run (concat (map (project i) es)) t0 = Some t \<and> stream_view i t = stream_view i s" for s0 t0
  proof (induction es arbitrary: s0 t0)
    case (Cons e es)
    obtain s1 where s1: "h2_step e s0 = Some s1" "h2_run es s1 = Some s" using Cons.prems(2) by (auto split: bind_splits)
    show ?case
    proof (cases "project i e")
      case Nil
      then show ?thesis using Cons.IH [OF _ s1(2), of t0] step_other_view [OF s1(1) Nil] Cons.prems(1) by simp
    next
      case (Cons e' r)
      then have p: "project i e = [e']" using project_cases [of i e] by auto
      obtain t1 where t1: "h2_step e' t0 = Some t1" "stream_view i s1 = stream_view i t1"
        using step_same_view [OF s1(1) p Cons.prems(1)] by blast
      show ?thesis using Cons.IH [OF t1(2) s1(2)] t1(1) p by simp
    qed
  qed simp
  then show "h2_run es h2_new = Some s \<Longrightarrow> ?thesis" by blast
qed


section \<open>Bodies\<close>

fun callback_data :: "int \<Rightarrow> h2_callback \<Rightarrow> u8 list" where
  "callback_data i (On_data_chunk_recv j bs) = (if j = i then bs else [])"
| "callback_data i _ = []"

fun closes :: "int \<Rightarrow> h2_callback \<Rightarrow> bool" where
  "closes i (On_stream_close j _) = (j = i)"
| "closes i _ = False"

fun event_callbacks :: "h2_event \<Rightarrow> h2_callback list" where
  "event_callbacks (Received cbs _) = cbs"
| "event_callbacks _ = []"

definition callbacks :: "h2_event list \<Rightarrow> h2_callback list" where
  "callbacks es = concat (map event_callbacks es)"

text \<open>The bytes that came on a stream since its request was submitted.\<close>

definition received :: "int \<Rightarrow> h2_event list \<Rightarrow> u8 list" where
  "received i es = concat (map (callback_data i) (callbacks (dropWhile (\<lambda>e. e \<noteq> Submitted i) es)))"

text \<open>nghttp2 gives no data on a stream after it has told that the stream is closed.\<close>

fun no_data_after_close :: "int \<Rightarrow> h2_callback list \<Rightarrow> bool" where
  "no_data_after_close i [] \<longleftrightarrow> True"
| "no_data_after_close i (cb # cbs) \<longleftrightarrow> (closes i cb \<longrightarrow> concat (map (callback_data i) cbs) = []) \<and> no_data_after_close i cbs"

lemma no_data_after_close_append:
  "no_data_after_close i (xs @ ys) \<longleftrightarrow> no_data_after_close i xs \<and> no_data_after_close i ys \<and>
    (list_ex (closes i) xs \<longrightarrow> concat (map (callback_data i) ys) = [])"
  by (induction xs) auto

text \<open>
  What holds of a context and its request after the bytes \<open>d\<close>, where \<open>over\<close> tells that no more can come. The request waits exactly
  when its waker is set.
\<close>

fun body_delivered :: "u8 list \<Rightarrow> bool \<Rightarrow> Http2StreamContext \<Rightarrow> h2_task \<Rightarrow> bool" where
  "body_delivered d over c (Body_posted bs) = (bs = d \<and> over)"
| "body_delivered d over c (Body_done r) = (case r of Inr bs \<Rightarrow> bs = d \<and> over | Inl _ \<Rightarrow> True)"
| "body_delivered d over c (Request_failed _) = True"
| "body_delivered d over c _ = (ctx_body_buffer c = d)"

fun pending :: "h2_task \<Rightarrow> bool" where
  "pending (Body_posted _) = False"
| "pending (Body_done _) = False"
| "pending (Request_failed _) = False"
| "pending _ = True"

definition task_inv :: "u8 list \<Rightarrow> bool \<Rightarrow> Http2StreamContext \<times> h2_task \<Rightarrow> bool" where
  "task_inv d over = (\<lambda>(c, t). (header_waker c \<longleftrightarrow> t = Awaiting_headers) \<and> (body_waker c \<longleftrightarrow> t = Awaiting_body) \<and>
     (stream_closed c \<longrightarrow> over) \<and> body_delivered d over c t)"

definition stream_inv :: "int \<Rightarrow> bool \<Rightarrow> u8 list \<Rightarrow> bool \<Rightarrow> Http2Session \<Rightarrow> bool" where
  "stream_inv i submitted d closed s \<longleftrightarrow> (tasks s i = None \<longleftrightarrow> \<not> (submitted \<and> 0 \<le> i)) \<and> (i \<in> streams s \<longrightarrow> tasks s i \<noteq> None) \<and>
    (case tasks s i of None \<Rightarrow> True | Some ct \<Rightarrow> task_inv d (closed \<or> back_task s = Ended) ct \<and>
       (pending (snd ct) \<longrightarrow> back_task s \<noteq> Ended \<longrightarrow> i \<in> streams s) \<and> (\<forall>r. snd ct = Body_done r \<longrightarrow> i \<notin> streams s))"

lemma wake_header_inv: "task_inv d over ct \<Longrightarrow> task_inv d over (wake_header ok ct)"
  by (cases ct) (auto simp: task_inv_def wake_header_def)

lemma wake_body_inv: "task_inv d True ct \<Longrightarrow> task_inv d True (wake_body ct)"
  by (cases ct) (auto simp: task_inv_def wake_body_def)

lemma closed_inv: "task_inv d over (c, t) \<Longrightarrow> task_inv d True (c\<lparr>header_complete := h, stream_closed := True\<rparr>, t)"
  by (cases t) (auto simp: task_inv_def split: sum.splits)

lemma end_context_inv: "task_inv d over ct \<Longrightarrow> task_inv d True (end_context ct)"
  using closed_inv [of d over "fst ct" "snd ct" "header_complete (fst ct)"]
  by (cases ct) (auto simp: end_context_def intro!: wake_body_inv wake_header_inv)

lemma body_delivered_extend: "body_delivered d over c t \<Longrightarrow> over \<longrightarrow> bs = [] \<Longrightarrow>
    body_delivered (d @ bs) over (c\<lparr>ctx_body_buffer := ctx_body_buffer c @ bs\<rparr>) t"
  by (cases t) (auto split: sum.splits)

lemma callback_context_inv:
  assumes "task_inv d over ct" "over \<longrightarrow> callback_data i cb = []" "callback_stream cb = i"
  shows "task_inv (d @ callback_data i cb) (over \<or> closes i cb) (callback_context cb ct)"
proof (cases ct)
  case (Pair c t)
  show ?thesis
  proof (cases cb)
    case (On_header kind j key val)
    have "header_waker (add_header key val c) = header_waker c" "body_waker (add_header key val c) = body_waker c"
      "stream_closed (add_header key val c) = stream_closed c" "ctx_body_buffer (add_header key val c) = ctx_body_buffer c"
      by (auto simp: add_header_def split: from_chars_result.splits)
    then show ?thesis using assms On_header Pair by (cases t) (auto simp: task_inv_def)
  next
    case (On_data_chunk_recv j bs)
    then show ?thesis using assms Pair body_delivered_extend [of d over c t bs] by (auto simp: task_inv_def)
  next
    case (On_stream_close j code)
    then show ?thesis using assms(3) Pair closed_inv [OF assms(1) [unfolded Pair]] by (simp add: wake_body_inv wake_header_inv)
  next
    case (On_frame_recv kind j)
    have "task_inv d over (c\<lparr>header_complete := True\<rparr>, t)" using assms(1) Pair by (cases t) (auto simp: task_inv_def)
    then show ?thesis using assms(1) Pair On_frame_recv by (simp add: wake_header_inv)
  qed
qed

lemma not_pending_inv:
  "task_inv d over (c, t) \<Longrightarrow> \<not> pending t \<Longrightarrow> over \<longrightarrow> bs = [] \<Longrightarrow> over \<longrightarrow> over' \<Longrightarrow> task_inv (d @ bs) over' (c, t)"
  by (cases t) (auto simp: task_inv_def split: sum.splits)

lemma callback_context_done: "snd (callback_context cb ct) = Body_done r \<Longrightarrow> snd ct = Body_done r"
  by (cases ct; cases cb) (auto simp: wake_header_def wake_body_def split: if_splits)

lemma other_callback: "callback_stream cb \<noteq> i \<Longrightarrow> callback_data i cb = [] \<and> \<not> closes i cb"
  by (cases cb) auto

lemma session_callback_inv:
  assumes inv: "stream_inv i submitted d closed s" and r: "back_task s = Reading" and d: "closed \<longrightarrow> callback_data i cb = []"
  shows "stream_inv i submitted (d @ callback_data i cb) (closed \<or> closes i cb) (session_callback cb s)"
proof (cases "callback_stream cb = i \<and> tasks s i \<noteq> None")
  case False
  then show ?thesis using inv other_callback [of cb i]
    by (auto simp: stream_inv_def session_callback_def update_task_def)
next
  case True
  then obtain c t where t: "tasks s i = Some (c, t)" by (cases "tasks s i") auto
  have ct: "task_inv d closed (c, t)" using inv r t by (simp add: stream_inv_def)
  show ?thesis
  proof (cases "i \<in> streams s")
    case True
    then show ?thesis using inv r t callback_context_inv [OF ct d] callback_context_done [of cb "(c, t)"] \<open>callback_stream cb = i \<and> _\<close>
      by (auto simp: stream_inv_def session_callback_def update_task_def)
  next
    case False
    then have "\<not> pending t" using inv r t by (auto simp: stream_inv_def)
    from not_pending_inv [OF ct this d, of "closed \<or> closes i cb"] show ?thesis
      using inv r t False \<open>callback_stream cb = i \<and> _\<close> by (simp add: stream_inv_def session_callback_def)
  qed
qed

lemma session_callback_driver: "back_task (session_callback cb s) = back_task s"
  by (simp add: session_callback_def update_task_def)

lemma callbacks_inv:
  "stream_inv i submitted d closed s \<Longrightarrow> back_task s = Reading \<Longrightarrow> no_data_after_close i cbs \<Longrightarrow>
    closed \<longrightarrow> concat (map (callback_data i) cbs) = [] \<Longrightarrow>
    stream_inv i submitted (d @ concat (map (callback_data i) cbs)) (closed \<or> list_ex (closes i) cbs) (fold session_callback cbs s) \<and>
    back_task (fold session_callback cbs s) = Reading"
proof (induction cbs arbitrary: d closed s)
  case (Cons cb cbs)
  have "stream_inv i submitted (d @ callback_data i cb) (closed \<or> closes i cb) (session_callback cb s)"
    using session_callback_inv [OF Cons.prems(1,2)] Cons.prems(4) by auto
  from Cons.IH [OF this] show ?case
    using Cons.prems by (auto simp: session_callback_driver disj_assoc)
qed simp

lemma driver_end_inv: "stream_inv i submitted d closed s \<Longrightarrow> stream_inv i submitted d closed (driver_end s)"
proof (cases "tasks s i")
  case (Some ct)
  assume inv: "stream_inv i submitted d closed s"
  have ct: "task_inv d (closed \<or> back_task s = Ended) ct" using inv Some by (simp add: stream_inv_def)
  show ?thesis
  proof (cases "i \<in> streams s")
    case True
    then show ?thesis using inv Some end_context_inv [OF ct] by (auto simp: stream_inv_def driver_end_def)
  next
    case False
    have "task_inv d True ct"
    proof (cases "back_task s = Ended")
      case True
      then show ?thesis using ct by simp
    next
      case ne: False
      then have "\<not> pending (snd ct)" using inv Some False by (simp add: stream_inv_def)
      then show ?thesis using not_pending_inv [of d _ "fst ct" "snd ct" "[]" True] ct by simp
    qed
    then show ?thesis using inv Some False by (auto simp: stream_inv_def driver_end_def)
  qed
qed (auto simp: stream_inv_def driver_end_def)

lemma stream_inv_view: "stream_view i s' = stream_view i s \<Longrightarrow> stream_inv i submitted d closed s' = stream_inv i submitted d closed s"
  by (cases "tasks s i") (auto simp: stream_inv_def stream_view_def)

lemma ensure_inv: "stream_inv i submitted d closed s \<Longrightarrow> stream_inv i submitted d closed (ensure_background_driver s)"
  using driver_end_inv [of i submitted d closed s]
  by (auto simp: ensure_background_driver_def stream_inv_def split: option.splits)

lemma submitted_inv:
  assumes "stream_inv i submitted d closed s" "\<not> (0 \<le> j \<and> tasks s j \<noteq> None)"
  shows "stream_inv i (submitted \<or> j = i) (if submitted then d else []) closed (request_submitted j s)"
proof (cases "j = i \<and> 0 \<le> i")
  case True
  then show ?thesis using assms
    by (auto simp: stream_inv_def request_submitted_def task_inv_def new_context_def Let_def)
next
  case False
  have e: "stream_inv i submitted (if submitted then d else []) closed (ensure_background_driver s)"
    using ensure_inv [OF assms(1)] by (auto simp: stream_inv_def)
  have "stream_view i (request_submitted j s) = stream_view i (ensure_background_driver s)"
    using False by (auto simp: request_submitted_def stream_view_def Let_def)
  then have "stream_inv i submitted (if submitted then d else []) closed (request_submitted j s)"
    using e stream_inv_view by blast
  then show ?thesis using False by (auto simp: stream_inv_def)
qed

lemma task_event_inv:
  assumes "h2_step e s = Some s'" "e \<in> {Flushed i ok, Resume_request i, Call_body_full i, Resume_body_full i}"
    and inv: "stream_inv i submitted d closed s"
  shows "stream_inv i submitted d closed s'"
  using assms(1,2)
proof (cases rule: task_stepE)
  case (1 c)
  then show ?thesis using inv by (auto simp: stream_inv_def request_flushed_def set_task_def erase_stream_def task_inv_def)
next
  case (2 c success)
  then show ?thesis using inv by (auto simp: stream_inv_def request_resumed_def set_task_def erase_stream_def task_inv_def)
next
  case (3 c tk)
  then show ?thesis using inv by (auto simp: stream_inv_def h2_body_full_def set_task_def erase_stream_def task_inv_def)
next
  case (4 c bs)
  then show ?thesis using inv by (auto simp: stream_inv_def set_task_def erase_stream_def task_inv_def)
qed

lemma driver_event_inv:
  assumes s: "h2_step e s = Some s'" "e \<in> {Received xs ok, Read_failed, Driver_flushed ok}"
    and inv: "stream_inv i submitted d closed s"
    and cbs: "no_data_after_close i (event_callbacks e)" "closed \<longrightarrow> concat (map (callback_data i) (event_callbacks e)) = []"
  shows "stream_inv i submitted (d @ concat (map (callback_data i) (event_callbacks e))) (closed \<or> list_ex (closes i) (event_callbacks e)) s'"
  using s
proof (cases rule: driver_stepE)
  case 1
  have "stream_inv i submitted x y (t\<lparr>back_task := Writing\<rparr>)" if "stream_inv i submitted x y t" "back_task t = Reading" for x y t
    using that by (auto simp: stream_inv_def split: option.splits)
  then show ?thesis using 1 callbacks_inv [OF inv 1(2), of xs] cbs by simp
next
  case 2
  then show ?thesis using driver_end_inv callbacks_inv [OF inv 2(2), of xs] cbs by simp
next
  case 3
  then show ?thesis using driver_end_inv [OF inv] by simp
next
  case 4
  then show ?thesis using inv by (auto simp: stream_inv_def split: option.splits)
next
  case 5
  then show ?thesis using driver_end_inv [OF inv] by simp
qed

lemma event_cases:
  obtains j where "e = Submitted j"
  | "project i e = []"
  | ok where "e \<in> {Flushed i ok, Resume_request i, Call_body_full i, Resume_body_full i}"
  | "e = Close"
  | xs ok where "e \<in> {Received xs ok, Read_failed, Driver_flushed ok}"
proof (cases e)
  case (Flushed j ok)
  then show ?thesis using that(2,3) by (cases "j = i") auto
next
  case (Resume_request j)
  then show ?thesis using that(2,3) by (cases "j = i") auto
next
  case (Call_body_full j)
  then show ?thesis using that(2,3) by (cases "j = i") auto
next
  case (Resume_body_full j)
  then show ?thesis using that(2,3) by (cases "j = i") auto
qed (use that(1,4,5) in auto)

lemma step_inv:
  assumes s: "h2_step e s = Some s'" and inv: "stream_inv i submitted d closed s"
    and cbs: "no_data_after_close i (event_callbacks e)" "closed \<longrightarrow> concat (map (callback_data i) (event_callbacks e)) = []"
  shows "stream_inv i (submitted \<or> e = Submitted i) (if submitted then d @ concat (map (callback_data i) (event_callbacks e)) else [])
    (closed \<or> list_ex (closes i) (event_callbacks e)) s'"
proof -
  have nosub: "stream_inv i submitted (if submitted then x else []) y t" if "stream_inv i submitted x y t" for x y t
    using that by (auto simp: stream_inv_def)
  show ?thesis
  proof (cases rule: event_cases [where e = e and i = i])
    case (1 j)
    then have j: "\<not> (0 \<le> j \<and> tasks s j \<noteq> None)" "s' = request_submitted j s" using s by (simp_all split: if_splits)
    then show ?thesis using 1 submitted_inv [OF inv j(1)] by (cases submitted) simp_all
  next
    case 2
    then have "event_callbacks e = []" "e \<noteq> Submitted i" by (cases e; simp)+
    then show ?thesis using nosub [OF inv] stream_inv_view [OF step_other_view [OF s 2]] by (cases submitted) simp_all
  next
    case (3 ok)
    then have "event_callbacks e = []" "e \<noteq> Submitted i" by auto
    then show ?thesis using nosub [OF task_event_inv [OF s 3 inv]] by (cases submitted) simp_all
  next
    case 4
    have "stream_inv i submitted d closed (s\<lparr>should_close := True\<rparr>)"
      using inv by (cases "tasks s i") (simp_all add: stream_inv_def)
    from nosub [OF this] show ?thesis using s 4 by (cases submitted) simp_all
  next
    case (5 xs ok)
    then have "e \<noteq> Submitted i" by auto
    then show ?thesis using nosub [OF driver_event_inv [OF s 5 inv cbs]] by (cases submitted) simp_all
  qed
qed

lemma received_snoc:
  "received i (es @ [e]) = (if Submitted i \<in> set es then received i es @ concat (map (callback_data i) (event_callbacks e)) else [])"
proof (cases "Submitted i \<in> set es")
  case True
  then show ?thesis by (simp add: received_def callbacks_def dropWhile_append1 [of "Submitted i"])
next
  case False
  then have "dropWhile (\<lambda>e. e \<noteq> Submitted i) (es @ [e]) = dropWhile (\<lambda>e. e \<noteq> Submitted i) [e]"
    by (intro dropWhile_append2) auto
  then show ?thesis using False by (auto simp: received_def callbacks_def)
qed

lemma run_inv:
  assumes "h2_run es h2_new = Some s" "no_data_after_close i (callbacks es)"
  shows "stream_inv i (Submitted i \<in> set es) (received i es) (list_ex (closes i) (callbacks es)) s"
proof -
  have "no_data_after_close i (callbacks es) \<longrightarrow>
    stream_inv i (Submitted i \<in> set es) (received i es) (list_ex (closes i) (callbacks es)) s"
    using assms(1)
  proof (rule h2_events.run_history, goal_cases)
    case 1
    then show ?case by (auto simp: stream_inv_def h2_new_def received_def callbacks_def)
  next
    case (2 es e u v)
    have c: "callbacks (es @ [e]) = callbacks es @ event_callbacks e" by (simp add: callbacks_def)
    show ?case
    proof
      assume "no_data_after_close i (callbacks (es @ [e]))"
      then have n: "no_data_after_close i (callbacks es)" "no_data_after_close i (event_callbacks e)"
        "list_ex (closes i) (callbacks es) \<longrightarrow> concat (map (callback_data i) (event_callbacks e)) = []"
        by (simp_all add: c no_data_after_close_append)
      show "stream_inv i (Submitted i \<in> set (es @ [e])) (received i (es @ [e])) (list_ex (closes i) (callbacks (es @ [e]))) v"
        using step_inv [OF 2(2) mp [OF 2(3) n(1)] n(2, 3)] by (auto simp: received_snoc c eq_commute [of "Submitted i" e])
    qed
  qed
  then show ?thesis using assms(2) by blast
qed

text \<open>C7: A body that \<open>body_full\<close> gives has all bytes that came on the stream of the response, in order, and no byte of another stream;
  and it is only given once nothing more can come, because nghttp2 has closed the stream or the driver has ended. How the stream was
  closed makes no difference: a body cut short by a reset or by the end of the connection is given as well.\<close>

theorem h2_body_whole:
  assumes "h2_run es h2_new = Some s" "no_data_after_close i (callbacks es)" "tasks s i = Some (c, Body_done (Inr bs))"
  shows "bs = received i es \<and> (list_ex (closes i) (callbacks es) \<or> back_task s = Ended)"
  using run_inv [OF assms(1,2)] assms(3) by (simp add: stream_inv_def task_inv_def)

text \<open>Two requests, with their data interleaved.\<close>

definition two_streams :: "h2_event list" where
  "two_streams = [Submitted 1, Submitted 3, Flushed 3 True, Flushed 1 True,
     Received [On_header Headers_response 1 '':status'' ''200'', On_frame_recv Headers_response 1, On_data_chunk_recv 1 [1],
       On_header Headers_response 3 '':status'' ''404'', On_frame_recv Headers_response 3, On_data_chunk_recv 3 [7]] True,
     Driver_flushed True, Resume_request 1, Call_body_full 1, Resume_request 3,
     Received [On_data_chunk_recv 3 [8], On_data_chunk_recv 1 [2], On_stream_close 1 0] True, Resume_body_full 1]"

lemma two_streams_run:
  "map_option (\<lambda>s. map_option snd (tasks s 1)) (h2_run two_streams h2_new) = Some (Some (Body_done (Inr [1, 2])))"
  by code_simp

theorem h2_body_whole_witness:
  "\<exists>s c. h2_run two_streams h2_new = Some s \<and> tasks s 1 = Some (c, Body_done (Inr [1, 2])) \<and> [1, 2] = received 1 two_streams \<and>
    (list_ex (closes 1) (callbacks two_streams) \<or> back_task s = Ended)"
proof -
  obtain s c where s: "h2_run two_streams h2_new = Some s" "tasks s 1 = Some (c, Body_done (Inr [1, 2]))"
    using two_streams_run by auto
  have "no_data_after_close 1 (callbacks two_streams)" by (simp add: two_streams_def callbacks_def)
  from h2_body_whole [OF s(1) this s(2)] s show ?thesis by blast
qed

theorem streams_isolated_witness:
  "\<exists>s t. h2_run two_streams h2_new = Some s \<and> h2_run (concat (map (project 1) two_streams)) h2_new = Some t \<and>
    stream_view 1 t = stream_view 1 s"
proof -
  obtain s where s: "h2_run two_streams h2_new = Some s" using two_streams_run by auto
  from streams_isolated [OF s, of 1] s show ?thesis by blast
qed

section \<open>Waiting requests\<close>

lemma driver_end_wakes_inv:
  assumes inv: "stream_inv i submitted d closed s" and e: "back_task s \<noteq> Ended" and t: "tasks (driver_end s) i = Some (c, t)"
  shows "t \<noteq> Awaiting_headers \<and> t \<noteq> Awaiting_body"
proof (cases "i \<in> streams s")
  case True
  then obtain c0 t0 where t0: "tasks s i = Some (c0, t0)" "end_context (c0, t0) = (c, t)"
    using t by (auto simp: driver_end_def)
  then have "header_waker c0 \<longleftrightarrow> t0 = Awaiting_headers" "body_waker c0 \<longleftrightarrow> t0 = Awaiting_body"
    using inv by (simp_all add: stream_inv_def task_inv_def)
  then show ?thesis using t0(2) by (auto simp: end_context_def wake_header_def wake_body_def split: if_splits)
next
  case False
  then have "tasks s i = Some (c, t)" using t by (simp add: driver_end_def)
  then have "\<not> pending t" using inv e False by (auto simp: stream_inv_def)
  then show ?thesis by auto
qed


text \<open>One request that waits when the connection ends.\<close>

lemma waiting_run:
  "h2_run [Submitted 1, Flushed 1 True] h2_new =
    Some \<lparr>tasks = [1 \<mapsto> ((new_context 1)\<lparr>header_waker := True\<rparr>, Awaiting_headers)], streams = {1}, should_close = False, back_task = Reading\<rparr>"
  by (simp add: h2_new_def session_defs Let_def)


fun no_response :: "h2_task \<Rightarrow> bool" where
  "no_response Flushing = True"
| "no_response Awaiting_headers = True"
| "no_response (Headers_posted ok) = (\<not> ok)"
| "no_response (Request_failed _) = True"
| "no_response _ = False"

text \<open>What holds of a context and its request, and is kept by what can happen to them, holds after every event.\<close>

definition task_holds :: "(Http2StreamContext \<times> h2_task \<Rightarrow> bool) \<Rightarrow> int \<Rightarrow> Http2Session \<Rightarrow> bool" where
  "task_holds P i s \<longleftrightarrow> (case tasks s i of None \<Rightarrow> False | Some ct \<Rightarrow> P ct)"

lemma task_holds_callbacks:
  "task_holds P i s \<Longrightarrow> (\<And>cb ct. cb \<in> set cbs \<Longrightarrow> callback_stream cb = i \<Longrightarrow> P ct \<Longrightarrow> P (callback_context cb ct)) \<Longrightarrow>
    task_holds P i (fold session_callback cbs s)"
proof (induction cbs arbitrary: s)
  case (Cons cb cbs)
  have "task_holds P i (session_callback cb s)"
    using Cons.prems by (auto simp: task_holds_def session_callback_def update_task_def split: option.splits)
  then show ?case using Cons by simp
qed simp

lemma task_holds_end: "task_holds P i s \<Longrightarrow> (\<And>ct. P ct \<Longrightarrow> P (end_context ct)) \<Longrightarrow> task_holds P i (driver_end s)"
  by (auto simp: task_holds_def driver_end_def split: option.splits)

lemma task_holds_step:
  assumes s: "h2_step e s = Some s'" "task_holds P i s"
    and cb: "\<And>cb ct. cb \<in> set (event_callbacks e) \<Longrightarrow> callback_stream cb = i \<Longrightarrow> P ct \<Longrightarrow> P (callback_context cb ct)"
    and en: "\<And>ct. P ct \<Longrightarrow> P (end_context ct)"
    and tk: "\<And>ok. e \<in> {Flushed i ok, Resume_request i, Call_body_full i, Resume_body_full i} \<Longrightarrow> task_holds P i s'"
  shows "task_holds P i s'"
proof (cases rule: event_cases [where e = e and i = i])
  case (1 j)
  then have j: "s' = request_submitted j s" "\<not> (0 \<le> j \<and> tasks s j \<noteq> None)" using s(1) by (simp_all split: if_splits)
  have "task_holds P i (ensure_background_driver s)"
    using s(2) task_holds_end [OF s(2) en] by (auto simp: ensure_background_driver_def task_holds_def)
  moreover have "0 \<le> j \<Longrightarrow> j \<noteq> i" using j(2) s(2) by (auto simp: task_holds_def split: option.splits)
  ultimately show ?thesis using j(1) by (auto simp: request_submitted_def task_holds_def Let_def)
next
  case 2
  show ?thesis using step_other_view [OF s(1) 2] s(2) by (simp add: task_holds_def stream_view_def)
next
  case 4
  then show ?thesis using s(1,2) by (auto simp: task_holds_def)
next
  case (5 xs ok)
  from s(1) 5 show ?thesis
  proof (cases rule: driver_stepE)
    case 1
    then show ?thesis using task_holds_callbacks [OF s(2), of xs] cb by (simp add: task_holds_def)
  next
    case 2
    then show ?thesis using task_holds_end [OF task_holds_callbacks [OF s(2), of xs] en] cb by simp
  next
    case 4
    then show ?thesis using s(2) by (simp add: task_holds_def)
  qed (use task_holds_end [OF s(2) en] in simp_all)
qed (rule tk)

definition still_flushing :: "Http2StreamContext \<times> h2_task \<Rightarrow> bool" where
  "still_flushing = (\<lambda>(c, t). \<not> header_waker c \<and> \<not> body_waker c \<and> t = Flushing)"

definition unanswered :: "Http2StreamContext \<times> h2_task \<Rightarrow> bool" where
  "unanswered = (\<lambda>(c, t). \<not> body_waker c \<and> no_response t)"

lemma flushing_callback: "still_flushing ct \<Longrightarrow> still_flushing (callback_context cb ct)"
  by (cases ct; cases cb) (auto simp: still_flushing_def wake_header_def wake_body_def add_header_def split: from_chars_result.splits)

lemma unanswered_callback: "unanswered ct \<Longrightarrow> cb \<noteq> On_frame_recv Headers_response i \<Longrightarrow> callback_stream cb = i \<Longrightarrow>
    unanswered (callback_context cb ct)"
  by (cases ct; cases cb) (auto simp: unanswered_def wake_header_def wake_body_def add_header_def split: from_chars_result.splits)

lemma flushing_end: "still_flushing ct \<Longrightarrow> still_flushing (end_context ct)"
  and unanswered_end: "unanswered ct \<Longrightarrow> unanswered (end_context ct)"
  by (cases ct; auto simp: still_flushing_def unanswered_def end_context_def wake_header_def wake_body_def)+

lemma unanswered_task_event:
  assumes "h2_step e s = Some s'" "e \<in> {Flushed i ok, Resume_request i, Call_body_full i, Resume_body_full i}" "task_holds unanswered i s"
  shows "task_holds unanswered i s'"
  using assms(1,2) by (cases rule: task_stepE) (use assms(3) in \<open>auto simp: task_holds_def unanswered_def session_defs\<close>)

lemma flushing_task_event:
  assumes "h2_step e s = Some s'" "e \<in> {Flushed i ok, Resume_request i, Call_body_full i, Resume_body_full i}" "task_holds still_flushing i s"
  shows "\<exists>ok. e = Flushed i ok"
  using assms(1,2) by (cases rule: task_stepE) (use assms(3) in \<open>auto simp: task_holds_def still_flushing_def\<close>)

lemma flushing_run:
  "h2_run es s = Some s' \<Longrightarrow> task_holds still_flushing i s \<Longrightarrow> \<forall>ok. Flushed i ok \<notin> set es \<Longrightarrow> task_holds still_flushing i s'"
proof (induction es arbitrary: s)
  case (Cons e es)
  obtain s1 where s1: "h2_step e s = Some s1" "h2_run es s1 = Some s'" using Cons.prems(1) by (auto split: bind_splits)
  have "task_holds still_flushing i s1"
  proof (rule task_holds_step [OF s1(1) Cons.prems(2)])
    fix ok assume "e \<in> {Flushed i ok, Resume_request i, Call_body_full i, Resume_body_full i}"
    from flushing_task_event [OF s1(1) this Cons.prems(2)] show "task_holds still_flushing i s1" using Cons.prems(3) by auto
  qed (simp_all add: flushing_callback flushing_end)
  then show ?case using Cons.IH [OF s1(2)] Cons.prems(3) by simp
qed simp

lemma unanswered_run:
  "h2_run es s = Some s' \<Longrightarrow> task_holds unanswered i s \<Longrightarrow> On_frame_recv Headers_response i \<notin> set (callbacks es) \<Longrightarrow>
    task_holds unanswered i s'"
proof (induction es arbitrary: s)
  case (Cons e es)
  obtain s1 where s1: "h2_step e s = Some s1" "h2_run es s1 = Some s'" using Cons.prems(1) by (auto split: bind_splits)
  have n: "On_frame_recv Headers_response i \<notin> set (event_callbacks e)" "On_frame_recv Headers_response i \<notin> set (callbacks es)"
    using Cons.prems(3) by (auto simp: callbacks_def)
  have "task_holds unanswered i s1"
    by (rule task_holds_step [OF s1(1) Cons.prems(2) unanswered_callback unanswered_end unanswered_task_event [OF s1(1) _ Cons.prems(2)]])
      (use n in auto)
  then show ?case using Cons.IH [OF s1(2)] n(2) by simp
qed simp

text \<open>C35: A response can be lost. When the headers of the response are received before the request has finished writing, there is no waker
  to call, and the request, which then waits for one, gets no response: it waits until the stream or the driver ends, and then fails,
  although the response was received. \<open>header_complete\<close> is set but never read.\<close>

theorem early_response_lost:
  assumes r: "h2_run (es1 @ Submitted i # es2 @ Flushed i ok # es3) h2_new = Some s" "0 \<le> i"
    and f: "\<forall>ok. Flushed i ok \<notin> set es2" "On_frame_recv Headers_response i \<notin> set (callbacks es3)"
  shows "\<exists>c t. tasks s i = Some (c, t) \<and> no_response t"
proof -
  obtain s1 s2 s3 s4 where s: "h2_step (Submitted i) s1 = Some s2" "h2_run es2 s2 = Some s3" "h2_step (Flushed i ok) s3 = Some s4"
    "h2_run es3 s4 = Some s"
    using r(1) by (auto simp: h2_events.run_append simp del: h2_step.simps split: bind_splits)
  have "task_holds still_flushing i s2"
    using s(1) r(2) by (auto simp: task_holds_def still_flushing_def request_submitted_def new_context_def Let_def split: if_splits)
  then have "task_holds still_flushing i s3" using flushing_run [OF s(2)] f(1) by blast
  then have "task_holds unanswered i s3" by (auto simp: task_holds_def still_flushing_def unanswered_def split: option.splits)
  then have "task_holds unanswered i s4" using unanswered_task_event [OF s(3)] by blast
  from unanswered_run [OF s(4) this f(2)] show ?thesis by (auto simp: task_holds_def unanswered_def split: option.splits)
qed

theorem early_response_lost_witness:
  "\<exists>s c t. h2_run ([] @ Submitted 1 # [Received [On_header Headers_response 1 '':status'' ''200'', On_frame_recv Headers_response 1] True] @
      Flushed 1 True # [Driver_flushed True]) h2_new = Some s \<and> tasks s 1 = Some (c, t) \<and> no_response t"
proof -
  let ?es = "[] @ Submitted 1 # [Received [On_header Headers_response 1 '':status'' ''200'', On_frame_recv Headers_response 1] True] @
      Flushed 1 True # [Driver_flushed True]"
  have "map_option (\<lambda>s. map_option snd (tasks s 1)) (h2_run ?es h2_new) = Some (Some Awaiting_headers)" by code_simp
  then obtain s where s: "h2_run ?es h2_new = Some s" by auto
  have "\<forall>ok. Flushed 1 ok \<notin> set [Received [On_header Headers_response 1 '':status'' ''200'', On_frame_recv Headers_response 1] True]"
    "On_frame_recv Headers_response 1 \<notin> set (callbacks [Driver_flushed True])"
    by (simp_all add: callbacks_def)
  from early_response_lost [OF s _ this] s show ?thesis by auto
qed

text \<open>The target of a request over HTTP/2 has no query.\<close>

theorem request_nva_query: "request_nva (req\<lparr>req_url := (req_url req)\<lparr>query_of := q\<rparr>\<rparr>) = request_nva req"
  by (simp add: request_nva_def split: option.split)

section \<open>Writing\<close>

text \<open>
  \<open>flush_writes\<close>, with \<open>want_write\<close> and \<open>mem_send\<close> for the functions of nghttp2 on its state and \<open>wr\<close> for the awaited write of the
  connection. The number of bytes written is not looked at.
\<close>

partial_function (option) flush_writes ::
    "('n \<Rightarrow> bool) \<Rightarrow> ('n \<Rightarrow> int \<times> u8 list \<times> 'n) \<Rightarrow> (u8 list \<Rightarrow> 's \<Rightarrow> int result \<times> 's) \<Rightarrow> 'n \<Rightarrow> 's \<Rightarrow> (unit result \<times> 'n \<times> 's) option" where
  "flush_writes want_write mem_send wr n s =
    (if \<not> want_write n then Some (Inr (), n, s)
     else (case mem_send n of (len, data, n) \<Rightarrow>
       if len \<le> 0 then Some (Inr (), n, s)
       else (case wr data s of
           (Inl e, s) \<Rightarrow> Some (Inl e, n, s)
         | (Inr _, s) \<Rightarrow> flush_writes want_write mem_send wr n s)))"

declare flush_writes.simps [code]

text \<open>
  What is relied on: \<open>outgoing\<close> are the bytes nghttp2 has to send; \<open>mem_send\<close> gives the next of them, and 0 when there are none. A
  write sends the beginning of what it is given, as many bytes as it says, or fails after some.
\<close>

definition h2_sends :: "('n \<Rightarrow> bool) \<Rightarrow> ('n \<Rightarrow> int \<times> u8 list \<times> 'n) \<Rightarrow> ('n \<Rightarrow> u8 list) \<Rightarrow> bool" where
  "h2_sends want_write mem_send outgoing \<longleftrightarrow> (\<forall>n. (\<not> want_write n \<longrightarrow> outgoing n = []) \<and> (case mem_send n of (len, data, n') \<Rightarrow>
     0 \<le> len \<and> int (length data) = len \<and> outgoing n = data @ outgoing n' \<and> (len = 0 \<longrightarrow> outgoing n' = [])))"

definition h2_writes :: "('s \<Rightarrow> u8 list) \<Rightarrow> (u8 list \<Rightarrow> 's \<Rightarrow> int result \<times> 's) \<Rightarrow> bool" where
  "h2_writes sent wr \<longleftrightarrow> (\<forall>bs s. case wr bs s of
     (Inr k, s') \<Rightarrow> 0 \<le> k \<and> k \<le> int (length bs) \<and> sent s' = sent s @ take (nat k) bs
   | (Inl e, s') \<Rightarrow> \<exists>k. sent s' = sent s @ take k bs)"

definition whole_writes :: "(u8 list \<Rightarrow> 's \<Rightarrow> int result \<times> 's) \<Rightarrow> bool" where
  "whole_writes wr \<longleftrightarrow> (\<forall>bs s k. fst (wr bs s) = Inr k \<longrightarrow> k = int (length bs))"

lemma h2_writesD:
  assumes "h2_writes sent wr" "wr bs s = (q, s')"
  shows "q = Inr k \<Longrightarrow> sent s' = sent s @ take (nat k) bs" "q = Inl e \<Longrightarrow> \<exists>k. sent s' = sent s @ take k bs"
  using assms(1) [unfolded h2_writes_def, THEN spec [of _ bs], THEN spec [of _ s]] assms(2) by auto

text \<open>
  \<open>flush_writes\<close> returns. When the connection writes what it is given as a whole, then everything that nghttp2 had to send is on the
  wire, in order, or a prefix of it after an error.
\<close>

theorem flush_writes_in_order:
  assumes ng: "h2_sends want_write mem_send outgoing" and wr: "h2_writes sent wr"
  shows "\<exists>r n' s'. flush_writes want_write mem_send wr n s = Some (r, n', s') \<and>
    (whole_writes wr \<longrightarrow> (case r of
       Inr _ \<Rightarrow> outgoing n' = [] \<and> sent s' = sent s @ outgoing n
     | Inl _ \<Rightarrow> prefix (sent s') (sent s @ outgoing n)))"
proof (induction "length (outgoing n)" arbitrary: n s rule: less_induct)
  case less
  obtain len data n1 where m: "mem_send n = (len, data, n1)" by (metis prod_cases3)
  have n: "\<not> want_write n \<Longrightarrow> outgoing n = []" "0 \<le> len" "int (length data) = len" "outgoing n = data @ outgoing n1"
    "len = 0 \<Longrightarrow> outgoing n1 = []"
    using ng [unfolded h2_sends_def, rule_format, of n] m by simp_all
  show ?case
  proof (cases "want_write n \<and> 0 < len")
    case False
    then show ?thesis using n m by (auto simp: flush_writes.simps [of want_write mem_send wr n s])
  next
    case True
    obtain q s1 where q: "wr data s = (q, s1)" by (metis prod.collapse)
    show ?thesis
    proof (cases q)
      case (Inl e)
      then obtain k where "sent s1 = sent s @ take k data" using h2_writesD(2) [OF wr q] by blast
      then have "prefix (sent s1) (sent s @ outgoing n)" unfolding n(4) by (simp add: prefix_def) (metis append_assoc append_take_drop_id)
      then show ?thesis using True m q Inl by (simp add: flush_writes.simps [of want_write mem_send wr n s])
    next
      case (Inr k)
      have s1: "sent s1 = sent s @ take (nat k) data" by (rule h2_writesD(1) [OF wr q Inr])
      have k: "whole_writes wr \<Longrightarrow> k = int (length data)"
        unfolding whole_writes_def using q Inr by (metis fst_conv)
      have "data \<noteq> []" using n(3) True by auto
      then have "length (outgoing n1) < length (outgoing n)" using n(4) by simp
      moreover have "flush_writes want_write mem_send wr n s = flush_writes want_write mem_send wr n1 s1"
        using True m q Inr by (simp add: flush_writes.simps [of want_write mem_send wr n s])
      moreover have "whole_writes wr \<Longrightarrow> sent s1 @ outgoing n1 = sent s @ outgoing n" using s1 k n(4) by simp
      ultimately show ?thesis using less [of n1 s1] by metis
    qed
  qed
qed

text \<open>A connection that writes less than it is given, as a TCP stream may, loses the rest.\<close>

theorem short_write_loses:
  "\<exists>n' s'. flush_writes (\<lambda>n. n \<noteq> []) (\<lambda>n. (int (length n), n, [])) (\<lambda>bs s. (Inr 1, s @ take 1 bs)) [7, 8, 9 :: u8] [] =
    Some (Inr (), n', s') \<and> n' = [] \<and> s' = [7]"
  by (simp add: flush_writes.simps)

section \<open>Closed sessions\<close>

text \<open>\<open>is_valid\<close>, with what nghttp2 says and whether there is a session of it. \<open>close\<close> and \<open>close_async\<close> set the flag; nothing resets it, so a session that was closed, or
  whose driver has ended, is never taken from the pool again.\<close>

definition h2_is_valid :: "bool \<Rightarrow> bool \<Rightarrow> bool \<Rightarrow> Http2Session \<Rightarrow> bool" where
  "h2_is_valid has_session want_read want_write s \<longleftrightarrow> (if should_close s \<or> \<not> has_session then False else want_read \<or> want_write)"

lemma close_sticky:
  assumes "h2_step e s = Some s'" "should_close s"
  shows "should_close s'"
proof -
  have f: "should_close (fold session_callback cbs s) = should_close s" for cbs s
    by (induction cbs arbitrary: s) (simp_all add: session_callback_def update_task_def)
  show ?thesis
    using assms by (cases e) (auto simp: f request_submitted_def ensure_background_driver_def driver_end_def request_flushed_def
        request_resumed_def h2_body_full_def set_task_def erase_stream_def Let_def split: if_splits option.splits prod.splits h2_task.splits)
qed

theorem closed_never_valid:
  assumes "h2_run es (if closed then s\<lparr>should_close := True\<rparr> else driver_end s) = Some s'"
  shows "\<not> h2_is_valid has_session want_read want_write s'"
proof -
  have "should_close s'"
    using assms by (rule h2_events.run_invariant) (auto simp: driver_end_def intro: close_sticky)
  then show ?thesis by (simp add: h2_is_valid_def)
qed

end
