(* ===== verification/Http_Server.thy ===== *)
theory Http_Server
  imports Http1
begin

text \<open>
  The HTTP/1 session of a server (\<open>server.ixx\<close>), over the same parser and reads as that of the client. What the parser tells
  beside its callbacks is a parameter too: \<open>method_name\<close>, the name of the method it has seen, and \<open>keep_alive\<close>.
\<close>

section \<open>Sessions\<close>

record Http1ServerSession =
  srv_request :: HttpRequest
  srv_body_buffer :: "u8 list"
  srv_header_name :: string
  srv_header_value :: string
  srv_last_was_value :: bool
  srv_headers_complete :: bool
  srv_message_complete :: bool

definition server_new :: Http1ServerSession where
  "server_new = \<lparr>srv_request = default_request, srv_body_buffer = [], srv_header_name = [], srv_header_value = [],
     srv_last_was_value = False, srv_headers_complete = False, srv_message_complete = False\<rparr>"

definition server_reset_state :: "Http1ServerSession \<Rightarrow> Http1ServerSession" where
  "server_reset_state s = s\<lparr>srv_request := request_move_assign (srv_request s) default_request, srv_body_buffer := [],
     srv_header_name := [], srv_header_value := [], srv_last_was_value := False, srv_headers_complete := False,
     srv_message_complete := False\<rparr>"

definition server_commit_header :: "Http1ServerSession \<Rightarrow> Http1ServerSession" where
  "server_commit_header s =
    (if srv_header_name s \<noteq> []
     then s\<lparr>srv_request := (srv_request s)\<lparr>req_headers :=
              headers_add (srv_header_name s) (srv_header_value s) (req_headers (srv_request s))\<rparr>,
            srv_header_name := [], srv_header_value := []\<rparr>
     else s)"

text \<open>No callback is set for the beginning of a message and for a status.\<close>

fun server_callback :: "h1_event \<Rightarrow> Http1ServerSession \<Rightarrow> Http1ServerSession" where
  "server_callback On_message_begin s = s"
| "server_callback (On_status _ _) s = s"
| "server_callback (On_url at) s =
     s\<lparr>srv_request := (srv_request s)\<lparr>req_url := set_path at (req_url (srv_request s))\<rparr>\<rparr>"
| "server_callback (On_header_field at) s =
    (let s = (if srv_last_was_value s then (server_commit_header s)\<lparr>srv_last_was_value := False\<rparr> else s)
     in s\<lparr>srv_header_name := srv_header_name s @ at\<rparr>)"
| "server_callback (On_header_value at) s =
     s\<lparr>srv_last_was_value := True, srv_header_value := srv_header_value s @ at\<rparr>"
| "server_callback On_headers_complete s =
    (let s = (if srv_last_was_value s then server_commit_header s else s) in s\<lparr>srv_headers_complete := True\<rparr>)"
| "server_callback (On_body at) s = s\<lparr>srv_body_buffer := srv_body_buffer s @ at\<rparr>"
| "server_callback On_message_complete s = s\<lparr>srv_message_complete := True\<rparr>"

text \<open>What is left of a request that was moved away.\<close>

definition moved_request :: "HttpRequest \<Rightarrow> HttpRequest" where
  "moved_request r = r\<lparr>req_url := (req_url r)\<lparr>scheme_of := [], user_info := [], host_of := [], path_of := [], query_of := [],
     fragment_of := []\<rparr>, req_method := [], req_headers := [], req_body := map_option (\<lambda>_. []) (req_body r)\<rparr>"

definition receive_request :: "'p llhttp \<Rightarrow> ('p \<Rightarrow> 'p) \<Rightarrow> ('p \<Rightarrow> string) \<Rightarrow> reads \<Rightarrow> 'p \<times> Http1ServerSession \<Rightarrow>
    HttpRequest result \<times> reads \<times> 'p \<times> Http1ServerSession" where
  "receive_request exec reset method_name rs ps =
    (case pump server_callback exec srv_headers_complete (\<lambda>name. name) rs (reset (fst ps), server_reset_state (snd ps)) of
       (Failed e, rs, p, s) \<Rightarrow> (Inl e, rs, p, s)
     | (Eof, rs, p, s) \<Rightarrow> (Inl (Error connection_aborted ''eof before headers complete''), rs, p, s)
     | (Finished, rs, p, s) \<Rightarrow>
         let request = (srv_request s)\<lparr>req_method := method_name p\<rparr>
         in (Inr (request_move request), rs, p, s\<lparr>srv_request := moved_request request\<rparr>))"

definition receive_body :: "'p llhttp \<Rightarrow> reads \<Rightarrow> 'p \<times> Http1ServerSession \<Rightarrow> u8 list result \<times> reads \<times> 'p \<times> Http1ServerSession" where
  "receive_body exec rs ps = (case pump server_callback exec srv_message_complete (\<lambda>_. ''http1 request body'') rs ps of
      (Failed e, rs, p, s) \<Rightarrow> (Inl e, rs, p, s)
    | (_, rs, p, s) \<Rightarrow> (Inr (srv_body_buffer s), rs, p, s\<lparr>srv_body_buffer := []\<rparr>))"

text \<open>\<open>send_response\<close>, on the serialised response: its result, and whether it closes the connection.\<close>

definition send_response :: "('p \<Rightarrow> bool) \<Rightarrow> (u8 list \<Rightarrow> int result) \<Rightarrow> u8 list \<Rightarrow> 'p \<times> Http1ServerSession \<Rightarrow> unit result \<times> bool" where
  "send_response keep_alive wr payload ps = (case wr payload of
      Inl e \<Rightarrow> (Inl e, False)
    | Inr _ \<Rightarrow> (Inr (), \<not> keep_alive (fst ps)))"

section \<open>Requests\<close>

definition server_fields :: "Http1ServerSession \<Rightarrow> collected" where
  "server_fields s = (srv_header_name s, srv_header_value s, srv_last_was_value s, req_headers (srv_request s))"

interpretation server: h1_collector server_callback server_fields srv_body_buffer srv_headers_complete srv_message_complete
proof unfold_locales
  fix e :: h1_event and s :: Http1ServerSession
  show "server_fields (server_callback e s) = collect e (server_fields s)"
    by (cases e) (auto simp: server_fields_def server_commit_header_def commit_def Let_def)
  show "srv_body_buffer (server_callback e s) = srv_body_buffer s @ event_body e"
    by (cases e) (auto simp: server_commit_header_def Let_def)
  show "srv_headers_complete (server_callback e s) \<longleftrightarrow> srv_headers_complete s \<or> e = On_headers_complete"
    by (cases e) (auto simp: server_commit_header_def Let_def)
  show "srv_message_complete (server_callback e s) \<longleftrightarrow> srv_message_complete s \<or> e = On_message_complete"
    by (cases e) (auto simp: server_commit_header_def Let_def)
qed

abbreviation (input) srv_url :: "Http1ServerSession \<Rightarrow> Url" where
  "srv_url s \<equiv> req_url (srv_request s)"

lemma url_callback: "(\<And>x. e \<noteq> On_url x) \<Longrightarrow> srv_url (server_callback e s) = srv_url s"
  by (cases e) (auto simp: server_commit_header_def Let_def)

lemma url_fold: "(\<And>e x. e \<in> set evs \<Longrightarrow> e \<noteq> On_url x) \<Longrightarrow> srv_url (fold server_callback evs s) = srv_url s"
  by (induction evs arbitrary: s) (simp_all add: url_callback)

lemma url_start: "us \<noteq> [] \<Longrightarrow> srv_url (fold server_callback (map On_url us) s) = set_path (last us) (srv_url s)"
  by (induction us arbitrary: s) (auto simp: set_path_def)

lemma url_message_events:
  assumes "us \<noteq> []" "headers_events hs hevs" "\<forall>e\<in>set rest. (\<exists>b. e = On_body b) \<or> e = On_message_complete"
  shows "srv_url (fold server_callback ((On_message_begin # map On_url us) @ hevs @ On_headers_complete # rest) s) =
    set_path (last us) (srv_url s)"
proof -
  have "e \<noteq> On_url x" if "e \<in> set (hevs @ On_headers_complete # rest)" for e x
    using that headers_events_kind [OF assms(2), of e] assms(3) by auto
  note url_fold [OF this, of "hevs @ On_headers_complete # rest" "fold server_callback (map On_url us) s"]
  then show ?thesis using url_start [OF assms(1), of s] by simp
qed

lemma request_run:
  assumes m: "message_events (On_message_begin # map On_url us) hs body evs" "us \<noteq> []"
    and p: "parse_chunks exec (reset p) cs = Some (evs, p')" "\<forall>c\<in>set cs. c \<noteq> []"
  shows "\<exists>request rs1 ps1. receive_request exec reset method_name (map Inr cs @ rs) (p, s) = (Inr request, rs1, ps1) \<and>
    req_headers request = hs \<and> req_url request = set_path (last us) default_url \<and> req_method request = method_name (fst ps1) \<and>
    fst (receive_body exec rs1 ps1) = Inr body"
proof -
  let ?start = "On_message_begin # map On_url us"
  let ?s = "server_reset_state s"
  have r: "server_fields ?s = ([], [], False, [])" "\<not> srv_headers_complete ?s" "srv_body_buffer ?s = []" "\<not> srv_message_complete ?s"
    "srv_url ?s = default_url"
    by (simp_all add: server_fields_def server_reset_state_def request_move_assign_def default_request_def)
  obtain used cs' hevs more p1 evs2 where h:
    "pump server_callback exec srv_headers_complete (\<lambda>name. name) (map Inr cs @ rs) (reset p, ?s) =
      (Finished, map Inr cs' @ rs, p1, fold server_callback (?start @ hevs @ On_headers_complete # more) ?s)"
    "headers_events hs hevs" "\<forall>e\<in>set more. (\<exists>b. e = On_body b) \<or> e = On_message_complete"
    "evs = (?start @ hevs @ On_headers_complete # more) @ evs2" "parse_chunks exec p1 cs' = Some (evs2, p')"
    "snd (snd (snd (server_fields (fold server_callback (?start @ hevs @ On_headers_complete # more) ?s)))) = hs"
    "cs = used @ cs'" "parse_chunks exec (reset p) used = Some (?start @ hevs @ On_headers_complete # more, p1)"
    by (rule server.pump_headers [OF m(1) p r(1,2)])
  let ?evs1 = "?start @ hevs @ On_headers_complete # more"
  let ?s1 = "fold server_callback ?evs1 ?s"
  let ?request = "(srv_request ?s1)\<lparr>req_method := method_name p1\<rparr>"
  let ?moved = "?s1\<lparr>srv_request := moved_request ?request\<rparr>"
  have q: "receive_request exec reset method_name (map Inr cs @ rs) (p, s) = (Inr (request_move ?request), map Inr cs' @ rs, p1, ?moved)"
    by (simp only: receive_request_def h(1) Let_def fst_conv snd_conv sum.case prod.case pump_end.case)
  have b: "srv_body_buffer ?moved = concat (map event_body ?evs1)"
    "srv_message_complete ?moved \<longleftrightarrow> On_message_complete \<in> set ?evs1"
    using server.buffered_fold [of ?evs1 ?s] server.message_fold [of ?evs1 ?s] r(3,4) by simp_all
  have ne: "\<forall>c\<in>set cs'. c \<noteq> []" using p(2) h(7) by simp
  obtain rs' p2 s2 where "pump server_callback exec srv_message_complete (\<lambda>_. ''http1 request body'') (map Inr cs' @ rs) (p1, ?moved) =
      (Finished, rs', p2, s2)" "srv_body_buffer s2 = body"
    using server.pump_body [OF m(1) [unfolded h(4)] h(5) ne b, of "\<lambda>_. ''http1 request body''" rs] by blast
  then have "fst (receive_body exec (map Inr cs' @ rs) (p1, ?moved)) = Inr body" by (simp add: receive_body_def)
  moreover have "req_headers (request_move ?request) = hs"
    using h(6) by (simp only: server_fields_def snd_conv) (simp add: request_move_def)
  moreover have "req_url (request_move ?request) = set_path (last us) default_url"
    using url_message_events [OF m(2) h(2,3), of ?s] r(5) by (simp add: request_move_def)
  ultimately show ?thesis using q
    by (intro exI [of _ "request_move ?request"] exI [of _ "map Inr cs' @ rs"] exI [of _ "(p1, ?moved)"])
       (simp add: request_move_def)
qed

text \<open>C24: However the reads and the parser cut a request, \<open>receive_request\<close> gives its headers, in order, and \<open>receive_body\<close> after it the
  whole body. The path is the last piece of the request target that the parser gave: the whole target, with its query, if the
  parser gave it in one piece, and only its end if a read ended within it.\<close>

theorem request_received:
  assumes m: "message_events (On_message_begin # map On_url us) hs body evs" "us \<noteq> []"
    and p: "parse_chunks exec (reset p) cs = Some (evs, p')" "\<forall>c\<in>set cs. c \<noteq> []"
  shows "\<exists>request rs1 ps1. receive_request exec reset method_name (map Inr cs @ rs) (p, s) = (Inr request, rs1, ps1) \<and>
    req_headers request = hs \<and> req_url request = set_path (last us) default_url \<and> req_method request = method_name (fst ps1) \<and>
    fst (receive_body exec rs1 ps1) = Inr body"
  by (rule request_run [where reset = reset and p = p, OF m p])

text \<open>A parser of one byte for each event of a request.\<close>

fun request_byte_events :: "u8 \<Rightarrow> h1_event list" where
  "request_byte_events b = (if b = 0 then [On_message_begin] else if b = 5 then [On_url ''/pa''] else if b = 6 then [On_url ''th'']
     else byte_events b)"

definition request_byte_exec :: "string llhttp" where
  "request_byte_exec p bs = (None, concat (map request_byte_events bs), ''POST'')"

lemma request_byte_message:
  "message_events (On_message_begin # map On_url [''/pa'', ''th'']) [\<lparr>hname = ''name'', hvalue = ''xx''\<rparr>] [7, 8]
    (concat (map request_byte_events [0, 5, 6, 1, 2, 2, 3, 7, 8, 4]))"
  using byte_message unfolding message_events_def by (auto simp: Cons_eq_append_conv)

theorem request_received_witness:
  "\<exists>request rs1 ps1. receive_request request_byte_exec (\<lambda>_. ''GET'') (\<lambda>p. p) (map Inr [[0, 5], [6, 1, 2], [2, 3, 7], [8, 4]] @ [])
      (''GET'', server_new) = (Inr request, rs1, ps1) \<and>
    req_headers request = [\<lparr>hname = ''name'', hvalue = ''xx''\<rparr>] \<and>
    req_url request = set_path (last [''/pa'', ''th'']) default_url \<and> req_method request = fst ps1 \<and>
    fst (receive_body request_byte_exec rs1 ps1) = Inr [7, 8]"
proof (rule request_received [OF request_byte_message])
  show "parse_chunks request_byte_exec ''GET'' [[0, 5], [6, 1, 2], [2, 3, 7], [8, 4]] =
      Some (concat (map request_byte_events [0, 5, 6, 1, 2, 2, 3, 7, 8, 4]), ''POST'')"
    by (simp add: request_byte_exec_def)
qed simp_all

end
