(* ===== verification/Http_Exchange.thy ===== *)
theory Http_Exchange
  imports Session_Pool Http1
begin

text \<open>
  Requests from the client to their responses over HTTP/1 connections: the responses that sessions hand out (\<open>response.ixx\<close>), the
  wrapper of the sessions in the pool (\<open>SessionWrapper\<close>, \<open>session.ixx\<close>), the sessions on their connections (\<open>http1.ixx\<close>) and the
  client (\<open>client.cpp\<close>) over the pool. The other side of a connection is a parameter: \<open>peer\<close> gives what arrives after a payload was
  sent, and \<open>connect\<close> is the result of \<open>session_connect\<close>.
\<close>

section \<open>Responses\<close>

text \<open>
  A session is its number. The only hook that the code sets is that of the client; it is the key that it captures. The function object
  that was moved away is empty.
\<close>

record HttpResponse =
  resp_session :: "nat option"
  resp_owner :: "nat option"
  resp_hook :: "SessionKey option"
  resp_consumed :: bool
  resp_head :: HeadParts
  resp_id :: int

definition HttpResponse_new :: "nat option \<Rightarrow> HttpResponse" where
  "HttpResponse_new session = \<lparr>resp_session = session, resp_owner = None, resp_hook = None, resp_consumed = False, resp_head = empty_head,
     resp_id = - 1\<rparr>"

definition moved_response :: "HttpResponse \<Rightarrow> HttpResponse" where
  "moved_response r = \<lparr>resp_session = None, resp_owner = None, resp_hook = None, resp_consumed = False, resp_head = moved_head (resp_head r),
     resp_id = - 1\<rparr>"

text \<open>The move constructor and the move assignment give the new response and what is left of the other.\<close>

definition response_move :: "HttpResponse \<Rightarrow> HttpResponse \<times> HttpResponse" where
  "response_move other = (other, moved_response other)"

definition response_assign :: "bool \<Rightarrow> HttpResponse \<Rightarrow> HttpResponse \<Rightarrow> HttpResponse \<times> HttpResponse" where
  "response_assign same this other = (if same then (this, other) else (other, moved_response other))"

definition set_session :: "nat \<Rightarrow> HttpResponse \<Rightarrow> HttpResponse" where
  "set_session session r = r\<lparr>resp_session := Some session, resp_owner := Some session\<rparr>"

definition set_body_consumed_hook :: "SessionKey \<Rightarrow> HttpResponse \<Rightarrow> HttpResponse" where
  "set_body_consumed_hook key r = r\<lparr>resp_hook := Some key\<rparr>"

text \<open>\<open>SessionWrapper::request\<close> on the result of the session: the status, the number of the stream and the headers are carried over.\<close>

definition wrapper_request :: "nat \<Rightarrow> (HeadParts \<times> int) result \<Rightarrow> HttpResponse result" where
  "wrapper_request this result = (case result of
      Inl e \<Rightarrow> Inl e
    | Inr (inner_head, inner_id) \<Rightarrow>
        let r = HttpResponse_new (Some this);
            r = r\<lparr>resp_head := (resp_head r)\<lparr>head_status := head_status inner_head\<rparr>\<rparr>;
            r = r\<lparr>resp_id := inner_id\<rparr>
        in Inr (r\<lparr>resp_head := (resp_head r)\<lparr>head_headers := head_headers inner_head\<rparr>\<rparr>))"

section \<open>Connections\<close>

text \<open>
  An HTTP/1 session on its connection: the parser, the session, the results of reads that have arrived and were not taken, whether a
  read has found the end of the stream, and whether the connection is open on this side. A connection that has ended, or on which something
  has arrived that nobody asked for, is not alive. A loop that succeeds without its flag being set has found the end.
\<close>

record 'p h1_conn =
  conn_parser :: 'p
  conn_session :: Http1Session
  conn_reads :: reads
  conn_ended :: bool
  conn_open :: bool

definition conn_is_valid :: "'p h1_conn \<Rightarrow> bool" where
  "conn_is_valid c \<longleftrightarrow> conn_open c \<and> \<not> conn_ended c \<and> conn_reads c = []"

definition conn_request :: "'p llhttp \<Rightarrow> ('p \<Rightarrow> 'p) \<Rightarrow> endian \<Rightarrow> (u8 list \<Rightarrow> int result) \<Rightarrow> (u8 list \<Rightarrow> reads) \<Rightarrow> HttpRequest \<Rightarrow>
    'p h1_conn \<Rightarrow> HeadParts result \<times> 'p h1_conn" where
  "conn_request exec reset native wr peer req c =
    (let payload = serialize_to_h1 native req;
         arrived = conn_reads c @ (case wr payload of Inl _ \<Rightarrow> [] | Inr _ \<Rightarrow> peer payload)
     in case h1_request exec reset native wr req arrived (conn_parser c, conn_session c) of
       (res, rs, p, s) \<Rightarrow> (res, c\<lparr>conn_parser := p, conn_session := s, conn_reads := rs,
         conn_ended := conn_ended c \<or> \<not> isl res \<and> \<not> headers_complete s\<rparr>))"

definition conn_body_full :: "'p llhttp \<Rightarrow> 'p h1_conn \<Rightarrow> u8 list result \<times> 'p h1_conn" where
  "conn_body_full exec c = (case h1_body_full exec (conn_reads c) (conn_parser c, conn_session c) of
      (res, rs, p, s) \<Rightarrow> (res, c\<lparr>conn_parser := p, conn_session := s, conn_reads := rs,
        conn_ended := conn_ended c \<or> \<not> isl res \<and> \<not> message_complete s\<rparr>))"

definition conn_close :: "'p h1_conn \<Rightarrow> 'p h1_conn" where
  "conn_close c = c\<lparr>conn_open := False\<rparr>"

section \<open>The client\<close>

record 'p HttpClient =
  session_pool :: SessionPool
  conns :: "nat \<Rightarrow> 'p h1_conn option"
  opened :: nat

text \<open>What the calls of the client depend on: the parser, the byte order, the result of a write, the peer, and new connections.\<close>

record 'p http_env =
  env_exec :: "'p llhttp"
  env_reset :: "'p \<Rightarrow> 'p"
  env_native :: endian
  env_write :: "u8 list \<Rightarrow> int result"
  env_peer :: "u8 list \<Rightarrow> reads"
  env_connect :: "SessionKey \<Rightarrow> 'p h1_conn result"

abbreviation session_valid :: "'p HttpClient \<Rightarrow> nat \<Rightarrow> bool" where
  "session_valid cl s \<equiv> (case conns cl s of None \<Rightarrow> False | Some c \<Rightarrow> conn_is_valid c)"

abbreviation (input) session_version :: "nat \<Rightarrow> Version" where
  "session_version \<equiv> (\<lambda>_. HTTP_11)"

definition set_conn :: "nat \<Rightarrow> 'p h1_conn \<Rightarrow> 'p HttpClient \<Rightarrow> 'p HttpClient" where
  "set_conn s c cl = cl\<lparr>conns := (conns cl)(s \<mapsto> c)\<rparr>"

text \<open>\<open>acquire_session\<close>, nothing else running between its two parts. \<open>None\<close> is undefined behaviour.\<close>

definition client_acquire :: "'p http_env \<Rightarrow> SessionKey \<Rightarrow> 'p HttpClient \<Rightarrow> (nat result \<times> 'p HttpClient) option" where
  "client_acquire env key cl = (case acquire_begin (session_valid cl) key (session_pool cl) of
      None \<Rightarrow> None
    | Some (Some s, p) \<Rightarrow> Some (Inr s, cl\<lparr>session_pool := p\<rparr>)
    | Some (None, p) \<Rightarrow>
        let (res, cl) = (case env_connect env key of
              Inl e \<Rightarrow> (Inl e, cl\<lparr>session_pool := p\<rparr>)
            | Inr c \<Rightarrow> (Inr (opened cl), (set_conn (opened cl) c cl)\<lparr>session_pool := p, opened := opened cl + 1\<rparr>))
        in map_option (\<lambda>(res, p). (res, cl\<lparr>session_pool := p\<rparr>)) (acquire_finish session_version key (clears p) res (session_pool cl)))"

definition client_request :: "'p http_env \<Rightarrow> HttpRequest \<Rightarrow> ProxyConfig option \<Rightarrow> 'p HttpClient \<Rightarrow>
    (HttpResponse result \<times> 'p HttpClient) option" where
  "client_request env req proxy_config cl =
    (let key = client_key req proxy_config in
     case client_acquire env key cl of
       None \<Rightarrow> None
     | Some (Inl e, cl) \<Rightarrow> Some (Inl e, cl)
     | Some (Inr s, cl) \<Rightarrow> (case conns cl s of
         None \<Rightarrow> None
       | Some c \<Rightarrow>
           let (head, c) = conn_request (env_exec env) (env_reset env) (env_native env) (env_write env) (env_peer env)
                 (request_move (request_move req)) c;
               res = wrapper_request s (map_sum id (\<lambda>head. (head, - 1)) head);
               hooked = (\<lambda>r. if session_version s = HTTP_11 \<or> session_version s = HTTP_10 then set_body_consumed_hook key r else r)
           in Some (map_sum id (\<lambda>r. hooked (set_session s r)) res, set_conn s c cl)))"

text \<open>\<open>HttpResponse::body_full\<close>, with the hook of the client.\<close>

definition close_session :: "nat option \<Rightarrow> 'p HttpClient \<Rightarrow> 'p HttpClient" where
  "close_session s cl = (case s of
      None \<Rightarrow> cl
    | Some s \<Rightarrow> (case conns cl s of None \<Rightarrow> cl | Some c \<Rightarrow> set_conn s (conn_close c) cl))"

definition response_body_full :: "'p http_env \<Rightarrow> HttpResponse \<Rightarrow> 'p HttpClient \<Rightarrow>
    (u8 list result \<times> HttpResponse \<times> 'p HttpClient) option" where
  "response_body_full env r cl = (case resp_session r of
      None \<Rightarrow> None
    | Some s \<Rightarrow> (case conns cl s of
        None \<Rightarrow> None
      | Some c \<Rightarrow>
          let (result, c) = conn_body_full (env_exec env) c;
              cl = set_conn s c cl
          in if resp_consumed r then Some (result, r, cl)
             else let r = r\<lparr>resp_consumed := True\<rparr> in
               (case (resp_hook r, resp_owner r) of
                 (Some key, Some held) \<Rightarrow>
                   (if \<not> isl result
                    then (case release_h1_session (session_valid cl) session_version key (Some held) (session_pool cl) of
                        (p, closed) \<Rightarrow> Some (result, r, close_session closed (cl\<lparr>session_pool := p\<rparr>)))
                    else Some (result, r, close_session (Some held) cl))
               | _ \<Rightarrow> Some (result, r, cl))))"

text \<open>A request whose body is read, and requests one after the other.\<close>

definition exchange :: "'p http_env \<Rightarrow> ProxyConfig option \<Rightarrow> HttpRequest \<Rightarrow> 'p HttpClient \<Rightarrow>
    ((HeadParts \<times> u8 list) result \<times> 'p HttpClient) option" where
  "exchange env proxy_config req cl = (case client_request env req proxy_config cl of
      None \<Rightarrow> None
    | Some (Inl e, cl) \<Rightarrow> Some (Inl e, cl)
    | Some (Inr r, cl) \<Rightarrow> (case response_body_full env r cl of
        None \<Rightarrow> None
      | Some (Inl e, _, cl) \<Rightarrow> Some (Inl e, cl)
      | Some (Inr body, r, cl) \<Rightarrow> Some (Inr (resp_head r, body), cl)))"

fun exchanges :: "'p http_env \<Rightarrow> ProxyConfig option \<Rightarrow> HttpRequest list \<Rightarrow> 'p HttpClient \<Rightarrow>
    ((HeadParts \<times> u8 list) result list \<times> 'p HttpClient) option" where
  "exchanges env proxy_config [] cl = Some ([], cl)"
| "exchanges env proxy_config (req # reqs) cl = (case exchange env proxy_config req cl of
      None \<Rightarrow> None
    | Some (res, cl) \<Rightarrow> map_option (\<lambda>(rest, cl). (res # rest, cl)) (exchanges env proxy_config reqs cl))"

section \<open>One exchange\<close>

lemma serialize_moved: "serialize_to_h1 native (request_move r) = serialize_to_h1 native r"
proof -
  have sel: "req_url (request_move r) = req_url r" "req_method (request_move r) = req_method r" "req_headers (request_move r) = req_headers r"
    "req_body (request_move r) = req_body r"
    by (simp_all add: request_move_def)
  then have "request_target (request_move r) = request_target r" "host_line (request_move r) = host_line r"
    by (simp_all only: request_target_def host_line_def)
  then show ?thesis unfolding serialize_to_h1_def sel by (simp only:)
qed

text \<open>
  The reads \<open>cs\<close> hold a response: the parser, started anew, reads it from them, and it is not complete before the last of them. A reason
  phrase may come in several pieces, of which the last is kept.
\<close>

type_synonym answer = "HttpStatus \<times> HttpHeaderList \<times> u8 list"

definition answers :: "'p http_env \<Rightarrow> u8 list list \<Rightarrow> answer \<Rightarrow> bool" where
  "answers env cs = (\<lambda>(status, hs, body). (\<forall>c\<in>set cs. c \<noteq> []) \<and>
     (\<forall>p. \<exists>ts evs p'. ts \<noteq> [] \<and> last ts = status_message status \<and>
       message_events (On_message_begin # map (On_status (status_code status)) ts) hs body evs \<and>
       parse_chunks (env_exec env) (env_reset env p) cs = Some (evs, p') \<and>
       (\<forall>evs' q. parse_chunks (env_exec env) (env_reset env p) (butlast cs) = Some (evs', q) \<longrightarrow> On_message_complete \<notin> set evs')))"

fun received :: "answer \<Rightarrow> (HeadParts \<times> u8 list) result" where
  "received (status, hs, body) = Inr (\<lparr>head_status = status, head_version = HTTP_11, head_headers = hs\<rparr>, body)"

lemma parse_chunks_prefix:
  assumes "parse_chunks exec p (cs @ ds) = Some (evs, q)"
  shows "\<exists>evs1 p1 evs2. parse_chunks exec p cs = Some (evs1, p1) \<and> evs = evs1 @ evs2"
  using assms by (auto simp: parse_chunks_append split: option.splits prod.splits)

lemma conn_exchange:
  assumes a: "answers env cs (status, hs, body)" and v: "conn_is_valid c"
    and w: "env_write env (serialize_to_h1 (env_native env) req) = Inr n"
    and peer: "env_peer env (serialize_to_h1 (env_native env) req) = map Inr cs @ extra"
  shows "\<exists>head c1 c2. conn_request (env_exec env) (env_reset env) (env_native env) (env_write env) (env_peer env) req c = (Inr head, c1) \<and>
    head_status head = status \<and> head_headers head = hs \<and> conn_body_full (env_exec env) c1 = (Inr body, c2) \<and>
    (conn_is_valid c2 \<longleftrightarrow> extra = [])"
proof -
  obtain ts evs p' where m: "ts \<noteq> []" "last ts = status_message status" "\<forall>c\<in>set cs. c \<noteq> []"
    "message_events (On_message_begin # map (On_status (status_code status)) ts) hs body evs"
    "parse_chunks (env_exec env) (env_reset env (conn_parser c)) cs = Some (evs, p')"
    "\<And>evs' q. parse_chunks (env_exec env) (env_reset env (conn_parser c)) (butlast cs) = Some (evs', q) \<Longrightarrow> On_message_complete \<notin> set evs'"
    using a unfolding answers_def by blast
  obtain head rs1 ps1 used cs' evs1 p2 s2 where x:
    "h1_request (env_exec env) (env_reset env) (env_native env) (env_write env) req (map Inr cs @ extra) (conn_parser c, conn_session c) =
      (Inr head, rs1, ps1)"
    "head_status head = \<lparr>status_code = status_code status, status_message = last ts\<rparr>" "head_headers head = hs"
    "h1_body_full (env_exec env) rs1 ps1 = (Inr body, map Inr cs' @ extra, p2, s2)" "cs = used @ cs'"
    "parse_chunks (env_exec env) (env_reset env (conn_parser c)) used = Some (evs1, p2)" "On_message_complete \<in> set evs1"
    "headers_complete (snd ps1)" "message_complete s2"
    by (rule exchange_run [where reset = "env_reset env" and p = "conn_parser c" and wr = "env_write env" and native = "env_native env"
          and req = req, OF m(4,1,5,3) w])
  have "cs' = []"
  proof (rule ccontr)
    assume "cs' \<noteq> []"
    then have split: "butlast cs = used @ butlast cs'" "cs \<noteq> []" by (simp_all add: x(5) butlast_append)
    have "parse_chunks (env_exec env) (env_reset env (conn_parser c)) (butlast cs @ [last cs]) = Some (evs, p')"
      unfolding append_butlast_last_id [OF split(2)] by (rule m(5))
    then obtain evs2 p1 where "parse_chunks (env_exec env) (env_reset env (conn_parser c)) (butlast cs) = Some (evs2, p1)"
      by (blast dest: parse_chunks_prefix)
    moreover from parse_chunks_prefix [OF this [unfolded split(1)]] have "set evs1 \<subseteq> set evs2" by (auto simp: x(6))
    ultimately show False using m(6) x(7) by blast
  qed
  have c: "conn_open c" "\<not> conn_ended c" "conn_reads c = []" using v by (simp_all add: conn_is_valid_def)
  let ?c1 = "c\<lparr>conn_parser := fst ps1, conn_session := snd ps1, conn_reads := rs1, conn_ended := False\<rparr>"
  let ?c2 = "?c1\<lparr>conn_parser := p2, conn_session := s2, conn_reads := extra, conn_ended := False\<rparr>"
  have "conn_request (env_exec env) (env_reset env) (env_native env) (env_write env) (env_peer env) req c = (Inr head, ?c1)"
    unfolding conn_request_def Let_def c(3) append_Nil w sum.case peer x(1) using x(8) c(2) by (simp add: case_prod_beta)
  moreover have "conn_body_full (env_exec env) ?c1 = (Inr body, ?c2)"
    using x(4,9) \<open>cs' = []\<close> unfolding conn_body_full_def by simp
  moreover have "head_status head = status" using x(2) m(2) by simp
  moreover have "conn_is_valid ?c2 \<longleftrightarrow> extra = []" using c(1) by (simp add: conn_is_valid_def)
  ultimately show ?thesis using x(3) by (intro exI [of _ head] exI [of _ ?c1] exI [of _ ?c2]) simp
qed

section \<open>Reuse of connections\<close>

text \<open>The client between two exchanges with one host: the pool has at most one session for it, which is valid.\<close>

definition ready :: "SessionKey \<Rightarrow> nat option \<Rightarrow> 'p HttpClient \<Rightarrow> bool" where
  "ready key idle cl \<longleftrightarrow> pool_ok (session_pool cl) \<and>
     group_get key (session_pool cl) = \<lparr>h2_session = None, h1_idle = (case idle of None \<Rightarrow> [] | Some s \<Rightarrow> [Some s])\<rparr> \<and>
     (case idle of None \<Rightarrow> True | Some s \<Rightarrow> session_valid cl s)"

lemma acquire_ready:
  assumes r: "ready key idle cl" and f: "env_connect env key = Inr fresh" "conn_is_valid fresh"
  shows "\<exists>s c cl'. client_acquire env key cl = Some (Inr s, cl') \<and> conns cl' s = Some c \<and> conn_is_valid c \<and>
    pool_ok (session_pool cl') \<and> group_get key (session_pool cl') = empty_group \<and> opened cl' = opened cl + (if idle = None then 1 else 0)"
proof -
  let ?g = "prune_group (session_valid cl) (group_get key (session_pool cl))"
  have g: "?g = group_get key (session_pool cl)" using r by (auto simp: ready_def prune_group_def split: option.splits)
  obtain p where p: "acquire_begin (session_valid cl) key (session_pool cl) = Some (idle, p)" "pool_ok p" "group_get key p = empty_group"
    using acquire_begin_run [OF _ refl, of "session_pool cl" "session_valid cl" key] r unfolding g
    by (auto simp: ready_def empty_group_def split: option.splits)
  show ?thesis
  proof (cases idle)
    case None
    then show ?thesis using p f
      by (intro exI [of _ "opened cl"] exI [of _ fresh]) (simp add: client_acquire_def acquire_finish_def set_conn_def)
  next
    case (Some s)
    then obtain c where "conns cl s = Some c" "conn_is_valid c" using r by (auto simp: ready_def split: option.splits)
    then show ?thesis using p Some by (intro exI [of _ s] exI [of _ c]) (simp add: client_acquire_def)
  qed
qed

lemma release_ready:
  assumes "pool_ok (session_pool cl)" "group_get key (session_pool cl) = empty_group"
    and "release_h1_session (session_valid cl) session_version key (Some s) (session_pool cl) = (p, closed)"
  shows "closed = None" "ready key (if session_valid cl s then Some s else None) (cl\<lparr>session_pool := p\<rparr>)"
  using release_run [OF assms(1,3)] assms(1,2)
  by (cases "session_valid cl s"; cases "group_get key p"; auto simp: ready_def is_h1_def empty_group_def)+

lemma exchange_conn:
  assumes r: "ready key idle cl" "env_connect env key = Inr fresh" "conn_is_valid fresh" "client_key req proxy_config = key"
    and x: "\<And>c. conn_is_valid c \<Longrightarrow> \<exists>head c1 c2. conn_request (env_exec env) (env_reset env) (env_native env) (env_write env) (env_peer env)
        (request_move (request_move req)) c = (Inr head, c1) \<and> head_status head = status \<and> head_headers head = hs \<and>
      conn_body_full (env_exec env) c1 = (Inr body, c2) \<and> (conn_is_valid c2 \<longleftrightarrow> keeps)"
  shows "\<exists>idle' cl'. exchange env proxy_config req cl = Some (received (status, hs, body), cl') \<and> ready key idle' cl' \<and>
    (idle' \<noteq> None \<longleftrightarrow> keeps) \<and> opened cl' = opened cl + (if idle = None then 1 else 0)"
proof -
  obtain s c cl1 where q: "client_acquire env key cl = Some (Inr s, cl1)" "conns cl1 s = Some c" "conn_is_valid c"
    "pool_ok (session_pool cl1)" "group_get key (session_pool cl1) = empty_group" "opened cl1 = opened cl + (if idle = None then 1 else 0)"
    using acquire_ready [OF r(1-3)] by blast
  obtain head c1 c2 where x: "conn_request (env_exec env) (env_reset env) (env_native env) (env_write env) (env_peer env)
      (request_move (request_move req)) c = (Inr head, c1)" "head_status head = status" "head_headers head = hs"
    "conn_body_full (env_exec env) c1 = (Inr body, c2)" "conn_is_valid c2 \<longleftrightarrow> keeps"
    using x [OF q(3)] by blast
  let ?r = "\<lparr>resp_session = Some s, resp_owner = Some s, resp_hook = Some key, resp_consumed = False,
    resp_head = \<lparr>head_status = status, head_version = HTTP_11, head_headers = hs\<rparr>, resp_id = - 1\<rparr>"
  let ?cl2 = "set_conn s c2 (set_conn s c1 cl1)"
  have req: "client_request env req proxy_config cl = Some (Inr ?r, set_conn s c1 cl1)"
    unfolding client_request_def Let_def r(4) q(1) option.case prod.case sum.case q(2) x(1)
    by (simp add: wrapper_request_def HttpResponse_new_def empty_head_def x(2,3) set_session_def set_body_consumed_hook_def)
  obtain p closed where rel: "release_h1_session (session_valid ?cl2) session_version key (Some s) (session_pool ?cl2) = (p, closed)"
    by fastforce
  have pool: "pool_ok (session_pool ?cl2)" "group_get key (session_pool ?cl2) = empty_group" using q(4,5) by (simp_all add: set_conn_def)
  note rl = release_ready [OF pool rel]
  have conn: "conns (set_conn s c1 cl1) s = Some c1" by (simp add: set_conn_def)
  have "response_body_full env ?r (set_conn s c1 cl1) = Some (Inr body, ?r\<lparr>resp_consumed := True\<rparr>, ?cl2\<lparr>session_pool := p\<rparr>)"
    unfolding response_body_full_def
    by (simp add: conn x(4) rel rl(1) close_session_def)
  then have "exchange env proxy_config req cl = Some (received (status, hs, body), ?cl2\<lparr>session_pool := p\<rparr>)"
    unfolding exchange_def req by simp
  moreover have "session_valid ?cl2 s \<longleftrightarrow> keeps" using x(5) by (simp add: set_conn_def)
  ultimately show ?thesis using rl(2) q(6)
    by (intro exI [of _ "if session_valid ?cl2 s then Some s else None"] exI [of _ "?cl2\<lparr>session_pool := p\<rparr>"])
       (simp add: set_conn_def)
qed

lemma exchange_ready:
  assumes r: "ready key idle cl" "env_connect env key = Inr fresh" "conn_is_valid fresh" "client_key req proxy_config = key"
    and a: "answers env cs answer" and w: "env_write env (serialize_to_h1 (env_native env) req) = Inr n"
    and peer: "env_peer env (serialize_to_h1 (env_native env) req) = map Inr cs @ extra"
  shows "\<exists>idle' cl'. exchange env proxy_config req cl = Some (received answer, cl') \<and> ready key idle' cl' \<and>
    (idle' \<noteq> None \<longleftrightarrow> extra = []) \<and> opened cl' = opened cl + (if idle = None then 1 else 0)"
proof -
  obtain status hs body where ans: "answer = (status, hs, body)" by (cases answer)
  show ?thesis unfolding ans
    using w peer by (intro exchange_conn [OF r] conn_exchange [OF a [unfolded ans]]) (simp_all add: serialize_moved)
qed

text \<open>How many connections requests one after the other open, when after the answer to a request satisfying \<open>ends\<close> something arrives that
  nobody asked for, as the end of the connection; \<open>idle\<close> says whether a session is idle at the beginning.\<close>

fun connections :: "(HttpRequest \<Rightarrow> bool) \<Rightarrow> bool \<Rightarrow> HttpRequest list \<Rightarrow> nat" where
  "connections ends idle [] = 0"
| "connections ends idle (req # reqs) = (if idle then 0 else 1) + connections ends (\<not> ends req) reqs"

lemma exchanges_ready:
  assumes "ready key idle cl" "env_connect env key = Inr fresh" "conn_is_valid fresh"
    and "\<forall>req\<in>set reqs. client_key req proxy_config = key \<and> (\<exists>n. env_write env (serialize_to_h1 (env_native env) req) = Inr n) \<and>
      (\<exists>cs. env_peer env (serialize_to_h1 (env_native env) req) = map Inr cs @ extra req \<and> answers env cs (answer req))"
  shows "\<exists>cl'. exchanges env proxy_config reqs cl = Some (map (\<lambda>req. received (answer req)) reqs, cl') \<and>
    opened cl' = opened cl + connections (\<lambda>req. extra req \<noteq> []) (idle \<noteq> None) reqs"
  using assms(1,4)
proof (induction reqs arbitrary: idle cl)
  case (Cons req reqs)
  obtain n cs where x: "client_key req proxy_config = key" "env_write env (serialize_to_h1 (env_native env) req) = Inr n"
    "env_peer env (serialize_to_h1 (env_native env) req) = map Inr cs @ extra req" "answers env cs (answer req)"
    using Cons.prems(2) by auto
  obtain idle' cl1 where e: "exchange env proxy_config req cl = Some (received (answer req), cl1)" "ready key idle' cl1"
    "idle' \<noteq> None \<longleftrightarrow> extra req = []" "opened cl1 = opened cl + (if idle = None then 1 else 0)"
    using exchange_ready [OF Cons.prems(1) assms(2,3) x(1,4,2,3)] by blast
  obtain cl2 where "exchanges env proxy_config reqs cl1 = Some (map (\<lambda>req. received (answer req)) reqs, cl2)"
    "opened cl2 = opened cl1 + connections (\<lambda>req. extra req \<noteq> []) (idle' \<noteq> None) reqs"
    using Cons.IH [OF e(2)] Cons.prems(2) by auto
  then show ?case using e(1,3,4) by simp
qed simp


text \<open>Three requests, to which the host answers with the same bytes; it closes the connection after the second one.\<close>

definition sample_conn :: "unit h1_conn" where
  "sample_conn = \<lparr>conn_parser = (), conn_session = h1_new, conn_reads = [], conn_ended = False, conn_open = True\<rparr>"

definition sample_chunks :: "u8 list list" where
  "sample_chunks = [[0, 1, 2], [2, 3, 7], [8, 4]]"

definition closing_request :: HttpRequest where
  "closing_request = default_request\<lparr>req_headers := [\<lparr>hname = ''Connection'', hvalue = ''close''\<rparr>]\<rparr>"

definition sample_env :: "unit http_env" where
  "sample_env = \<lparr>env_exec = byte_exec, env_reset = id, env_native = little, env_write = (\<lambda>bs. Inr (int (length bs))),
     env_peer = (\<lambda>bs. map Inr sample_chunks @ (if bs = serialize_to_h1 little closing_request then [Inr []] else [])),
     env_connect = (\<lambda>_. Inr sample_conn)\<rparr>"

definition sample_client :: "unit HttpClient" where
  "sample_client = \<lparr>session_pool = \<lparr>sessions = [], clears = 0\<rparr>, conns = Map.empty, opened = 0\<rparr>"

definition sample_answer :: answer where
  "sample_answer = (\<lparr>status_code = 200, status_message = ''K''\<rparr>, [\<lparr>hname = ''name'', hvalue = ''xx''\<rparr>], [7, 8])"

lemma sample_answers: "answers sample_env sample_chunks sample_answer"
proof -
  have p: "parse_chunks byte_exec () sample_chunks = Some (concat (map byte_events [0, 1, 2, 2, 3, 7, 8, 4]), ())"
    "On_message_complete \<notin> set (fst (the (parse_chunks byte_exec () (butlast sample_chunks))))"
    by (simp_all add: byte_exec_def sample_chunks_def)
  show ?thesis unfolding answers_def sample_answer_def prod.case
  proof (intro conjI allI exI [of _ "[''O'', ''K'']"] exI [of _ "concat (map byte_events [0, 1, 2, 2, 3, 7, 8, 4])"] exI [of _ "()"] impI)
    show "\<forall>c\<in>set sample_chunks. c \<noteq> []" by (simp add: sample_chunks_def)
    show "message_events (On_message_begin # map (On_status (status_code \<lparr>status_code = 200, status_message = ''K''\<rparr>)) [''O'', ''K''])
        [\<lparr>hname = ''name'', hvalue = ''xx''\<rparr>] [7, 8] (concat (map byte_events [0, 1, 2, 2, 3, 7, 8, 4]))"
      using byte_message by simp
    show "On_message_complete \<notin> set evs'"
      if "parse_chunks (env_exec sample_env) (env_reset sample_env p) (butlast sample_chunks) = Some (evs', q)" for p evs' q
      using that p(2) by (simp add: sample_env_def)
    show "parse_chunks (env_exec sample_env) (env_reset sample_env p) sample_chunks =
        Some (concat (map byte_events [0, 1, 2, 2, 3, 7, 8, 4]), ())" for p
      using p(1) by (simp add: sample_env_def)
  qed simp_all
qed


text \<open>Moving a response takes its session along: what is left of it has no session to ask for the body, and no hook.\<close>

theorem moved_response_empty:
  "resp_session (snd (response_move r)) = None \<and> resp_hook (snd (response_move r)) = None \<and>
   response_body_full env (snd (response_move r)) cl = None \<and>
   response_body_full env (fst (response_assign False r' r)) cl = response_body_full env r cl"
  by (simp add: response_move_def response_assign_def moved_response_def response_body_full_def)

text \<open>A body that was read gives its session back once: asking again changes neither the pool nor the response.\<close>

theorem released_once:
  assumes "response_body_full env r cl = Some (res, r1, cl1)" "response_body_full env r1 cl1 = Some (res2, r2, cl2)"
  shows "session_pool cl2 = session_pool cl1 \<and> r2 = r1"
proof -
  have "resp_consumed r1" using assms(1)
    by (auto simp: response_body_full_def Let_def split: option.splits prod.splits if_splits)
  then show ?thesis using assms(2)
    by (auto simp: response_body_full_def Let_def set_conn_def split: option.splits prod.splits if_splits)
qed

text \<open>
  When the host closes the connection instead of answering, also if it did so while the session was idle and the end arrives only after the
  session was taken from the pool, the exchange succeeds with a response of status 0 without headers and body. The connection is not used
  again.
\<close>

theorem closed_instead:
  assumes "ready key idle cl" "env_connect env key = Inr fresh" "conn_is_valid fresh" "client_key req proxy_config = key"
    and "env_write env (serialize_to_h1 (env_native env) req) = Inr n" "env_peer env (serialize_to_h1 (env_native env) req) = [Inr []]"
  shows "\<exists>cl'. exchange env proxy_config req cl = Some (Inr (empty_head, []), cl') \<and> ready key None cl'"
proof -
  have "\<exists>head c1 c2. conn_request (env_exec env) (env_reset env) (env_native env) (env_write env) (env_peer env)
        (request_move (request_move req)) c = (Inr head, c1) \<and> head_status head = \<lparr>status_code = 0, status_message = []\<rparr> \<and>
      head_headers head = [] \<and> conn_body_full (env_exec env) c1 = (Inr [], c2) \<and> (conn_is_valid c2 \<longleftrightarrow> False)"
    if "conn_is_valid c" for c :: "'a h1_conn"
    using that assms(5,6)
    by (simp add: conn_request_def conn_is_valid_def conn_body_full_def h1_request_def h1_body_full_def reset_state_def empty_head_def
        serialize_moved)
  from exchange_conn [OF assms(1-4) this] show ?thesis by (auto simp: empty_head_def)
qed

end
