(* ===== verification/Tasks.thy ===== *)
theory Tasks
  imports Ppnt_Prelude
begin

text \<open>
  Tasks (\<open>task.ixx\<close>) and the functions that run them (\<open>runtime.ixx\<close>). A coroutine is what it does next: it ends with a value or an
  exception, it suspends for an operation of the driver and goes on with its result, or it awaits a task and goes on with its value or
  its exception. The frames of the coroutines, with their promises, are objects in a store; what C++ does with a promise at each point
  is a step of a machine over this store.
\<close>

section \<open>Coroutines\<close>

datatype ('q, 'r, 'v) coro =
    Return 'v
  | Throw string
  | Suspend 'q "'r \<Rightarrow> ('q, 'r, 'v) coro"
  | Await "('q, 'r, 'v) coro" "string + 'v \<Rightarrow> ('q, 'r, 'v) coro"

text \<open>
  What a coroutine would do as an ordinary function, with the results \<open>rs\<close> of the operations: the operations it asks for, its value or
  exception unless the results do not suffice, and the results that are left.
\<close>

primrec direct :: "('q, 'r, 'v) coro \<Rightarrow> 'r list \<Rightarrow> 'q list \<times> (string + 'v) option \<times> 'r list" where
  "direct (Return v) = (\<lambda>rs. ([], Some (Inr v), rs))"
| "direct (Throw e) = (\<lambda>rs. ([], Some (Inl e), rs))"
| "direct (Suspend q k) = (\<lambda>rs. case rs of
      [] \<Rightarrow> ([q], None, [])
    | r # rs \<Rightarrow> (case direct (k r) rs of (qs, x, rs) \<Rightarrow> (q # qs, x, rs)))"
| "direct (Await c k) = (\<lambda>rs. case direct c rs of
      (qs, None, rs) \<Rightarrow> (qs, None, rs)
    | (qs, Some x, rs) \<Rightarrow> (case direct (k x) rs of (qs', y, rs) \<Rightarrow> (qs @ qs', y, rs)))"

section \<open>Promises and frames\<close>

datatype ('q, 'r, 'v) resume_point =
    Initial "('q, 'r, 'v) coro" | At_operation "'r \<Rightarrow> ('q, 'r, 'v) coro" | At_await nat "string + 'v \<Rightarrow> ('q, 'r, 'v) coro"
  | Final

record ('q, 'r, 'v) frame =
  resume_point :: "('q, 'r, 'v) resume_point"
  promise_value :: "'v option"
  promise_parent :: "nat option"
  promise_exception :: "string option"

definition new_frame :: "('q, 'r, 'v) coro \<Rightarrow> ('q, 'r, 'v) frame" where
  "new_frame c = \<lparr>resume_point = Initial c, promise_value = None, promise_parent = None, promise_exception = None\<rparr>"

definition return_value :: "'v \<Rightarrow> ('q, 'r, 'v) frame \<Rightarrow> ('q, 'r, 'v) frame" where
  "return_value v f = f\<lparr>promise_value := Some v\<rparr>"

definition unhandled_exception :: "string \<Rightarrow> ('q, 'r, 'v) frame \<Rightarrow> ('q, 'r, 'v) frame" where
  "unhandled_exception e f = f\<lparr>promise_exception := Some e\<rparr>"

text \<open>\<open>get_value\<close> rethrows the exception, and \<open>value()\<close> of an empty optional throws one itself.\<close>

definition get_value :: "('q, 'r, 'v) frame \<Rightarrow> string + 'v" where
  "get_value f = (case promise_exception f of
      Some e \<Rightarrow> Inl e
    | None \<Rightarrow> (case promise_value f of Some v \<Rightarrow> Inr v | None \<Rightarrow> Inl ''bad_optional_access''))"

definition handle_done :: "('q, 'r, 'v) frame \<Rightarrow> bool" where
  "handle_done f \<longleftrightarrow> (case resume_point f of Final \<Rightarrow> True | _ \<Rightarrow> False)"

section \<open>The machine\<close>

text \<open>
  Control is with a coroutine, at the final suspension of one, nowhere while the driver waits for the result of an operation, or back at
  the caller of \<open>resume\<close>. The identifiers of frames are not reused; \<open>destroyed\<close> has those that were destroyed, in order.
\<close>

datatype ('q, 'r, 'v) control = Executing nat "('q, 'r, 'v) coro" | Completed nat | Waiting nat | Resumer

record ('q, 'r, 'v) machine =
  frames :: "nat \<Rightarrow> ('q, 'r, 'v) frame option"
  fresh :: nat
  control :: "('q, 'r, 'v) control"
  results :: "'r list"
  requests :: "'q list"
  destroyed :: "nat list"

definition set_frame :: "nat \<Rightarrow> ('q, 'r, 'v) frame \<Rightarrow> ('q, 'r, 'v) machine \<Rightarrow> ('q, 'r, 'v) machine" where
  "set_frame h f m = m\<lparr>frames := (frames m)(h \<mapsto> f)\<rparr>"

definition destroy_frame :: "nat \<Rightarrow> ('q, 'r, 'v) machine \<Rightarrow> ('q, 'r, 'v) machine" where
  "destroy_frame h m = m\<lparr>frames := (frames m)(h := None), destroyed := destroyed m @ [h]\<rparr>"

text \<open>The awaiter of a task: it makes the awaiting coroutine the parent and transfers control to the task.\<close>

definition await_task :: "nat \<Rightarrow> ('q, 'r, 'v) frame \<Rightarrow> ('q, 'r, 'v) coro \<Rightarrow> (string + 'v \<Rightarrow> ('q, 'r, 'v) coro) \<Rightarrow>
    ('q, 'r, 'v) machine \<Rightarrow> ('q, 'r, 'v) machine" where
  "await_task h f c k m = (let n = fresh m in
     (set_frame n ((new_frame c)\<lparr>promise_parent := Some h\<rparr>) (set_frame h (f\<lparr>resume_point := At_await n k\<rparr>) m))
       \<lparr>fresh := Suc n, control := Executing n c\<rparr>)"

text \<open>
  The parent goes on after its task: \<open>await_resume\<close> reads the promise, and the destructor of the awaiter destroys the frame of the task.
\<close>

definition resume_parent :: "nat \<Rightarrow> ('q, 'r, 'v) machine \<Rightarrow> ('q, 'r, 'v) machine outcome" where
  "resume_parent p m = (case frames m p of
      Some f \<Rightarrow> (case resume_point f of
          At_await n k \<Rightarrow> (case frames m n of
              Some g \<Rightarrow> Ok ((destroy_frame n m)\<lparr>control := Executing p (k (get_value g))\<rparr>)
            | None \<Rightarrow> Undefined)
        | _ \<Rightarrow> Undefined)
    | None \<Rightarrow> Undefined)"

text \<open>\<open>None\<close>: there is nothing to do, or no result yet. To resume or read a frame that does not exist is undefined.\<close>

definition task_step :: "('q, 'r, 'v) machine \<Rightarrow> ('q, 'r, 'v) machine outcome option" where
  "task_step m = (case control m of
      Executing h c \<Rightarrow> Some (case frames m h of
          None \<Rightarrow> Undefined
        | Some f \<Rightarrow> (case c of
              Return v \<Rightarrow> Ok ((set_frame h ((return_value v f)\<lparr>resume_point := Final\<rparr>) m)\<lparr>control := Completed h\<rparr>)
            | Throw e \<Rightarrow> Ok ((set_frame h ((unhandled_exception e f)\<lparr>resume_point := Final\<rparr>) m)\<lparr>control := Completed h\<rparr>)
            | Suspend q k \<Rightarrow> Ok ((set_frame h (f\<lparr>resume_point := At_operation k\<rparr>) m)\<lparr>control := Waiting h, requests := requests m @ [q]\<rparr>)
            | Await c k \<Rightarrow> Ok (await_task h f c k m)))
    | Completed h \<Rightarrow> Some (case frames m h of
          None \<Rightarrow> Undefined
        | Some f \<Rightarrow> (case promise_parent f of None \<Rightarrow> Ok (m\<lparr>control := Resumer\<rparr>) | Some p \<Rightarrow> resume_parent p m))
    | Waiting h \<Rightarrow> (case results m of
          [] \<Rightarrow> None
        | r # rs \<Rightarrow> Some (case frames m h of
              Some f \<Rightarrow> (case resume_point f of
                  At_operation k \<Rightarrow> Ok (m\<lparr>control := Executing h (k r), results := rs\<rparr>)
                | _ \<Rightarrow> Undefined)
            | None \<Rightarrow> Undefined))
    | Resumer \<Rightarrow> None)"

fun task_run :: "nat \<Rightarrow> ('q, 'r, 'v) machine \<Rightarrow> ('q, 'r, 'v) machine outcome" where
  "task_run 0 m = Ok m"
| "task_run (Suc n) m = (case task_step m of
      None \<Rightarrow> Ok m
    | Some (Ok m) \<Rightarrow> task_run n m
    | Some Terminated \<Rightarrow> Terminated
    | Some Undefined \<Rightarrow> Undefined)"

text \<open>
  \<open>block_on\<close> before its loop, and its end when the task is done. The frame of a task that ended with an exception is not destroyed:
  \<open>get_value\<close> throws before \<open>block_on\<close> comes to it.
\<close>

definition block_on_begin :: "('q, 'r, 'v) coro \<Rightarrow> 'r list \<Rightarrow> ('q, 'r, 'v) machine" where
  "block_on_begin c rs = \<lparr>frames = [0 \<mapsto> new_frame c], fresh = 1, control = Executing 0 c, results = rs, requests = [], destroyed = []\<rparr>"

definition block_on_end :: "('q, 'r, 'v) machine \<Rightarrow> ((string + 'v) \<times> ('q, 'r, 'v) machine) outcome" where
  "block_on_end m = (case frames m 0 of
      Some f \<Rightarrow>
        if handle_done f then Ok (case get_value f of Inl e \<Rightarrow> (Inl e, m) | Inr v \<Rightarrow> (Inr v, destroy_frame 0 m)) else Undefined
    | None \<Rightarrow> Undefined)"

section \<open>Tasks are functions\<close>

definition moves :: "('q, 'r, 'v) machine \<Rightarrow> ('q, 'r, 'v) machine \<Rightarrow> bool" where
  "moves m m' \<longleftrightarrow> task_step m = Some (Ok m')"

lemma moves_run: "moves\<^sup>*\<^sup>* m m' \<Longrightarrow> \<exists>n. task_run n m = Ok m'"
proof (induction rule: converse_rtranclp_induct)
  case base
  show ?case by (intro exI [of _ 0]) simp
next
  case (step m1 m2)
  then obtain n where "task_run n m2 = Ok m'" by blast
  then show ?case using step.hyps(1) by (intro exI [of _ "Suc n"]) (simp add: moves_def)
qed

text \<open>
  From a machine that executes \<open>c\<close> in the frame \<open>h\<close>: the machine after it, with the frames it made destroyed.
\<close>

definition finishes :: "nat \<Rightarrow> ('q, 'r, 'v) frame \<Rightarrow> 'q list \<Rightarrow> string + 'v \<Rightarrow> 'r list \<Rightarrow> ('q, 'r, 'v) machine \<Rightarrow> ('q, 'r, 'v) machine \<Rightarrow> bool" where
  "finishes h f qs x rs m m' \<longleftrightarrow> (\<exists>g ds. frames m' = (frames m)(h \<mapsto> g) \<and> resume_point g = Final \<and> get_value g = x \<and>
     promise_parent g = promise_parent f \<and> control m' = Completed h \<and> results m' = rs \<and> requests m' = requests m @ qs \<and>
     fresh m \<le> fresh m' \<and> destroyed m' = destroyed m @ ds \<and> distinct ds \<and> set ds = {fresh m..<fresh m'})"

definition ready :: "nat \<Rightarrow> ('q, 'r, 'v) frame \<Rightarrow> ('q, 'r, 'v) coro \<Rightarrow> 'r list \<Rightarrow> ('q, 'r, 'v) machine \<Rightarrow> bool" where
  "ready h f c rs m \<longleftrightarrow> frames m h = Some f \<and> promise_value f = None \<and> promise_exception f = None \<and> h < fresh m \<and>
     (\<forall>i\<ge>fresh m. frames m i = None) \<and> control m = Executing h c \<and> results m = rs"

definition waits :: "'q list \<Rightarrow> ('q, 'r, 'v) machine \<Rightarrow> ('q, 'r, 'v) machine \<Rightarrow> bool" where
  "waits qs m m' \<longleftrightarrow> (\<exists>i. control m' = Waiting i) \<and> results m' = [] \<and> requests m' = requests m @ qs"

lemma insert_interval: "a < b \<Longrightarrow> insert a {Suc a..<b} = {a..<b}"
  by auto

lemma finishesI:
  assumes "frames m' = (frames m)(h \<mapsto> g)" "resume_point g = Final" "get_value g = x" "promise_parent g = promise_parent f"
    "control m' = Completed h" "results m' = rs" "requests m' = requests m @ qs" "fresh m \<le> fresh m'"
    "destroyed m' = destroyed m @ ds" "distinct ds" "set ds = {fresh m..<fresh m'}"
  shows "finishes h f qs x rs m m'"
  using assms unfolding finishes_def by blast

lemma finishesE:
  assumes "finishes h f qs x rs m m'"
  obtains g ds where "frames m' = (frames m)(h \<mapsto> g)" "resume_point g = Final" "get_value g = x" "promise_parent g = promise_parent f"
    "control m' = Completed h" "results m' = rs" "requests m' = requests m @ qs" "fresh m \<le> fresh m'"
    "destroyed m' = destroyed m @ ds" "distinct ds" "set ds = {fresh m..<fresh m'}"
  using assms unfolding finishes_def by blast

lemma return_finishes:
  assumes "ready h f (Return v) rs m"
  shows "\<exists>m'. moves m m' \<and> finishes h f [] (Inr v) rs m m'"
proof -
  let ?m = "(set_frame h ((return_value v f)\<lparr>resume_point := Final\<rparr>) m)\<lparr>control := Completed h\<rparr>"
  have "moves m ?m" using assms by (simp add: ready_def moves_def task_step_def)
  moreover have "finishes h f [] (Inr v) rs m ?m"
    using assms by (intro finishesI [where g = "(return_value v f)\<lparr>resume_point := Final\<rparr>" and ds = "[]"])
      (simp_all add: ready_def set_frame_def return_value_def get_value_def)
  ultimately show ?thesis by blast
qed

lemma throw_finishes:
  assumes "ready h f (Throw e) rs m"
  shows "\<exists>m'. moves m m' \<and> finishes h f [] (Inl e) rs m m'"
proof -
  let ?m = "(set_frame h ((unhandled_exception e f)\<lparr>resume_point := Final\<rparr>) m)\<lparr>control := Completed h\<rparr>"
  have "moves m ?m" using assms by (simp add: ready_def moves_def task_step_def)
  moreover have "finishes h f [] (Inl e) rs m ?m"
    using assms by (intro finishesI [where g = "(unhandled_exception e f)\<lparr>resume_point := Final\<rparr>" and ds = "[]"])
      (simp_all add: ready_def set_frame_def unhandled_exception_def get_value_def)
  ultimately show ?thesis by blast
qed

lemma suspend_waits:
  assumes "ready h f (Suspend q k) rs m"
  obtains m1 where "moves m m1" "control m1 = Waiting h" "frames m1 = (frames m)(h \<mapsto> f\<lparr>resume_point := At_operation k\<rparr>)"
    "fresh m1 = fresh m" "results m1 = rs" "requests m1 = requests m @ [q]" "destroyed m1 = destroyed m"
proof
  let ?m = "(set_frame h (f\<lparr>resume_point := At_operation k\<rparr>) m)\<lparr>control := Waiting h, requests := requests m @ [q]\<rparr>"
  show "moves m ?m" using assms by (simp add: ready_def moves_def task_step_def)
qed (use assms in \<open>simp_all add: ready_def set_frame_def\<close>)

lemma await_starts:
  assumes "ready h f (Await c k) rs m"
  obtains m1 where "moves m m1" "ready (fresh m) ((new_frame c)\<lparr>promise_parent := Some h\<rparr>) c rs m1"
    "frames m1 = (frames m)(h \<mapsto> f\<lparr>resume_point := At_await (fresh m) k\<rparr>, fresh m \<mapsto> (new_frame c)\<lparr>promise_parent := Some h\<rparr>)"
    "fresh m1 = Suc (fresh m)" "requests m1 = requests m" "destroyed m1 = destroyed m"
proof
  show "moves m (await_task h f c k m)" using assms by (simp add: ready_def moves_def task_step_def)
qed (use assms in \<open>simp_all add: ready_def await_task_def set_frame_def new_frame_def Let_def\<close>)

lemma await_resumes:
  assumes m2: "control m2 = Completed n" "frames m2 n = Some g" "promise_parent g = Some h" "frames m2 h = Some f"
    "resume_point f = At_await n k"
  shows "moves m2 ((destroy_frame n m2)\<lparr>control := Executing h (k (get_value g))\<rparr>)"
  using assms by (simp add: moves_def task_step_def resume_parent_def)

lemma suspend_resumes:
  assumes "ready h f (Suspend q k) (r # rs) m"
  obtains m2 where "moves\<^sup>*\<^sup>* m m2" "ready h (f\<lparr>resume_point := At_operation k\<rparr>) (k r) rs m2"
    "frames m2 = (frames m)(h \<mapsto> f\<lparr>resume_point := At_operation k\<rparr>)"
    "fresh m2 = fresh m" "requests m2 = requests m @ [q]" "destroyed m2 = destroyed m"
proof -
  obtain m1 where m1: "moves m m1" "control m1 = Waiting h" "frames m1 = (frames m)(h \<mapsto> f\<lparr>resume_point := At_operation k\<rparr>)"
    "fresh m1 = fresh m" "results m1 = r # rs" "requests m1 = requests m @ [q]" "destroyed m1 = destroyed m"
    by (rule suspend_waits [OF assms])
  let ?m2 = "m1\<lparr>control := Executing h (k r), results := rs\<rparr>"
  have "moves m1 ?m2" using m1 by (simp add: moves_def task_step_def)
  then have "moves\<^sup>*\<^sup>* m ?m2" using m1(1) by (meson converse_rtranclp_into_rtranclp rtranclp.rtrancl_refl)
  moreover have "ready h (f\<lparr>resume_point := At_operation k\<rparr>) (k r) rs ?m2" using assms m1 by (simp add: ready_def)
  ultimately show ?thesis using that [of ?m2] m1 by simp
qed

lemma finishes_after:
  assumes fin: "finishes h f2 qs y rs m2 m3"
    and m2: "frames m2 = (frames m)(h \<mapsto> f2)" "promise_parent f2 = promise_parent f" "requests m2 = requests m @ asked"
      "destroyed m2 = destroyed m @ gone" "distinct gone" "set gone = {fresh m..<fresh m2}" "fresh m \<le> fresh m2"
  shows "finishes h f (asked @ qs) y rs m m3"
proof -
  obtain g ds where g: "frames m3 = (frames m2)(h \<mapsto> g)" "resume_point g = Final" "get_value g = y" "promise_parent g = promise_parent f2"
    "control m3 = Completed h" "results m3 = rs" "requests m3 = requests m2 @ qs" "fresh m2 \<le> fresh m3"
    "destroyed m3 = destroyed m2 @ ds" "distinct ds" "set ds = {fresh m2..<fresh m3}"
    using fin by (rule finishesE)
  show ?thesis
  proof (rule finishesI [where g = g])
    show "set (gone @ ds) = {fresh m..<fresh m3}" using m2(6,7) g(8,11) by auto
    show "distinct (gone @ ds)" using m2(5,6) g(10,11) by auto
  qed (use g m2 in simp_all)
qed

text \<open>The end of an awaited task: its parent goes on, and the frames made since the parent stopped are gone.\<close>

lemma await_finished:
  assumes h: "h < fresh m" "\<forall>i\<ge>fresh m. frames m i = None" "promise_value f = None" "promise_exception f = None"
    and m1: "frames m1 = (frames m)(h \<mapsto> f\<lparr>resume_point := At_await (fresh m) k\<rparr>, fresh m \<mapsto> (new_frame c)\<lparr>promise_parent := Some h\<rparr>)"
      "fresh m1 = Suc (fresh m)" "requests m1 = requests m" "destroyed m1 = destroyed m"
    and m2: "finishes (fresh m) ((new_frame c)\<lparr>promise_parent := Some h\<rparr>) qs y rs m1 m2"
  obtains m3 gone where "moves m2 m3" "ready h (f\<lparr>resume_point := At_await (fresh m) k\<rparr>) (k y) rs m3"
    "frames m3 = (frames m)(h \<mapsto> f\<lparr>resume_point := At_await (fresh m) k\<rparr>)" "requests m3 = requests m @ qs"
    "destroyed m3 = destroyed m @ gone" "distinct gone" "set gone = {fresh m..<fresh m3}" "fresh m \<le> fresh m3"
proof -
  let ?n = "fresh m" and ?f = "f\<lparr>resume_point := At_await (fresh m) k\<rparr>"
  obtain g ds where g: "frames m2 = (frames m1)(?n \<mapsto> g)" "get_value g = y" "promise_parent g = Some h"
    "control m2 = Completed ?n" "results m2 = rs" "requests m2 = requests m1 @ qs" "fresh m1 \<le> fresh m2"
    "destroyed m2 = destroyed m1 @ ds" "distinct ds" "set ds = {fresh m1..<fresh m2}"
    using m2 by (rule finishesE) simp
  let ?m3 = "(destroy_frame ?n m2)\<lparr>control := Executing h (k y)\<rparr>"
  have hn: "h \<noteq> ?n" "frames m ?n = None" using h(1,2) by auto
  have f3: "frames ?m3 = (frames m)(h \<mapsto> ?f)" using g(1) m1(1) hn by (auto simp: destroy_frame_def)
  show thesis
  proof (rule that [of ?m3 "ds @ [?n]"])
    show "moves m2 ?m3" using await_resumes [of m2 ?n g h ?f k] g m1(1) hn by simp
    show "ready h ?f (k y) rs ?m3" using h f3 g(5,7) m1(2) by (simp add: ready_def destroy_frame_def)
    show "distinct (ds @ [?n])" using g(9,10) m1(2) by simp
    show "set (ds @ [?n]) = {fresh m..<fresh ?m3}" using g(7,10) m1(2) by (simp add: destroy_frame_def insert_interval)
  qed (use f3 g m1 in \<open>simp_all add: destroy_frame_def\<close>)
qed

lemma machine_direct:
  "direct c rs = (qs, x, rs') \<Longrightarrow> ready h f c rs m \<Longrightarrow>
    \<exists>m'. moves\<^sup>*\<^sup>* m m' \<and> (case x of None \<Rightarrow> waits qs m m' \<and> rs' = [] | Some y \<Rightarrow> finishes h f qs y rs' m m')"
proof (induction c arbitrary: rs qs x rs' h f m)
  case (Return v)
  then show ?case using return_finishes [OF Return.prems(2)] by auto
next
  case (Throw e)
  then show ?case using throw_finishes [OF Throw.prems(2)] by auto
next
  case (Suspend q k)
  show ?case
  proof (cases rs)
    case Nil
    then show ?thesis using suspend_waits [OF Suspend.prems(2)] Suspend.prems(1) by (auto simp: waits_def) (metis r_into_rtranclp)
  next
    case (Cons r rs1)
    obtain qs1 where d: "direct (k r) rs1 = (qs1, x, rs')" "qs = q # qs1"
      using Suspend.prems(1) Cons by (auto split: prod.splits)
    obtain m2 where m2: "moves\<^sup>*\<^sup>* m m2" "ready h (f\<lparr>resume_point := At_operation k\<rparr>) (k r) rs1 m2"
      "frames m2 = (frames m)(h \<mapsto> f\<lparr>resume_point := At_operation k\<rparr>)"
      "fresh m2 = fresh m" "requests m2 = requests m @ [q]" "destroyed m2 = destroyed m"
      using suspend_resumes Suspend.prems(2) unfolding Cons by metis
    obtain m3 where m3: "moves\<^sup>*\<^sup>* m2 m3" "case x of None \<Rightarrow> waits qs1 m2 m3 \<and> rs' = []
        | Some y \<Rightarrow> finishes h (f\<lparr>resume_point := At_operation k\<rparr>) qs1 y rs' m2 m3"
      using Suspend.IH [OF rangeI d(1) m2(2)] by blast
    have "finishes h f ([q] @ qs1) y rs' m m3" if "finishes h (f\<lparr>resume_point := At_operation k\<rparr>) qs1 y rs' m2 m3" for y
      by (rule finishes_after [OF that m2(3), where gone = "[]"]) (use m2 in simp_all)
    moreover have "waits qs m m3" if "waits qs1 m2 m3" using that m2(5) d(2) by (simp add: waits_def)
    ultimately show ?thesis using m2(1) m3 d(2) by (intro exI [of _ m3]) (auto split: option.splits)
  qed
next
  case (Await c k)
  let ?n = "fresh m" and ?f = "f\<lparr>resume_point := At_await (fresh m) k\<rparr>"
  obtain m1 where m1: "moves m m1" "ready ?n ((new_frame c)\<lparr>promise_parent := Some h\<rparr>) c rs m1"
    "frames m1 = (frames m)(h \<mapsto> ?f, ?n \<mapsto> (new_frame c)\<lparr>promise_parent := Some h\<rparr>)"
    "fresh m1 = Suc ?n" "requests m1 = requests m" "destroyed m1 = destroyed m"
    by (rule await_starts [OF Await.prems(2)])
  obtain qs1 x1 rs1 where d1: "direct c rs = (qs1, x1, rs1)" by (metis prod_cases3)
  obtain m2 where m2: "moves\<^sup>*\<^sup>* m1 m2" "case x1 of None \<Rightarrow> waits qs1 m1 m2 \<and> rs1 = []
      | Some y \<Rightarrow> finishes ?n ((new_frame c)\<lparr>promise_parent := Some h\<rparr>) qs1 y rs1 m1 m2"
    using Await.IH(1) [OF d1 m1(2)] by blast
  show ?case
  proof (cases x1)
    case None
    then have "waits qs m m2" "x = None" "rs' = []" using m2(2) m1(5) d1 Await.prems(1) by (auto simp: waits_def)
    then show ?thesis using m1(1) m2(1) by (intro exI [of _ m2]) auto
  next
    case (Some y)
    obtain qs2 where d2: "direct (k y) rs1 = (qs2, x, rs')" "qs = qs1 @ qs2"
      using Await.prems(1) d1 Some by (auto split: prod.splits)
    have fin: "finishes ?n ((new_frame c)\<lparr>promise_parent := Some h\<rparr>) qs1 y rs1 m1 m2" using m2(2) Some by simp
    have r: "h < fresh m" "\<forall>i\<ge>fresh m. frames m i = None" "promise_value f = None" "promise_exception f = None"
      using Await.prems(2) by (simp_all add: ready_def)
    obtain m3 gone where m3: "moves m2 m3" "ready h ?f (k y) rs1 m3" "frames m3 = (frames m)(h \<mapsto> ?f)"
      "requests m3 = requests m @ qs1" "destroyed m3 = destroyed m @ gone" "distinct gone" "set gone = {fresh m..<fresh m3}"
      "fresh m \<le> fresh m3"
      by (rule await_finished [OF r m1(3-6) fin])
    obtain m4 where m4: "moves\<^sup>*\<^sup>* m3 m4" "case x of None \<Rightarrow> waits qs2 m3 m4 \<and> rs' = [] | Some y \<Rightarrow> finishes h ?f qs2 y rs' m3 m4"
      using Await.IH(2) [OF rangeI d2(1) m3(2)] by blast
    have "finishes h f (qs1 @ qs2) z rs' m m4" if "finishes h ?f qs2 z rs' m3 m4" for z
      by (rule finishes_after [OF that m3(3) _ m3(4-8)]) simp
    moreover have "waits qs m m4" if "waits qs2 m3 m4" using that m3(4) d2(2) by (simp add: waits_def)
    moreover have "moves\<^sup>*\<^sup>* m m4" using m1(1) m2(1) m3(1) m4(1)
      by (meson converse_rtranclp_into_rtranclp rtranclp_trans)
    ultimately show ?thesis using m4(2) d2(2) by (intro exI [of _ m4]) (auto split: option.splits)
  qed
qed

lemma block_on_end_done:
  assumes "frames m = [0 \<mapsto> g]" "resume_point g = Final" "get_value g = y"
    and "destroyed m = ds" "set ds = {1..<fresh m}" "distinct ds" "1 \<le> fresh m"
  shows "\<exists>m'. block_on_end m = Ok (y, m') \<and> distinct (destroyed m') \<and>
    dom (frames m') = (if isl y then {0} else {}) \<and> set (destroyed m') = {0..<fresh m'} - dom (frames m')"
proof (cases y)
  case (Inl e)
  then have "block_on_end m = Ok (y, m)" using assms by (simp add: block_on_end_def handle_done_def)
  then show ?thesis using assms Inl by auto
next
  case (Inr v)
  then have "block_on_end m = Ok (y, destroy_frame 0 m)" using assms by (simp add: block_on_end_def handle_done_def)
  then show ?thesis using assms Inr by (auto simp: destroy_frame_def)
qed

text \<open>C11: Awaiting tasks is calling functions. A task that \<open>block_on\<close> runs asks for the operations that the same code would ask for with a
  function call in place of each \<open>co_await\<close>, in the same order, and has the same value or exception; while there is no result for an
  operation it waits. Each frame is destroyed, once, and none is used after that; only the frame of a task that \<open>block_on\<close> itself runs
  and that ends with an exception is left.\<close>

theorem block_on_direct:
  assumes "direct c rs = (qs, x, rs')"
  shows "\<exists>n m. task_run n (block_on_begin c rs) = Ok m \<and> requests m = qs \<and> results m = rs' \<and>
    (case x of
       None \<Rightarrow> (\<exists>h. control m = Waiting h) \<and> rs' = []
     | Some y \<Rightarrow> control m = Resumer \<and> (\<exists>m'. block_on_end m = Ok (y, m') \<and> distinct (destroyed m') \<and>
         dom (frames m') = (if isl y then {0} else {}) \<and> set (destroyed m') = {0..<fresh m'} - dom (frames m')))"
proof -
  let ?m = "block_on_begin c rs"
  have "ready 0 (new_frame c) c rs ?m" by (simp add: ready_def block_on_begin_def new_frame_def)
  from machine_direct [OF assms this] obtain m1 where
    m1: "moves\<^sup>*\<^sup>* ?m m1" "case x of None \<Rightarrow> waits qs ?m m1 \<and> rs' = [] | Some y \<Rightarrow> finishes 0 (new_frame c) qs y rs' ?m m1" by blast
  show ?thesis
  proof (cases x)
    case None
    obtain n where "task_run n ?m = Ok m1" using moves_run [OF m1(1)] by blast
    moreover have "requests m1 = qs" "results m1 = rs'" "\<exists>h. control m1 = Waiting h" "rs' = []"
      using m1(2) None by (simp_all add: waits_def block_on_begin_def)
    ultimately show ?thesis unfolding None option.case by blast
  next
    case (Some y)
    have "finishes 0 (new_frame c) qs y rs' ?m m1" using m1(2) Some by simp
    then obtain g ds where g: "frames m1 = (frames ?m)(0 \<mapsto> g)" "resume_point g = Final" "get_value g = y"
      "promise_parent g = promise_parent (new_frame c)" "control m1 = Completed 0" "results m1 = rs'" "requests m1 = requests ?m @ qs"
      "fresh ?m \<le> fresh m1" "destroyed m1 = destroyed ?m @ ds" "distinct ds" "set ds = {fresh ?m..<fresh m1}"
      by (rule finishesE)
    let ?m2 = "m1\<lparr>control := Resumer\<rparr>"
    have "moves m1 ?m2" using g by (simp add: moves_def task_step_def new_frame_def)
    then have "moves\<^sup>*\<^sup>* ?m ?m2" using m1(1) by simp
    then obtain n where n: "task_run n ?m = Ok ?m2" using moves_run by blast
    have f: "frames ?m2 = [0 \<mapsto> g]" "destroyed ?m2 = ds" "set ds = {1..<fresh ?m2}" "distinct ds" "1 \<le> fresh ?m2"
      using g(1,8-11) by (simp_all add: block_on_begin_def)
    have r: "requests ?m2 = qs" "results ?m2 = rs'" "control ?m2 = Resumer" using g(6,7) by (simp_all add: block_on_begin_def)
    show ?thesis unfolding Some option.case using n block_on_end_done [OF f(1) g(2,3) f(2-5)] r by blast
  qed
qed

text \<open>A task that asks for two operations, one of them in a task it awaits, which throws.\<close>

definition sample_task :: "(nat, nat, nat) coro" where
  "sample_task = Suspend 1 (\<lambda>r. Await (Suspend 2 (\<lambda>s. Throw ''late'')) (\<lambda>x. case x of Inl e \<Rightarrow> Return (r + length e) | Inr v \<Rightarrow> Return v))"

theorem block_on_direct_witness:
  "\<exists>n m. task_run n (block_on_begin sample_task [10, 20]) = Ok m \<and> requests m = [1, 2] \<and> results m = [] \<and>
    control m = Resumer \<and> (\<exists>m'. block_on_end m = Ok (Inr 14, m') \<and> distinct (destroyed m') \<and>
      dom (frames m') = {} \<and> set (destroyed m') = {0..<fresh m'} - dom (frames m'))"
proof -
  have "direct sample_task [10, 20] = ([1, 2], Some (Inr 14), [])" by (simp add: sample_task_def)
  from block_on_direct [OF this] show ?thesis by simp
qed

section \<open>Spawned tasks\<close>

text \<open>
  A spawned task, seen from outside. It runs until it waits for an operation (\<open>child_pending\<close>) or ends (\<open>child_result\<close>). Its frame is
  held by a \<open>JoinHandle\<close>, by the awaiter of the coroutine that joins it (\<open>child_parent\<close>), or by nobody. \<open>joined\<close> are the values
  given to joining coroutines, \<open>destroys\<close> counts how often the frame was destroyed.
\<close>

record 'v spawned =
  child_alive :: bool
  child_pending :: bool
  child_result :: "(string + 'v) option"
  child_parent :: bool
  join_handle :: bool
  joined :: "(string + 'v) list"
  destroys :: nat

definition spawn :: "(string + 'v) option \<Rightarrow> 'v spawned" where
  "spawn r = \<lparr>child_alive = True, child_pending = (r = None), child_result = r, child_parent = False, join_handle = True,
     joined = [], destroys = 0\<rparr>"

definition destroy_child :: "'v spawned \<Rightarrow> 'v spawned" where
  "destroy_child s = s\<lparr>child_alive := False, destroys := Suc (destroys s)\<rparr>"

text \<open>
  The events: an operation of the task completes, and the task waits for the next one or ends; the handle is awaited; it is destroyed or
  assigned to; it is given up with \<open>take_handle\<close>.
\<close>

datatype 'v spawn_event = Operation_done "(string + 'v) option" | Join | Drop | Take

fun spawn_step :: "'v spawn_event \<Rightarrow> 'v spawned \<Rightarrow> 'v spawned outcome option" where
  "spawn_step (Operation_done r) s =
    (if \<not> child_pending s then None
     else if \<not> child_alive s then Some Undefined
     else (case r of
         None \<Rightarrow> Some (Ok s)
       | Some x \<Rightarrow>
           let s = s\<lparr>child_pending := False, child_result := Some x\<rparr> in
           Some (Ok (if child_parent s then destroy_child (s\<lparr>child_parent := False, joined := joined s @ [x]\<rparr>) else s))))"
| "spawn_step Join s =
    (if \<not> join_handle s then Some Undefined
     else let s = s\<lparr>join_handle := False\<rparr> in
       Some (Ok (case child_result s of
           Some x \<Rightarrow> destroy_child (s\<lparr>joined := joined s @ [x]\<rparr>)
         | None \<Rightarrow> s\<lparr>child_parent := True\<rparr>)))"
| "spawn_step Drop s = Some (Ok (if join_handle s then destroy_child (s\<lparr>join_handle := False\<rparr>) else s))"
| "spawn_step Take s = Some (Ok (s\<lparr>join_handle := False\<rparr>))"

fun spawn_run :: "'v spawn_event list \<Rightarrow> 'v spawned \<Rightarrow> 'v spawned outcome option" where
  "spawn_run [] s = Some (Ok s)"
| "spawn_run (e # es) s = (case spawn_step e s of Some (Ok s) \<Rightarrow> spawn_run es s | r \<Rightarrow> r)"

definition spawned_inv :: "'v spawned \<Rightarrow> bool" where
  "spawned_inv s \<longleftrightarrow> (child_pending s \<longleftrightarrow> child_result s = None) \<and> destroys s = (if child_alive s then 0 else 1) \<and>
     (join_handle s \<or> child_parent s \<longrightarrow> child_alive s \<and> joined s = []) \<and> \<not> (join_handle s \<and> child_parent s) \<and>
     (child_parent s \<longrightarrow> child_result s = None) \<and>
     (joined s \<noteq> [] \<longrightarrow> \<not> child_alive s \<and> (\<exists>x. joined s = [x] \<and> child_result s = Some x))"

lemma spawn_inv: "spawned_inv (spawn r)"
  by (auto simp: spawned_inv_def spawn_def)

text \<open>The events that are defined, with their effects.\<close>

lemma spawn_stepE:
  assumes "spawn_step e s = Some (Ok s')"
  obtains "e = Operation_done None" "child_pending s" "child_alive s" "s' = s"
  | x where "e = Operation_done (Some x)" "child_pending s" "child_alive s" "child_parent s"
    "s' = destroy_child (s\<lparr>child_pending := False, child_result := Some x, child_parent := False, joined := joined s @ [x]\<rparr>)"
  | x where "e = Operation_done (Some x)" "child_pending s" "child_alive s" "\<not> child_parent s"
    "s' = s\<lparr>child_pending := False, child_result := Some x\<rparr>"
  | x where "e = Join" "join_handle s" "child_result s = Some x" "s' = destroy_child (s\<lparr>join_handle := False, joined := joined s @ [x]\<rparr>)"
  | "e = Join" "join_handle s" "child_result s = None" "s' = s\<lparr>join_handle := False, child_parent := True\<rparr>"
  | "e = Drop" "join_handle s" "s' = destroy_child (s\<lparr>join_handle := False\<rparr>)"
  | "e = Drop" "\<not> join_handle s" "s' = s"
  | "e = Take" "s' = s\<lparr>join_handle := False\<rparr>"
proof (cases e)
  case (Operation_done r)
  then have p: "child_pending s" "child_alive s" using assms by (simp_all split: if_splits)
  show ?thesis
  proof (cases r)
    case None
    then show ?thesis using assms p Operation_done by (intro that(1)) simp_all
  next
    case (Some x)
    then show ?thesis
    proof (cases "child_parent s")
      case True
      then show ?thesis using assms p Operation_done Some by (intro that(2) [of x]) simp_all
    next
      case False
      then show ?thesis using assms p Operation_done Some by (intro that(3) [of x]) simp_all
    qed
  qed
next
  case Join
  then have j: "join_handle s" using assms by (simp split: if_splits)
  show ?thesis
  proof (cases "child_result s")
    case None
    then show ?thesis using assms j Join by (intro that(5)) simp_all
  next
    case (Some x)
    then show ?thesis using assms j Join by (intro that(4) [of x]) simp_all
  qed
next
  case Drop
  show ?thesis
  proof (cases "join_handle s")
    case True
    then show ?thesis using assms Drop by (intro that(6)) simp_all
  next
    case False
    then show ?thesis using assms Drop by (intro that(7)) simp_all
  qed
next
  case Take
  then show ?thesis using assms by (intro that(8)) simp_all
qed

lemma spawn_step_inv:
  assumes "spawned_inv s" "spawn_step e s = Some (Ok s')"
  shows "spawned_inv s'"
  using assms(2) by (cases rule: spawn_stepE) (use assms(1) in \<open>auto simp: spawned_inv_def destroy_child_def\<close>)

text \<open>Without \<open>Drop\<close> and \<open>Take\<close> the frame is destroyed exactly when its value is handed over.\<close>

definition kept_inv :: "bool \<Rightarrow> 'v spawned \<Rightarrow> bool" where
  "kept_inv awaited s \<longleftrightarrow> (if awaited then \<not> join_handle s \<and> (case child_result s of None \<Rightarrow> child_parent s | Some x \<Rightarrow> joined s = [x])
     else join_handle s)"

lemma kept_step:
  assumes "spawned_inv s" "kept_inv awaited s" "spawn_step e s = Some (Ok s')" "e \<noteq> Drop" "e \<noteq> Take"
  shows "kept_inv (awaited \<or> e = Join) s'"
  using assms(3)
  by (cases rule: spawn_stepE) (use assms in \<open>auto simp: spawned_inv_def kept_inv_def destroy_child_def split: option.splits if_splits\<close>)

lemma spawn_run_inv: "spawned_inv s \<Longrightarrow> spawn_run es s = Some (Ok s') \<Longrightarrow> spawned_inv s'"
proof (induction es arbitrary: s)
  case (Cons e es)
  then obtain s1 where "spawn_step e s = Some (Ok s1)" "spawn_run es s1 = Some (Ok s')"
    by (auto split: option.splits outcome.splits)
  then show ?case using Cons.IH spawn_step_inv [OF Cons.prems(1)] by blast
qed simp

lemma kept_run:
  "spawned_inv s \<Longrightarrow> kept_inv awaited s \<Longrightarrow> spawn_run es s = Some (Ok s') \<Longrightarrow> Drop \<notin> set es \<Longrightarrow> Take \<notin> set es \<Longrightarrow>
    kept_inv (awaited \<or> Join \<in> set es) s'"
proof (induction es arbitrary: s awaited)
  case (Cons e es)
  then obtain s1 where s1: "spawn_step e s = Some (Ok s1)" "spawn_run es s1 = Some (Ok s')"
    by (auto split: option.splits outcome.splits)
  have "kept_inv (awaited \<or> e = Join) s1" using kept_step [OF Cons.prems(1,2) s1(1)] Cons.prems(4,5) by auto
  from Cons.IH [OF spawn_step_inv [OF Cons.prems(1) s1(1)] this s1(2)] show ?case
    using Cons.prems(4,5) by (simp add: disj_assoc eq_commute [of e])
qed simp



text \<open>The destructor of a \<open>JoinHandle\<close> destroys the frame of its task also while an operation of it is in flight. The completion of this
  operation then resumes a frame that does not exist.\<close>

theorem dropped_while_pending:
  assumes "spawn_run es (spawn r) = Some (Ok s)" "join_handle s" "child_result s = None"
  shows "spawn_run (es @ [Drop, Operation_done x]) (spawn r) = Some Undefined"
proof -
  have a: "spawn_run (es @ fs) s0 = (case spawn_run es s0 of Some (Ok s) \<Rightarrow> spawn_run fs s | r \<Rightarrow> r)" for fs s0
    by (induction es arbitrary: s0) (auto split: option.splits outcome.splits)
  have "child_pending s" using spawn_run_inv [OF spawn_inv assms(1)] assms(3) by (simp add: spawned_inv_def)
  then show ?thesis by (simp add: a assms destroy_child_def)
qed

end
