(* ===== verification/Handles.thy ===== *)
theory Handles
  imports Ppnt_Prelude
begin

text \<open>
  Who owns the frame of a coroutine: the variables of type \<open>Task\<close> and \<open>JoinHandle\<close> (\<open>task.ixx\<close>) and the handles that were taken out of
  them. What the coroutines do is modelled in \<open>Tasks\<close>; here a frame is its address.
\<close>

section \<open>Variables\<close>

datatype var = Task_var nat | Join_var nat

fun same_type :: "var \<Rightarrow> var \<Rightarrow> bool" where
  "same_type (Task_var _) (Task_var _) = True"
| "same_type (Join_var _) (Join_var _) = True"
| "same_type _ _ = False"

text \<open>\<open>owner\<close> has the variables whose handle is not null; \<open>taken\<close> are the handles that \<open>take_handle\<close> gave.\<close>

record handles =
  live :: "nat set"
  next_live :: nat
  owner :: "var \<Rightarrow> nat option"
  taken :: "nat set"

definition handles_init :: handles where
  "handles_init = \<lparr>live = {}, next_live = 0, owner = Map.empty, taken = {}\<rparr>"

text \<open>\<open>handle.destroy()\<close>, on a handle that may be null. Destroying a frame twice is undefined.\<close>

definition destroy :: "nat option \<Rightarrow> handles \<Rightarrow> handles option" where
  "destroy h s = (case h of None \<Rightarrow> Some s | Some f \<Rightarrow> if f \<in> live s then Some (s\<lparr>live := live s - {f}\<rparr>) else None)"

definition move_handle :: "var \<Rightarrow> var \<Rightarrow> handles \<Rightarrow> handles" where
  "move_handle this other s = s\<lparr>owner := (owner s)(this := owner s other, other := None)\<rparr>"

text \<open>Move assignment: that of a \<open>JoinHandle\<close> destroys the frame it had, that of a \<open>Task\<close> does not.\<close>

definition assign_handle :: "var \<Rightarrow> var \<Rightarrow> handles \<Rightarrow> handles option" where
  "assign_handle this other s =
    (if this = other then Some s
     else (case this of
       Task_var _ \<Rightarrow> Some (move_handle this other s)
     | Join_var _ \<Rightarrow> map_option (move_handle this other) (destroy (owner s this) s)))"

definition take_handle :: "var \<Rightarrow> handles \<Rightarrow> handles" where
  "take_handle v s = s\<lparr>owner := (owner s)(v := None), taken := taken s \<union> set_option (owner s v)\<rparr>"

definition drop_handle :: "var \<Rightarrow> handles \<Rightarrow> handles option" where
  "drop_handle v s = map_option (\<lambda>s. s\<lparr>owner := (owner s)(v := None)\<rparr>) (destroy (owner s v) s)"

text \<open>
  What a program may do: start a coroutine, move a variable to a new one, assign, take a handle out, make a \<open>JoinHandle\<close> of a handle, as
  \<open>spawn\<close> does, destroy a handle that was taken, as \<open>block_on\<close> and an awaiter do, and end the life of a variable. A new variable is one
  that owns nothing.
\<close>

datatype handle_event =
    Start nat | Move_to var var | Assign_to var var | Take var | Join_of nat nat | Destroy nat | Drop var

fun handle_step :: "handle_event \<Rightarrow> handles \<Rightarrow> handles option" where
  "handle_step (Start i) s = (if owner s (Task_var i) \<noteq> None then Some s
     else Some (s\<lparr>live := insert (next_live s) (live s), next_live := Suc (next_live s), owner := (owner s)(Task_var i \<mapsto> next_live s)\<rparr>))"
| "handle_step (Move_to this other) s = Some (if owner s this \<noteq> None \<or> \<not> same_type this other then s else move_handle this other s)"
| "handle_step (Assign_to this other) s = (if same_type this other then assign_handle this other s else Some s)"
| "handle_step (Take v) s = Some (take_handle v s)"
| "handle_step (Join_of i f) s = Some (if owner s (Join_var i) \<noteq> None \<or> f \<notin> taken s then s
     else s\<lparr>owner := (owner s)(Join_var i \<mapsto> f), taken := taken s - {f}\<rparr>)"
| "handle_step (Destroy f) s = (if f \<in> taken s then map_option (\<lambda>s. s\<lparr>taken := taken s - {f}\<rparr>) (destroy (Some f) s) else Some s)"
| "handle_step (Drop v) s = drop_handle v s"

fun handle_run :: "handle_event list \<Rightarrow> handles \<Rightarrow> handles option" where
  "handle_run [] s = Some s"
| "handle_run (e # es) s = Option.bind (handle_step e s) (handle_run es)"

interpretation handle_events: event_system handle_step handle_run
  by unfold_locales simp_all

section \<open>Owners of frames\<close>

text \<open>The frames that a run overwrites: those of the tasks that were assigned to.\<close>

fun overwritten :: "handle_event \<Rightarrow> handles \<Rightarrow> nat set" where
  "overwritten (Assign_to (Task_var i) (Task_var j)) s = (if i = j then {} else set_option (owner s (Task_var i)))"
| "overwritten _ s = {}"

fun all_overwritten :: "handle_event list \<Rightarrow> handles \<Rightarrow> nat set" where
  "all_overwritten [] s = {}"
| "all_overwritten (e # es) s = overwritten e s \<union> (case handle_step e s of None \<Rightarrow> {} | Some s \<Rightarrow> all_overwritten es s)"

text \<open>Each live frame is owned by one variable, or was taken, or is lost, and only one of these.\<close>

definition owned :: "nat set \<Rightarrow> handles \<Rightarrow> bool" where
  "owned lost s \<longleftrightarrow> inj_map (owner s) \<and> live s = ran (owner s) \<union> taken s \<union> lost \<and> ran (owner s) \<inter> taken s = {} \<and>
     (ran (owner s) \<union> taken s) \<inter> lost = {} \<and> live s \<subseteq> {..<next_live s}"

lemma owned_owner: "owned lost s \<Longrightarrow> owner s v = Some f \<Longrightarrow> f \<in> live s"
  by (auto simp: owned_def ranI)

lemma inj_map_move: "inj_map m \<Longrightarrow> this \<noteq> other \<Longrightarrow> inj_map (m(this := m other, other := None))"
  by (auto simp: inj_map_def)

lemma ran_move: "inj_map m \<Longrightarrow> this \<noteq> other \<Longrightarrow> ran (m(this := m other, other := None)) = ran m - set_option (m this)"
  by (auto simp: inj_map_def ran_def) (metis option.inject)+

lemma set_option_ran: "set_option (m v) \<subseteq> ran m"
  by (auto intro: ranI)

lemma owned_move:
  assumes "owned lost s" "this \<noteq> other"
  shows "owned (lost \<union> set_option (owner s this)) (move_handle this other s)"
proof -
  have "set_option (owner s this) \<subseteq> ran (owner s)" by (rule set_option_ran)
  moreover have "ran ((owner s)(this := owner s other, other := None)) = ran (owner s) - set_option (owner s this)"
    using assms by (intro ran_move) (simp_all add: owned_def)
  moreover have "inj_map ((owner s)(this := owner s other, other := None))" using assms by (simp add: owned_def inj_map_move)
  ultimately show ?thesis using assms(1) unfolding owned_def move_handle_def by simp blast
qed

lemma owned_destroy:
  assumes "owned lost s" "owner s v = h"
  shows "\<exists>s'. destroy h s = Some s' \<and> owned lost (s'\<lparr>owner := (owner s)(v := None)\<rparr>) \<and> owner s' = owner s \<and> taken s' = taken s \<and>
    next_live s' = next_live s"
proof (cases h)
  case None
  then have "(owner s)(v := None) = owner s" using assms(2) by auto
  then show ?thesis using None assms(1) by (simp add: destroy_def)
next
  case (Some f)
  have "f \<in> live s" using owned_owner [OF assms(1)] assms(2) Some by blast
  moreover have "f \<in> ran (owner s)" using assms(2) Some by (simp add: ranI)
  then have "f \<notin> taken s" "f \<notin> lost" using assms(1) unfolding owned_def by blast+
  moreover have "ran ((owner s)(v := None)) = ran (owner s) - {f}" using assms Some by (simp add: owned_def ran_del)
  moreover have "inj_map ((owner s)(v := None))" using assms(1) by (simp add: owned_def inj_map_del)
  ultimately show ?thesis using assms(1) Some unfolding destroy_def owned_def by simp blast
qed

lemma owned_step:
  assumes "owned lost s"
  shows "\<exists>s'. handle_step e s = Some s' \<and> owned (lost \<union> overwritten e s) s'"
proof (cases e)
  case (Start i)
  have "next_live s \<notin> live s" using assms by (auto simp: owned_def)
  then have "next_live s \<notin> ran (owner s)" "next_live s \<notin> taken s" "next_live s \<notin> lost" "\<forall>x\<in>live s. x < Suc (next_live s)"
    using assms by (auto simp: owned_def)
  then show ?thesis using assms Start by (auto simp: owned_def inj_map_new ran_map_upd)
next
  case (Move_to this other)
  show ?thesis
  proof (cases "owner s this \<noteq> None \<or> \<not> same_type this other \<or> this = other")
    case True
    then show ?thesis using assms Move_to by (auto simp: move_handle_def fun_upd_idem)
  next
    case False
    then show ?thesis using owned_move [OF assms, of this other] Move_to by simp
  qed
next
  case (Assign_to this other)
  show ?thesis
  proof (cases this)
    case (Task_var i)
    then show ?thesis using owned_move [OF assms, of this other] assms Assign_to
      by (cases other) (auto simp: assign_handle_def)
  next
    case (Join_var i)
    obtain s' where s': "destroy (owner s this) s = Some s'" "owned lost (s'\<lparr>owner := (owner s)(this := None)\<rparr>)" "owner s' = owner s"
      using owned_destroy [OF assms refl] by blast
    have "move_handle this other s' = move_handle this other (s'\<lparr>owner := (owner s)(this := None)\<rparr>)" if "this \<noteq> other"
      using that s'(3) by (simp add: move_handle_def fun_upd_twist)
    then have "owned lost (move_handle this other s')" if "this \<noteq> other" using that owned_move [OF s'(2) that] by simp
    then show ?thesis using assms s'(1) Assign_to Join_var by (cases other) (auto simp: assign_handle_def)
  qed
next
  case (Take v)
  have "set_option (owner s v) \<subseteq> ran (owner s)" by (rule set_option_ran)
  moreover have "ran ((owner s)(v := None)) = ran (owner s) - set_option (owner s v)" "inj_map ((owner s)(v := None))"
    using assms by (simp_all add: owned_def ran_del inj_map_del)
  ultimately have "owned lost (take_handle v s)" using assms unfolding owned_def take_handle_def by simp blast
  then show ?thesis using Take by simp
next
  case (Join_of i f)
  have "owned lost (s\<lparr>owner := (owner s)(Join_var i \<mapsto> f), taken := taken s - {f}\<rparr>)" if "owner s (Join_var i) = None" "f \<in> taken s"
  proof -
    have "f \<notin> ran (owner s)" using assms that(2) unfolding owned_def by blast
    then have "inj_map ((owner s)(Join_var i \<mapsto> f))" using assms by (simp add: owned_def inj_map_new)
    then show ?thesis using assms that(2) ran_map_upd [of "owner s" "Join_var i", OF that(1), of f] unfolding owned_def by simp blast
  qed
  then show ?thesis using assms Join_of by simp
next
  case (Destroy f)
  have "owned lost (s\<lparr>live := live s - {f}, taken := taken s - {f}\<rparr>)" "f \<in> live s" if "f \<in> taken s"
    using assms that unfolding owned_def by simp_all blast
  then show ?thesis using assms Destroy by (simp add: destroy_def)
next
  case (Drop v)
  then show ?thesis using owned_destroy [OF assms refl, of v] by (auto simp: drop_handle_def)
qed

lemma owned_run:
  "owned lost s \<Longrightarrow> \<exists>s'. handle_run es s = Some s' \<and> owned (lost \<union> all_overwritten es s) s'"
proof (induction es arbitrary: s lost)
  case (Cons e es)
  obtain s1 where s1: "handle_step e s = Some s1" "owned (lost \<union> overwritten e s) s1" using owned_step [OF Cons.prems] by blast
  from Cons.IH [OF s1(2)] show ?case using s1(1) by (simp add: Un_assoc)
qed simp

text \<open>
  However tasks and join handles are moved, assigned, taken out and dropped, no frame is destroyed twice, and each frame that was not destroyed is
  owned by exactly one variable or handle, or was overwritten by an assignment to a task. So when no variable and no handle
  has a frame any more, exactly the overwritten ones are left.
\<close>

theorem frames_owned_once:
  "\<exists>s. handle_run es handles_init = Some s \<and> inj_map (owner s) \<and> ran (owner s) \<inter> taken s = {} \<and>
    live s = ran (owner s) \<union> taken s \<union> all_overwritten es handles_init \<and>
    (ran (owner s) \<union> taken s) \<inter> all_overwritten es handles_init = {}"
proof -
  have "owned {} handles_init" by (simp add: owned_def handles_init_def)
  from owned_run [OF this, of es] show ?thesis by (auto simp: owned_def)
qed

end
