(* ===== verification/Ring_Life.thy ===== *)
theory Ring_Life
  imports Ppnt_Prelude
begin

text \<open>
  The life of a ring: the resources that the constructor and the destructor of \<open>Ring\<close> take and give back (\<open>driver.cpp\<close>), and the
  ring of the thread, \<open>current_ring\<close>, which \<open>block_on\<close> sets (\<open>runtime.ixx\<close>) and every awaited operation reads.
\<close>

section \<open>Resources\<close>

text \<open>
  \<open>buffer_mem\<close> and \<open>buf_ring\<close> say whether the two allocations of the ring are there, \<open>receiving\<close> how many receives with a provided
  buffer the kernel has not completed, \<open>event_fds\<close> how many eventfds the process has open.
\<close>

record ring_resources =
  buffer_mem :: bool
  buf_ring :: bool
  using_buf_ring :: bool
  registered :: bool
  uring_open :: bool
  receiving :: nat
  event_fds :: nat

definition no_ring :: "nat \<Rightarrow> ring_resources" where
  "no_ring fds = \<lparr>buffer_mem = False, buf_ring = False, using_buf_ring = False, registered = False, uring_open = False, receiving = 0,
     event_fds = fds\<rparr>"

text \<open>The constructor: the results of \<open>io_uring_queue_init\<close>, of the two allocations and of the registration of the buffer ring.\<close>

definition ring_acquire :: "int \<Rightarrow> bool \<Rightarrow> bool \<Rightarrow> int \<Rightarrow> ring_resources \<Rightarrow> ring_resources outcome" where
  "ring_acquire init memory ring_memory reg r =
    (if init < 0 then Terminated
     else let r = r\<lparr>uring_open := True\<rparr> in
       if \<not> memory then Terminated
       else let r = r\<lparr>buffer_mem := True\<rparr>;
                r = (if ring_memory then if reg = 0 then r\<lparr>buf_ring := True, registered := True, using_buf_ring := True\<rparr>
                       else r\<lparr>buf_ring := False, using_buf_ring := False\<rparr>
                     else r\<lparr>using_buf_ring := False\<rparr>)
            in Ok (r\<lparr>event_fds := Suc (event_fds r)\<rparr>))"

text \<open>The steps of the destructor, and a receive that the kernel completes by storing into a buffer, until the ring is closed.\<close>

datatype release_step = Free_buffers | Unregister | Free_buf_ring | Queue_exit | Store_received

fun ring_step :: "release_step \<Rightarrow> ring_resources \<Rightarrow> ring_resources outcome" where
  "ring_step Free_buffers r = Ok (r\<lparr>buffer_mem := False\<rparr>)"
| "ring_step Unregister r = Ok (if using_buf_ring r \<and> buf_ring r then r\<lparr>registered := False\<rparr> else r)"
| "ring_step Free_buf_ring r = Ok (if using_buf_ring r \<and> buf_ring r then r\<lparr>buf_ring := False\<rparr> else r)"
| "ring_step Queue_exit r = Ok (r\<lparr>uring_open := False, receiving := 0\<rparr>)"
| "ring_step Store_received r =
    (if receiving r = 0 then Ok r else if buffer_mem r then Ok (r\<lparr>receiving := receiving r - 1\<rparr>) else Undefined)"

fun ring_steps :: "release_step list \<Rightarrow> ring_resources \<Rightarrow> ring_resources outcome" where
  "ring_steps [] r = Ok r"
| "ring_steps (x # xs) r = (case ring_step x r of Ok r \<Rightarrow> ring_steps xs r | y \<Rightarrow> y)"

definition ring_release :: "release_step list" where
  "ring_release = [Free_buffers, Unregister, Free_buf_ring, Queue_exit]"

text \<open>
  Destroying a ring gives back all that its constructor took, except the eventfd, when the kernel has no receive left. While it has
  one it may store into the buffers after they were freed, because they are freed before the ring is closed.
\<close>

theorem ring_life:
  assumes "ring_acquire init memory ring_memory reg (no_ring fds) = Ok r" "filter (\<lambda>x. x \<noteq> Store_received) xs = ring_release"
  shows "ring_steps xs r = Ok (no_ring (Suc fds)\<lparr>using_buf_ring := using_buf_ring r\<rparr>)"
    and "0 < n \<Longrightarrow> \<exists>ys. filter (\<lambda>x. x \<noteq> Store_received) ys = ring_release \<and> ring_steps ys (r\<lparr>receiving := n\<rparr>) = Undefined"
proof -
  have idle: "receiving r = 0 \<Longrightarrow> ring_steps xs r = ring_steps (filter (\<lambda>x. x \<noteq> Store_received) xs) r" for xs r
  proof (induction xs arbitrary: r)
    case (Cons x xs)
    then show ?case by (cases x) simp_all
  qed simp
  have r: "receiving r = 0" "event_fds r = Suc fds" "registered r = buf_ring r" "using_buf_ring r = buf_ring r"
    using assms(1) by (auto simp: ring_acquire_def no_ring_def Let_def split: if_splits)
  show "ring_steps xs r = Ok (no_ring (Suc fds)\<lparr>using_buf_ring := using_buf_ring r\<rparr>)"
    using idle [OF r(1), of xs] r unfolding assms(2) ring_release_def by (cases r) (simp add: no_ring_def)
  show "\<exists>ys. filter (\<lambda>x. x \<noteq> Store_received) ys = ring_release \<and> ring_steps ys (r\<lparr>receiving := n\<rparr>) = Undefined" if "0 < n"
    using that by (intro exI [of _ "[Free_buffers, Store_received, Unregister, Free_buf_ring, Queue_exit]"]) (simp add: ring_release_def)
qed

section \<open>The ring of the thread\<close>

text \<open>
  What the code on a thread does, as far as rings are concerned: it uses the current ring, runs a task with \<open>block_on\<close>, throws, or
  catches what is thrown. A task is the code it executes; \<open>used\<close> records the ring of each use.
\<close>

datatype thread_code = Use | Block_on "thread_code list" | Throw | Try "thread_code list"

record thread =
  current_ring :: "nat option"
  rings :: "nat set"
  next_ring :: nat
  used :: "nat list"

definition thread_start :: thread where
  "thread_start = \<lparr>current_ring = None, rings = {}, next_ring = 0, used = []\<rparr>"

definition set_ring :: "nat option \<Rightarrow> thread \<Rightarrow> thread" where
  "set_ring r t = t\<lparr>current_ring := r\<rparr>"

definition current :: "thread \<Rightarrow> nat outcome" where
  "current t = (case current_ring t of None \<Rightarrow> Terminated | Some r \<Rightarrow> if r \<in> rings t then Ok r else Undefined)"

text \<open>The result says whether an exception was thrown: then \<open>block_on\<close> does not come to \<open>set_ring\<close>, but destroys its ring.\<close>

fun thread_step :: "thread_code \<Rightarrow> thread \<Rightarrow> (bool \<times> thread) outcome"
  and thread_steps :: "thread_code list \<Rightarrow> thread \<Rightarrow> (bool \<times> thread) outcome" where
  "thread_step Use t = (case current t of
      Ok r \<Rightarrow> Ok (False, t\<lparr>used := used t @ [r]\<rparr>)
    | Terminated \<Rightarrow> Terminated
    | Undefined \<Rightarrow> Undefined)"
| "thread_step (Block_on cs) t =
    (let r = next_ring t in
     (case thread_steps cs (set_ring (Some r) (t\<lparr>rings := insert r (rings t), next_ring := Suc r\<rparr>)) of
       Ok (thrown, t) \<Rightarrow>
         if thrown then Ok (True, t\<lparr>rings := rings t - {r}\<rparr>)
         else Ok (False, (set_ring None t)\<lparr>rings := rings t - {r}\<rparr>)
     | x \<Rightarrow> x))"
| "thread_step Throw t = Ok (True, t)"
| "thread_step (Try cs) t = (case thread_steps cs t of Ok (thrown, t) \<Rightarrow> Ok (False, t) | x \<Rightarrow> x)"
| "thread_steps [] t = Ok (False, t)"
| "thread_steps (c # cs) t = (case thread_step c t of
      Ok (thrown, t) \<Rightarrow> if thrown then Ok (True, t) else thread_steps cs t
    | x \<Rightarrow> x)"

text \<open>Code without \<open>block_on\<close>, and code that uses rings only in tasks that are not nested.\<close>

fun plain :: "thread_code \<Rightarrow> bool" where
  "plain Use \<longleftrightarrow> True"
| "plain (Block_on cs) \<longleftrightarrow> False"
| "plain Throw \<longleftrightarrow> True"
| "plain (Try cs) \<longleftrightarrow> (\<forall>c\<in>set cs. plain c)"

fun scoped :: "thread_code \<Rightarrow> bool" where
  "scoped Use \<longleftrightarrow> False"
| "scoped (Block_on cs) \<longleftrightarrow> (\<forall>c\<in>set cs. plain c)"
| "scoped Throw \<longleftrightarrow> True"
| "scoped (Try cs) \<longleftrightarrow> (\<forall>c\<in>set cs. scoped c)"

definition uses :: "nat \<Rightarrow> thread \<Rightarrow> (bool \<times> thread) outcome \<Rightarrow> bool" where
  "uses r t x \<longleftrightarrow> (\<exists>thrown k. x = Ok (thrown, t\<lparr>used := used t @ replicate k r\<rparr>))"

lemma exec_plain:
  "plain c \<Longrightarrow> current_ring t = Some r \<Longrightarrow> r \<in> rings t \<Longrightarrow> uses r t (thread_step c t)"
  "(\<forall>c\<in>set cs. plain c) \<Longrightarrow> current_ring t = Some r \<Longrightarrow> r \<in> rings t \<Longrightarrow> uses r t (thread_steps cs t)"
proof (induction c t and cs t rule: thread_step_thread_steps.induct)
  case (1 t)
  then show ?case by (auto simp: uses_def current_def intro!: exI [of _ 1])
next
  case (3 t)
  then show ?case by (auto simp: uses_def intro!: exI [of _ 0])
next
  case (4 cs t)
  then show ?case by (auto simp: uses_def)
next
  case (5 t)
  then show ?case by (auto simp: uses_def intro!: exI [of _ 0])
next
  case (6 c cs t)
  then obtain b k where k: "thread_step c t = Ok (b, t\<lparr>used := used t @ replicate k r\<rparr>)" by (auto simp: uses_def)
  show ?case
  proof (cases b)
    case True
    then show ?thesis using k by (auto simp: uses_def)
  next
    case False
    have "uses r (t\<lparr>used := used t @ replicate k r\<rparr>) (thread_steps cs (t\<lparr>used := used t @ replicate k r\<rparr>))"
      using "6.IH"(2) [OF k _ ] False "6.prems" by simp
    then show ?thesis using k False by (auto simp: uses_def simp flip: replicate_add)
  qed
qed simp

text \<open>
  Tasks that are not nested use the ring that their \<open>block_on\<close> has made, each one its own, also when tasks throw.
\<close>

lemma exec_block:
  assumes "\<forall>c\<in>set cs. plain c" "next_ring t \<notin> rings t"
  shows "\<exists>thrown cur k. thread_step (Block_on cs) t =
    Ok (thrown, t\<lparr>current_ring := cur, next_ring := Suc (next_ring t), used := used t @ replicate k (next_ring t)\<rparr>)"
proof -
  let ?t = "set_ring (Some (next_ring t)) (t\<lparr>rings := insert (next_ring t) (rings t), next_ring := Suc (next_ring t)\<rparr>)"
  have "uses (next_ring t) ?t (thread_steps cs ?t)" by (rule exec_plain(2) [OF assms(1)]) (simp_all add: set_ring_def)
  then obtain b k where "thread_steps cs ?t = Ok (b, ?t\<lparr>used := used ?t @ replicate k (next_ring t)\<rparr>)" by (auto simp: uses_def)
  then show ?thesis using assms(2) by (cases b; cases t) (auto simp: Let_def set_ring_def)
qed

definition own_rings :: "thread \<Rightarrow> thread \<Rightarrow> bool" where
  "own_rings t t' \<longleftrightarrow> rings t' = rings t \<and> next_ring t \<le> next_ring t' \<and>
    (\<exists>f. used t' = used t @ concat (map (\<lambda>r. replicate (f r) r) [next_ring t..<next_ring t']))"

lemma own_rings_trans:
  assumes "own_rings t t1" "own_rings t1 t2"
  shows "own_rings t t2"
proof -
  obtain f g where fg: "used t1 = used t @ concat (map (\<lambda>r. replicate (f r) r) [next_ring t..<next_ring t1])"
    "used t2 = used t1 @ concat (map (\<lambda>r. replicate (g r) r) [next_ring t1..<next_ring t2])"
    using assms unfolding own_rings_def by blast
  have le: "next_ring t \<le> next_ring t1" "next_ring t1 \<le> next_ring t2" using assms by (simp_all add: own_rings_def)
  let ?h = "\<lambda>r. if r < next_ring t1 then f r else g r"
  have "[next_ring t..<next_ring t2] = [next_ring t..<next_ring t1] @ [next_ring t1..<next_ring t2]"
    using le by (metis le_add_diff_inverse upt_add_eq_append)
  moreover have "map (\<lambda>r. replicate (f r) r) [next_ring t..<next_ring t1] = map (\<lambda>r. replicate (?h r) r) [next_ring t..<next_ring t1]"
    "map (\<lambda>r. replicate (g r) r) [next_ring t1..<next_ring t2] = map (\<lambda>r. replicate (?h r) r) [next_ring t1..<next_ring t2]"
    by (rule map_cong; simp)+
  ultimately have "used t2 = used t @ concat (map (\<lambda>r. replicate (?h r) r) [next_ring t..<next_ring t2])"
    unfolding fg by (simp only: map_append concat_append append_assoc)
  then show ?thesis using assms le unfolding own_rings_def by auto
qed

lemma exec_scoped:
  "scoped c \<Longrightarrow> rings t \<subseteq> {..<next_ring t} \<Longrightarrow> \<exists>thrown t'. thread_step c t = Ok (thrown, t') \<and> own_rings t t'"
  "(\<forall>c\<in>set cs. scoped c) \<Longrightarrow> rings t \<subseteq> {..<next_ring t} \<Longrightarrow> \<exists>thrown t'. thread_steps cs t = Ok (thrown, t') \<and> own_rings t t'"
proof (induction c t and cs t rule: thread_step_thread_steps.induct)
  case (2 cs t)
  then have "next_ring t \<notin> rings t" by auto
  from exec_block [OF _ this, of cs] "2.prems"(1) show ?case by (auto simp: own_rings_def)
next
  case (4 cs t)
  then show ?case by auto
next
  case (6 c cs t)
  then obtain b t1 where t1: "thread_step c t = Ok (b, t1)" "own_rings t t1" by auto
  show ?case
  proof (cases b)
    case True
    then show ?thesis using t1 by auto
  next
    case False
    have "rings t1 \<subseteq> {..<next_ring t1}" using t1(2) "6.prems"(2) by (auto simp: own_rings_def)
    then obtain b2 t2 where "thread_steps cs t1 = Ok (b2, t2)" "own_rings t1 t2" using "6.IH"(2) [OF t1(1) refl False] "6.prems"(1) by auto
    then show ?thesis using t1 False own_rings_trans by auto
  qed
qed (auto simp: own_rings_def)

theorem scoped_rings:
  assumes "\<forall>c\<in>set cs. scoped c"
  shows "\<exists>thrown t f. thread_steps cs thread_start = Ok (thrown, t) \<and> rings t = {} \<and>
    used t = concat (map (\<lambda>r. replicate (f r) r) [0..<next_ring t])"
  using exec_scoped(2) [OF assms, of thread_start] by (auto simp: own_rings_def thread_start_def)

text \<open>
  A task that runs another one with \<open>block_on\<close> loses its ring: its next operation terminates the process. And after a task of
  \<open>block_on\<close> has thrown, the ring of the thread is one that was destroyed.
\<close>

lemma exec_uses: "current_ring t = Some r \<Longrightarrow> r \<in> rings t \<Longrightarrow> thread_steps (replicate k Use @ cs) t = thread_steps cs (t\<lparr>used := used t @ replicate k r\<rparr>)"
  by (induction k arbitrary: t) (simp_all add: current_def)

theorem nested_block_on: "thread_step (Block_on (Block_on (replicate k Use) # Use # cs)) t = Terminated"
  using exec_uses [of _ _ k "[]"] by (simp add: Let_def set_ring_def current_def)

theorem ring_dangles:
  assumes "next_ring t \<notin> rings t"
  shows "thread_steps (Try [Block_on (replicate k Use @ [Throw])] # Use # cs) t = Undefined"
  using assms by (simp add: Let_def set_ring_def exec_uses current_def)

end
