(* ===== verification/Thread_Pool.thy ===== *)
theory Thread_Pool
  imports Wakeup "HOL-Library.Multiset"
begin

text \<open>
  The thread pool (\<open>thread_pool.h\<close>, \<open>thread_safe_queue.h\<close>) and \<open>run_in_pool\<close> (\<open>runtime.ixx\<close>), which runs a function in the pool and resumes the
  coroutine that awaits it through \<open>Ring::post\<close>. The workers and the threads that enqueue tasks are interleaved at each access to what they
  share: an operation of a queue under its mutex, an atomic operation, an operation of a semaphore.
\<close>

section \<open>The queues\<close>

definition push_back :: "'a \<Rightarrow> 'a list \<Rightarrow> 'a list" where
  "push_back x q = q @ [x]"

definition pop_front :: "'a list \<Rightarrow> ('a \<times> 'a list) option" where
  "pop_front q = (case q of [] \<Rightarrow> None | x # q \<Rightarrow> Some (x, q))"

definition steal :: "'a list \<Rightarrow> ('a \<times> 'a list) option" where
  "steal q = (if q = [] then None else Some (last q, butlast q))"

definition rotate_to_front :: "'a \<Rightarrow> 'a list \<Rightarrow> 'a list" where
  "rotate_to_front x q = x # remove1 x q"

definition copy_front_and_rotate_to_back :: "'a list \<Rightarrow> ('a \<times> 'a list) option" where
  "copy_front_and_rotate_to_back q = (case q of [] \<Rightarrow> None | x # q \<Rightarrow> Some (x, q @ [x]))"

section \<open>The pool\<close>

text \<open>
  Where a worker is: at \<open>acquire\<close>; at \<open>pop_front\<close>; with a task, stolen or not, before the count of unassigned tasks is decremented, before
  the task is invoked, and before the count of tasks in flight is decremented; at the attempt to steal from the \<open>j\<close>-th queue after its own;
  at the loads of the two counts, at \<open>rotate_to_front\<close> and at the store of the signal.
\<close>

datatype 'a worker = Acquire | Pop | Take bool 'a | Invoke bool 'a | Finish bool | Steal nat | Check | Rotate | Flight | Complete

text \<open>Where a call of \<open>enqueue_task\<close> is: before each of its accesses, and at its end.\<close>

datatype 'a enqueuer =
    Count_unassigned nat 'a | Count_flight nat 'a | Reset_signal nat 'a | Assign nat 'a | Release nat | Returned

text \<open>\<open>accepted\<close> and \<open>invoked\<close> record the tasks that got a queue and the tasks that were run.\<close>

record 'a pool =
  queues :: "'a list list"
  signals :: "nat list"
  priority_queue :: "nat list"
  unassigned_tasks :: int
  in_flight_tasks :: int
  threads_complete_signal :: bool
  workers :: "'a worker list"
  enqueuers :: "'a enqueuer list"
  accepted :: "'a list"
  invoked :: "'a list"

definition thread_pool :: "nat \<Rightarrow> 'a pool" where
  "thread_pool n = \<lparr>queues = replicate n [], signals = replicate n 0, priority_queue = [0..<n], unassigned_tasks = 0, in_flight_tasks = 0,
     threads_complete_signal = False, workers = replicate n Acquire, enqueuers = [], accepted = [], invoked = []\<rparr>"

text \<open>\<open>enqueue_task\<close>: a call begins with the choice of a queue, and without threads ends there.\<close>

definition enqueue_task :: "'a \<Rightarrow> 'a pool \<Rightarrow> 'a pool" where
  "enqueue_task f p = (case copy_front_and_rotate_to_back (priority_queue p) of
      None \<Rightarrow> p\<lparr>enqueuers := enqueuers p @ [Returned]\<rparr>
    | Some (i, q) \<Rightarrow> p\<lparr>priority_queue := q, enqueuers := enqueuers p @ [Count_unassigned i f], accepted := accepted p @ [f]\<rparr>)"

definition enqueue_step :: "nat \<Rightarrow> 'a pool \<Rightarrow> 'a pool option" where
  "enqueue_step e p = (case enqueuers p ! e of
      Count_unassigned i f \<Rightarrow> Some (p\<lparr>unassigned_tasks := unassigned_tasks p + 1, enqueuers := (enqueuers p)[e := Count_flight i f]\<rparr>)
    | Count_flight i f \<Rightarrow> Some (p\<lparr>in_flight_tasks := in_flight_tasks p + 1,
        enqueuers := (enqueuers p)[e := if in_flight_tasks p = 0 then Reset_signal i f else Assign i f]\<rparr>)
    | Reset_signal i f \<Rightarrow> Some (p\<lparr>threads_complete_signal := False, enqueuers := (enqueuers p)[e := Assign i f]\<rparr>)
    | Assign i f \<Rightarrow> Some (p\<lparr>queues := (queues p)[i := push_back f (queues p ! i)], enqueuers := (enqueuers p)[e := Release i]\<rparr>)
    | Release i \<Rightarrow> Some (p\<lparr>signals := (signals p)[i := signals p ! i + 1], enqueuers := (enqueuers p)[e := Returned]\<rparr>)
    | Returned \<Rightarrow> None)"

text \<open>A step of the worker \<open>i\<close>: \<open>None\<close> while it is blocked.\<close>

definition worker_step :: "nat \<Rightarrow> 'a pool \<Rightarrow> 'a pool option" where
  "worker_step i p = (let next = (\<lambda>w p. p\<lparr>workers := (workers p)[i := w]\<rparr>) in case workers p ! i of
      Acquire \<Rightarrow> if signals p ! i = 0 then None else Some (next Pop (p\<lparr>signals := (signals p)[i := signals p ! i - 1]\<rparr>))
    | Pop \<Rightarrow> (case pop_front (queues p ! i) of
        Some (task, q) \<Rightarrow> Some (next (Take False task) (p\<lparr>queues := (queues p)[i := q]\<rparr>))
      | None \<Rightarrow> Some (next (Steal 1) p))
    | Take stolen task \<Rightarrow> Some (next (Invoke stolen task) (p\<lparr>unassigned_tasks := unassigned_tasks p - 1\<rparr>))
    | Invoke stolen task \<Rightarrow> Some (next (Finish stolen) (p\<lparr>invoked := invoked p @ [task]\<rparr>))
    | Finish stolen \<Rightarrow> Some (next (if stolen then Check else Pop) (p\<lparr>in_flight_tasks := in_flight_tasks p - 1\<rparr>))
    | Steal j \<Rightarrow>
        if length (queues p) \<le> j then Some (next Check p)
        else let index = (i + j) mod length (queues p) in
          (case steal (queues p ! index) of
            Some (task, q) \<Rightarrow> Some (next (Take True task) (p\<lparr>queues := (queues p)[index := q]\<rparr>))
          | None \<Rightarrow> Some (next (Steal (j + 1)) p))
    | Check \<Rightarrow> Some (next (if 0 < unassigned_tasks p then Pop else Rotate) p)
    | Rotate \<Rightarrow> Some (next Flight (p\<lparr>priority_queue := rotate_to_front i (priority_queue p)\<rparr>))
    | Flight \<Rightarrow> Some (next (if in_flight_tasks p = 0 then Complete else Acquire) p)
    | Complete \<Rightarrow> Some (next Acquire (p\<lparr>threads_complete_signal := True\<rparr>)))"

text \<open>A thread calls \<open>enqueue_task\<close>, such a call goes on, a worker goes on.\<close>

datatype 'a pool_event = Enqueue 'a | Advance nat | Work nat

fun pool_step :: "'a pool_event \<Rightarrow> 'a pool \<Rightarrow> 'a pool option" where
  "pool_step (Enqueue f) p = Some (enqueue_task f p)"
| "pool_step (Advance e) p = (if e < length (enqueuers p) then enqueue_step e p else None)"
| "pool_step (Work i) p = (if i < length (workers p) then worker_step i p else None)"

primrec pool_run :: "'a pool_event list \<Rightarrow> 'a pool \<Rightarrow> 'a pool option" where
  "pool_run [] p = Some p"
| "pool_run (e # es) p = Option.bind (pool_step e p) (pool_run es)"

text \<open>What \<open>wait_for_tasks\<close> waits for.\<close>

definition tasks_done :: "'a pool \<Rightarrow> bool" where
  "tasks_done p \<longleftrightarrow> in_flight_tasks p \<le> 0"

section \<open>Where the tasks are\<close>

fun held :: "'a worker \<Rightarrow> 'a multiset" where
  "held (Take _ f) = {#f#}"
| "held (Invoke _ f) = {#f#}"
| "held _ = {#}"

fun pending :: "'a enqueuer \<Rightarrow> 'a multiset" where
  "pending (Count_unassigned _ f) = {#f#}"
| "pending (Count_flight _ f) = {#f#}"
| "pending (Reset_signal _ f) = {#f#}"
| "pending (Assign _ f) = {#f#}"
| "pending _ = {#}"

text \<open>The enqueuers and workers that the counts include besides the tasks in the queues.\<close>

fun counted :: "'a enqueuer \<Rightarrow> int" where
  "counted (Reset_signal _ _) = 1"
| "counted (Assign _ _) = 1"
| "counted _ = 0"

fun unassigned :: "'a enqueuer \<Rightarrow> int" where
  "unassigned (Count_flight _ _) = 1"
| "unassigned e = counted e"

fun busy :: "'a worker \<Rightarrow> int" where
  "busy (Take _ _) = 1"
| "busy (Invoke _ _) = 1"
| "busy (Finish _) = 1"
| "busy _ = 0"

fun taking :: "'a worker \<Rightarrow> int" where
  "taking (Take _ _) = 1"
| "taking _ = 0"

definition queued :: "'a pool \<Rightarrow> int" where
  "queued p = sum_list (map (int \<circ> length) (queues p))"

text \<open>The worker will look at its own queue before it waits for its signal.\<close>

fun serving :: "'a worker \<Rightarrow> bool" where
  "serving Pop = True"
| "serving (Take stolen _) = (\<not> stolen)"
| "serving (Invoke stolen _) = (\<not> stolen)"
| "serving (Finish stolen) = (\<not> stolen)"
| "serving _ = False"

fun targets_of :: "'a enqueuer \<Rightarrow> nat option" where
  "targets_of (Count_unassigned i _) = Some i"
| "targets_of (Count_flight i _) = Some i"
| "targets_of (Reset_signal i _) = Some i"
| "targets_of (Assign i _) = Some i"
| "targets_of (Release i) = Some i"
| "targets_of Returned = None"

definition pool_shape :: "nat \<Rightarrow> 'a pool \<Rightarrow> bool" where
  "pool_shape n p \<longleftrightarrow> length (queues p) = n \<and> length (signals p) = n \<and> length (workers p) = n \<and> set (priority_queue p) = {..<n} \<and>
    (\<forall>e\<in>set (enqueuers p). \<forall>i. targets_of e = Some i \<longrightarrow> i < n)"

definition pool_tasks :: "'a pool \<Rightarrow> bool" where
  "pool_tasks p \<longleftrightarrow> mset (accepted p) = mset (invoked p) + sum_list (map mset (queues p)) + sum_list (map held (workers p)) +
    sum_list (map pending (enqueuers p))"

definition pool_counts :: "'a pool \<Rightarrow> bool" where
  "pool_counts p \<longleftrightarrow> in_flight_tasks p = queued p + sum_list (map busy (workers p)) + sum_list (map counted (enqueuers p)) \<and>
    unassigned_tasks p = queued p + sum_list (map taking (workers p)) + sum_list (map unassigned (enqueuers p))"

definition pool_signals :: "'a pool \<Rightarrow> bool" where
  "pool_signals p \<longleftrightarrow> (\<forall>i<length (queues p). queues p ! i \<noteq> [] \<longrightarrow>
    0 < signals p ! i \<or> serving (workers p ! i) \<or> Release i \<in> set (enqueuers p))"

definition pool_inv :: "nat \<Rightarrow> 'a pool \<Rightarrow> bool" where
  "pool_inv n p \<longleftrightarrow> pool_shape n p \<and> pool_tasks p \<and> pool_counts p \<and> pool_signals p"

text \<open>Changing one place of a list.\<close>

lemma sum_list_upd:
  fixes g :: "'x \<Rightarrow> 'm::comm_monoid_add"
  assumes "i < length xs"
  shows "sum_list (map g (xs[i := y])) + g (xs ! i) = sum_list (map g xs) + g y"
proof -
  have "xs = take i xs @ xs ! i # drop (Suc i) xs" using assms by (rule id_take_nth_drop)
  then have "sum_list (map g xs) = sum_list (map g (take i xs)) + (g (xs ! i) + sum_list (map g (drop (Suc i) xs)))"
    by (metis list.simps(9) map_append sum_list.Cons sum_list_append)
  then show ?thesis using assms by (simp add: upd_conv_take_nth_drop ac_simps)
qed

lemma sum_mset_upd:
  assumes "i < length xs"
  shows "g (xs ! i) = {#} \<Longrightarrow> sum_list (map g (xs[i := y])) = sum_list (map g xs) + (g y :: 'b multiset)"
    "g y = {#} \<Longrightarrow> sum_list (map g xs) = sum_list (map g (xs[i := y])) + g (xs ! i)"
  using sum_list_upd [OF assms, of g y] by auto

lemma queue_taken:
  assumes "i < length qs" "mset (qs ! i) = add_mset f (mset q)"
  shows "sum_list (map mset qs) = add_mset f (sum_list (map mset (qs[i := q])))"
    "sum_list (map (int \<circ> length) qs) = sum_list (map (int \<circ> length) (qs[i := q])) + 1"
proof -
  have "length (qs ! i) = Suc (length q)" using arg_cong [OF assms(2), of size] by simp
  then show "sum_list (map (int \<circ> length) qs) = sum_list (map (int \<circ> length) (qs[i := q])) + 1"
    using sum_list_upd [OF assms(1), of "int \<circ> length" q] by simp
  show "sum_list (map mset qs) = add_mset f (sum_list (map mset (qs[i := q])))"
    using sum_list_upd [OF assms(1), of mset q] assms(2) by simp
qed

lemma queue_pushed:
  assumes "i < length qs"
  shows "sum_list (map mset (qs[i := qs ! i @ [f]])) = add_mset f (sum_list (map mset qs))"
    "sum_list (map (int \<circ> length) (qs[i := qs ! i @ [f]])) = sum_list (map (int \<circ> length) qs) + 1"
  using sum_list_upd [OF assms, of mset "qs ! i @ [f]"] sum_list_upd [OF assms, of "int \<circ> length" "qs ! i @ [f]"] by simp_all

lemma pop_front_Some: "pop_front q = Some (f, q') \<Longrightarrow> q = f # q'"
  by (auto simp: pop_front_def split: list.splits)

lemma steal_Some: "steal q = Some (f, q') \<Longrightarrow> mset q = add_mset f (mset q') \<and> (q' \<noteq> [] \<longrightarrow> q \<noteq> [])"
  by (cases q rule: rev_cases) (auto simp: steal_def)

section \<open>The invariant\<close>

lemma sum_list_zeros: "sum_list (replicate n (0 :: 'm::comm_monoid_add)) = 0"
  by (induction n) auto

lemma thread_pool_inv: "pool_inv n (thread_pool n)"
  using sum_list_zeros [where 'm = "'a multiset"]
  by (auto simp: pool_inv_def pool_shape_def pool_tasks_def pool_counts_def pool_signals_def thread_pool_def queued_def sum_list_zeros)

lemma enqueue_task_inv:
  assumes "pool_inv n p"
  shows "pool_inv n (enqueue_task f p)"
proof (cases "priority_queue p")
  case Nil
  then show ?thesis
    using assms by (auto simp: enqueue_task_def copy_front_and_rotate_to_back_def pool_inv_def pool_shape_def pool_tasks_def pool_counts_def
        pool_signals_def queued_def)
next
  case (Cons i q)
  then have "i < n" using assms by (auto simp: pool_inv_def pool_shape_def)
  then show ?thesis
    using assms Cons by (auto simp: enqueue_task_def copy_front_and_rotate_to_back_def pool_inv_def pool_shape_def pool_tasks_def pool_counts_def
        pool_signals_def queued_def)
qed

text \<open>A worker that holds no task goes on without one, or takes one from a queue.\<close>

lemma sum_unchanged:
  fixes g :: "'x \<Rightarrow> 'm::cancel_comm_monoid_add"
  shows "i < length xs \<Longrightarrow> g y = g (xs ! i) \<Longrightarrow> sum_list (map g (xs[i := y])) = sum_list (map g xs)"
  using sum_list_upd [of i xs g y] by (metis add_right_cancel)

lemma pool_shape_update:
  assumes "pool_shape n p" "length (queues p') = length (queues p)" "length (signals p') = length (signals p)"
    "length (workers p') = length (workers p)" "set (priority_queue p') = set (priority_queue p)" "enqueuers p' = enqueuers p"
  shows "pool_shape n p'"
  using assms by (simp add: pool_shape_def)

lemma worker_moves:
  assumes inv: "pool_inv n p" and i: "i < n" and same: "held w = held (workers p ! i)" "busy w = busy (workers p ! i)" "taking w = taking (workers p ! i)"
    and serving: "serving (workers p ! i) \<Longrightarrow> serving w \<or> queues p ! i = []"
    and p': "workers p' = (workers p)[i := w]" "queues p' = queues p" "signals p' = signals p" "set (priority_queue p') = set (priority_queue p)"
      "enqueuers p' = enqueuers p" "accepted p' = accepted p" "invoked p' = invoked p" "unassigned_tasks p' = unassigned_tasks p"
      "in_flight_tasks p' = in_flight_tasks p"
  shows "pool_inv n p'"
proof -
  have i: "i < length (workers p)" using inv i by (auto simp: pool_inv_def pool_shape_def)
  note sums = sum_unchanged [OF i same(1)] sum_unchanged [OF i same(2)] sum_unchanged [OF i same(3)]
  have "pool_shape n p'"
    by (rule pool_shape_update [of n p]) (use inv p' in \<open>auto simp: pool_inv_def\<close>)
  moreover have "pool_tasks p'" "pool_counts p'"
    using inv sums p' by (simp_all add: pool_inv_def pool_tasks_def pool_counts_def queued_def)
  moreover have "pool_signals p'"
    unfolding pool_signals_def p'
  proof (intro allI impI)
    fix k assume k: "k < length (queues p)" "queues p ! k \<noteq> []"
    then have "0 < signals p ! k \<or> serving (workers p ! k) \<or> Release k \<in> set (enqueuers p)"
      using inv by (auto simp: pool_inv_def pool_signals_def)
    then show "0 < signals p ! k \<or> serving ((workers p)[i := w] ! k) \<or> Release k \<in> set (enqueuers p)"
      using serving k i by (cases "k = i") auto
  qed
  ultimately show ?thesis by (simp add: pool_inv_def)
qed

lemma worker_takes:
  assumes inv: "pool_inv n p" and i: "i < n" "k < n" and free: "held (workers p ! i) = {#}" "busy (workers p ! i) = 0" "taking (workers p ! i) = 0"
    and q: "mset (queues p ! k) = add_mset f (mset q)" and serving: "serving (workers p ! i) \<Longrightarrow> \<not> stolen"
    and p': "p' = p\<lparr>queues := (queues p)[k := q], workers := (workers p)[i := Take stolen f]\<rparr>"
  shows "pool_inv n p'"
proof -
  have len: "i < length (workers p)" "k < length (queues p)" using inv i by (auto simp: pool_inv_def pool_shape_def)
  have "pool_shape n p'"
    by (rule pool_shape_update [of n p]) (use inv p' in \<open>auto simp: pool_inv_def\<close>)
  moreover have "pool_tasks p'"
    using inv queue_taken(1) [OF len(2) q] sum_mset_upd(1) [OF len(1), of held "Take stolen f", OF free(1)]
    unfolding p' by (simp add: pool_inv_def pool_tasks_def)
  moreover have "pool_counts p'"
    using inv queue_taken(2) [OF len(2) q] sum_list_upd [OF len(1), of busy "Take stolen f"] sum_list_upd [OF len(1), of taking "Take stolen f"] free(2, 3)
    unfolding p' by (simp add: pool_inv_def pool_counts_def queued_def)
  moreover have "pool_signals p'"
    unfolding pool_signals_def p'
  proof (simp, intro allI impI)
    fix j assume j: "j < length (queues p)" "(queues p)[k := q] ! j \<noteq> []"
    then have "queues p ! j \<noteq> []" using q by (cases "j = k") (auto simp: len)
    then have "0 < signals p ! j \<or> serving (workers p ! j) \<or> Release j \<in> set (enqueuers p)"
      using inv j by (auto simp: pool_inv_def pool_signals_def)
    then show "0 < signals p ! j \<or> serving ((workers p)[i := Take stolen f] ! j) \<or> Release j \<in> set (enqueuers p)"
      using serving len by (cases "j = i") auto
  qed
  ultimately show ?thesis by (simp add: pool_inv_def)
qed

text \<open>The steps with a task, where the counts go down, and \<open>acquire\<close>.\<close>

lemma worker_counts:
  assumes inv: "pool_inv n p" and i: "i < n" and serving: "serving (workers p ! i) \<Longrightarrow> serving w"
    and task: "mset fs + held w = held (workers p ! i)" "taking w = taking (workers p ! i) - u" "busy w = busy (workers p ! i) - c"
    and p': "p' = p\<lparr>workers := (workers p)[i := w], invoked := invoked p @ fs, unassigned_tasks := unassigned_tasks p - u,
      in_flight_tasks := in_flight_tasks p - c\<rparr>"
  shows "pool_inv n p'"
proof -
  have i: "i < length (workers p)" using inv i by (auto simp: pool_inv_def pool_shape_def)
  have "pool_shape n p'"
    by (rule pool_shape_update [of n p]) (use inv p' in \<open>auto simp: pool_inv_def\<close>)
  moreover have "sum_list (map held ((workers p)[i := w])) + mset fs = sum_list (map held (workers p))"
    using sum_list_upd [OF i, of held w] unfolding task(1) [symmetric] by (simp add: ac_simps)
  then have "pool_tasks p'"
    using inv unfolding p' by (simp add: pool_inv_def pool_tasks_def ac_simps)
  moreover have "pool_counts p'"
    using inv sum_list_upd [OF i, of busy w] sum_list_upd [OF i, of taking w] task(2, 3)
    unfolding p' by (simp add: pool_inv_def pool_counts_def queued_def)
  moreover have "pool_signals p'"
    using inv serving i unfolding p' pool_inv_def pool_signals_def by (auto simp: nth_list_update)
  ultimately show ?thesis by (simp add: pool_inv_def)
qed

lemma worker_acquires:
  assumes inv: "pool_inv n p" and i: "i < n" and w: "workers p ! i = Acquire"
    and p': "p' = p\<lparr>workers := (workers p)[i := Pop], signals := (signals p)[i := signals p ! i - 1]\<rparr>"
  shows "pool_inv n p'"
proof -
  have len: "i < length (workers p)" "i < length (signals p)" using inv i by (auto simp: pool_inv_def pool_shape_def)
  have "pool_inv n (p\<lparr>workers := (workers p)[i := Pop]\<rparr>)"
    by (rule worker_moves [OF inv i, of Pop]) (simp_all add: w)
  then show ?thesis
    using len unfolding p' pool_inv_def pool_shape_def pool_tasks_def pool_counts_def pool_signals_def queued_def
    by (auto simp: nth_list_update)
qed

lemma set_rotate_to_front: "set (rotate_to_front x q) = insert x (set q)"
  by (induction q) (auto simp: rotate_to_front_def)

lemma worker_step_inv:
  assumes step: "worker_step i p = Some p'" and i: "i < n" and inv: "pool_inv n p"
  shows "pool_inv n p'"
proof (cases "workers p ! i")
  case Acquire
  then show ?thesis
    using step by (intro worker_acquires [OF inv i]) (auto simp: worker_step_def Let_def split: if_splits)
next
  case Pop
  show ?thesis
  proof (cases "pop_front (queues p ! i)")
    case None
    then have "queues p ! i = []" by (auto simp: pop_front_def split: list.splits)
    then show ?thesis
      using step Pop None by (intro worker_moves [OF inv i, of "Steal 1"]) (auto simp: worker_step_def Let_def)
  next
    case (Some fq)
    then obtain f q where fq: "pop_front (queues p ! i) = Some (f, q)" by (cases fq) auto
    show ?thesis
      by (rule worker_takes [OF inv i i, of f q False]) (use step Pop fq pop_front_Some [OF fq] in \<open>auto simp: worker_step_def Let_def\<close>)
  qed
next
  case (Steal j)
  let ?k = "(i + j) mod length (queues p)"
  have k: "?k < n" using inv i by (auto simp: pool_inv_def pool_shape_def)
  show ?thesis
  proof (cases "length (queues p) \<le> j \<or> steal (queues p ! ?k) = None")
    case True
    then show ?thesis
      using step Steal by (intro worker_moves [OF inv i, of "if length (queues p) \<le> j then Check else Steal (j + 1)"]) (auto simp: worker_step_def Let_def split: if_splits)
  next
    case False
    then obtain f q where fq: "steal (queues p ! ?k) = Some (f, q)" by auto
    show ?thesis
      by (rule worker_takes [OF inv i k, of f q True]) (use step Steal fq steal_Some [OF fq] False in \<open>auto simp: worker_step_def Let_def\<close>)
  qed
next
  case (Take b f)
  then show ?thesis
    using step by (intro worker_counts [OF inv i, where w = "Invoke b f" and fs = "[]" and u = 1 and c = 0]) (auto simp: worker_step_def Let_def)
next
  case (Invoke b f)
  then show ?thesis
    using step by (intro worker_counts [OF inv i, where w = "Finish b" and fs = "[f]" and u = 0 and c = 0]) (auto simp: worker_step_def Let_def)
next
  case (Finish b)
  then show ?thesis
    using step by (intro worker_counts [OF inv i, where w = "if b then Check else Pop" and fs = "[]" and u = 0 and c = 1]) (auto simp: worker_step_def Let_def)
next
  case Check
  then show ?thesis
    using step by (intro worker_moves [OF inv i, of "if 0 < unassigned_tasks p then Pop else Rotate"]) (auto simp: worker_step_def Let_def)
next
  case Rotate
  then have p': "p' = p\<lparr>priority_queue := rotate_to_front i (priority_queue p), workers := (workers p)[i := Flight]\<rparr>"
    using step by (simp add: worker_step_def)
  have "i \<in> set (priority_queue p)" using inv i by (auto simp: pool_inv_def pool_shape_def)
  then have "set (rotate_to_front i (priority_queue p)) = set (priority_queue p)"
    unfolding set_rotate_to_front by (rule insert_absorb)
  then show ?thesis
    unfolding p' by (intro worker_moves [OF inv i, of Flight]) (simp_all add: Rotate)
next
  case Flight
  then show ?thesis
    using step by (intro worker_moves [OF inv i, of "if in_flight_tasks p = 0 then Complete else Acquire"]) (auto simp: worker_step_def Let_def)
next
  case Complete
  then show ?thesis
    using step by (intro worker_moves [OF inv i, of Acquire]) (auto simp: worker_step_def Let_def)
qed

lemma enqueuer_moves:
  assumes inv: "pool_inv n p" and e: "e < length (enqueuers p)" and t: "targets_of x = targets_of (enqueuers p ! e) \<or> targets_of x = None"
    and pending: "pending x = pending (enqueuers p ! e)" and counts: "counted x = counted (enqueuers p ! e) + c" "unassigned x = unassigned (enqueuers p ! e) + u"
    and r: "\<And>i. enqueuers p ! e \<noteq> Release i"
    and p': "enqueuers p' = (enqueuers p)[e := x]" "in_flight_tasks p' = in_flight_tasks p + c" "unassigned_tasks p' = unassigned_tasks p + u"
      "queues p' = queues p" "signals p' = signals p" "workers p' = workers p" "priority_queue p' = priority_queue p" "accepted p' = accepted p"
      "invoked p' = invoked p"
  shows "pool_inv n p'"
proof -
  have "\<forall>y\<in>set (enqueuers p'). \<forall>i. targets_of y = Some i \<longrightarrow> i < n"
    using inv t nth_mem [OF e] unfolding p' pool_inv_def pool_shape_def by (auto dest!: set_update_subset_insert [THEN subsetD])
  then have "pool_shape n p'" using inv by (simp add: pool_inv_def pool_shape_def p')
  moreover have "pool_tasks p'"
    using inv sum_unchanged [OF e pending] by (simp add: pool_inv_def pool_tasks_def p')
  moreover have "pool_counts p'"
    using inv sum_list_upd [OF e, of counted x] sum_list_upd [OF e, of unassigned x] counts
    by (simp add: pool_inv_def pool_counts_def queued_def p')
  moreover have "Release i \<in> set (enqueuers p')" if "Release i \<in> set (enqueuers p)" for i
    using that r e unfolding p' by (metis in_set_conv_nth length_list_update nth_list_update_neq)
  then have "pool_signals p'" using inv unfolding pool_inv_def pool_signals_def p' by blast
  ultimately show ?thesis by (simp add: pool_inv_def)
qed

lemma enqueuer_assigns:
  assumes inv: "pool_inv n p" and e: "e < length (enqueuers p)" "enqueuers p ! e = Assign i f"
    and p': "p' = p\<lparr>queues := (queues p)[i := queues p ! i @ [f]], enqueuers := (enqueuers p)[e := Release i]\<rparr>"
  shows "pool_inv n p'"
proof -
  have t: "\<forall>y\<in>set (enqueuers p). \<forall>k. targets_of y = Some k \<longrightarrow> k < n" using inv by (simp add: pool_inv_def pool_shape_def)
  then have "i < n" using nth_mem [OF e(1)] e(2) by fastforce
  then have i: "i < length (queues p)" using inv by (simp add: pool_inv_def pool_shape_def)
  have "\<forall>y\<in>set (enqueuers p'). \<forall>k. targets_of y = Some k \<longrightarrow> k < n"
    using t \<open>i < n\<close> unfolding p' by (auto dest!: set_update_subset_insert [THEN subsetD])
  then have "pool_shape n p'" using inv by (simp add: pool_inv_def pool_shape_def p')
  moreover have "pool_tasks p'"
    using inv queue_pushed(1) [OF i, of f] sum_mset_upd(2) [OF e(1), of pending "Release i"] e(2)
    unfolding p' by (simp add: pool_inv_def pool_tasks_def)
  moreover have "pool_counts p'"
    using inv queue_pushed(2) [OF i, of f] sum_list_upd [OF e(1), of counted "Release i"] sum_list_upd [OF e(1), of unassigned "Release i"] e(2)
    unfolding p' by (simp add: pool_inv_def pool_counts_def queued_def)
  moreover have "pool_signals p'"
    unfolding pool_signals_def
  proof (intro allI impI)
    fix k assume k: "k < length (queues p')" "queues p' ! k \<noteq> []"
    have "Release k \<in> set ((enqueuers p)[e := Release i])" if "Release k \<in> set (enqueuers p)"
      using that e by (metis enqueuer.distinct(25) in_set_conv_nth length_list_update nth_list_update_neq)
    then show "0 < signals p' ! k \<or> serving (workers p' ! k) \<or> Release k \<in> set (enqueuers p')"
      using inv k e(1) i unfolding p' pool_inv_def pool_signals_def by (cases "k = i") (auto intro: set_update_memI)
  qed
  ultimately show ?thesis by (simp add: pool_inv_def)
qed

lemma enqueuer_releases:
  assumes inv: "pool_inv n p" and e: "e < length (enqueuers p)" "enqueuers p ! e = Release i"
    and p': "p' = p\<lparr>signals := (signals p)[i := signals p ! i + 1], enqueuers := (enqueuers p)[e := Returned]\<rparr>"
  shows "pool_inv n p'"
proof -
  have t: "\<forall>y\<in>set (enqueuers p). \<forall>k. targets_of y = Some k \<longrightarrow> k < n" using inv by (simp add: pool_inv_def pool_shape_def)
  then have "i < n" using nth_mem [OF e(1)] e(2) by fastforce
  then have i: "i < length (signals p)" using inv by (simp add: pool_inv_def pool_shape_def)
  have "\<forall>y\<in>set (enqueuers p'). \<forall>k. targets_of y = Some k \<longrightarrow> k < n"
    using t unfolding p' by (auto dest!: set_update_subset_insert [THEN subsetD])
  then have "pool_shape n p'" using inv by (simp add: pool_inv_def pool_shape_def p')
  moreover have "pool_tasks p'" "pool_counts p'"
    using inv sum_unchanged [OF e(1), of pending Returned] sum_unchanged [OF e(1), of counted Returned] sum_unchanged [OF e(1), of unassigned Returned] e(2)
    unfolding p' by (simp_all add: pool_inv_def pool_tasks_def pool_counts_def queued_def)
  moreover have "pool_signals p'"
    unfolding pool_signals_def
  proof (intro allI impI)
    fix k assume k: "k < length (queues p')" "queues p' ! k \<noteq> []"
    have "Release k \<in> set ((enqueuers p)[e := Returned])" if "Release k \<in> set (enqueuers p)" "k \<noteq> i"
      using that e by (metis enqueuer.inject(5) in_set_conv_nth length_list_update nth_list_update_neq)
    then show "0 < signals p' ! k \<or> serving (workers p' ! k) \<or> Release k \<in> set (enqueuers p')"
      using inv k i unfolding p' pool_inv_def pool_signals_def by (cases "k = i") auto
  qed
  ultimately show ?thesis by (simp add: pool_inv_def)
qed

lemma enqueue_step_inv:
  assumes step: "enqueue_step e p = Some p'" and e: "e < length (enqueuers p)" and inv: "pool_inv n p"
  shows "pool_inv n p'"
proof (cases "enqueuers p ! e")
  case (Count_unassigned i f)
  then show ?thesis
    using step by (intro enqueuer_moves [OF inv e, of "Count_flight i f" 0 1]) (auto simp: enqueue_step_def)
next
  case (Count_flight i f)
  then show ?thesis
    using step by (intro enqueuer_moves [OF inv e, of "if in_flight_tasks p = 0 then Reset_signal i f else Assign i f" 1 0]) (auto simp: enqueue_step_def)
next
  case (Reset_signal i f)
  then show ?thesis
    using step by (intro enqueuer_moves [OF inv e, of "Assign i f" 0 0]) (auto simp: enqueue_step_def)
next
  case (Assign i f)
  then show ?thesis
    using step by (intro enqueuer_assigns [OF inv e]) (auto simp: enqueue_step_def push_back_def)
next
  case (Release i)
  then show ?thesis
    using step by (intro enqueuer_releases [OF inv e]) (auto simp: enqueue_step_def)
qed (use step in \<open>simp add: enqueue_step_def\<close>)

lemma pool_step_inv:
  assumes "pool_step e p = Some p'" "pool_inv n p"
  shows "pool_inv n p'"
proof -
  have "length (workers p) = n" using assms(2) by (simp add: pool_inv_def pool_shape_def)
  then show ?thesis
    using assms enqueue_task_inv worker_step_inv enqueue_step_inv by (cases e) (auto split: if_splits)
qed

interpretation pool_events: event_system pool_step pool_run
  by unfold_locales simp_all

lemma pool_run_inv: "pool_run es p = Some p' \<Longrightarrow> pool_inv n p \<Longrightarrow> pool_inv n p'"
  by (erule pool_events.run_invariant) (assumption, rule pool_step_inv)

section \<open>Every task is run once\<close>

text \<open>The tasks of a run.\<close>

fun enqueued :: "'a pool_event list \<Rightarrow> 'a list" where
  "enqueued [] = []"
| "enqueued (Enqueue f # es) = f # enqueued es"
| "enqueued (_ # es) = enqueued es"

lemma accepted_step:
  assumes "pool_step e p = Some p'" "pool_inv n p" "0 < n"
  shows "accepted p' = accepted p @ enqueued [e]"
proof (cases e)
  case (Enqueue f)
  have "priority_queue p \<noteq> []" using assms(2, 3) by (auto simp: pool_inv_def pool_shape_def)
  then show ?thesis
    using assms(1) Enqueue by (auto simp: enqueue_task_def copy_front_and_rotate_to_back_def split: list.splits)
next
  case (Advance k)
  then show ?thesis
    using assms(1) by (auto simp: enqueue_step_def split: if_splits enqueuer.splits)
next
  case (Work i)
  then show ?thesis
    using assms(1) by (auto simp: worker_step_def Let_def split: if_splits worker.splits option.splits)
qed

lemma enqueued_append: "enqueued (es @ fs) = enqueued es @ enqueued fs"
  by (induction es rule: enqueued.induct) auto

lemma accepted_run:
  assumes "pool_run es p = Some p'" "pool_inv n p" "0 < n"
  shows "accepted p' = accepted p @ enqueued es"
  using assms(1)
proof (rule pool_events.run_history, goal_cases)
  case (2 es e u v)
  then show ?case
    using accepted_step [OF 2(2) pool_run_inv [OF 2(1) assms(2)] assms(3)] by (simp add: enqueued_append)
qed simp

lemma busy_nonneg: "0 \<le> busy w" "busy w = 0 \<Longrightarrow> held w = {#}"
  by (cases w; simp)+

lemma counted_nonneg: "0 \<le> counted e"
  by (cases e) auto

lemma sum_list_empty: "\<forall>x\<in>set xs. g x = {#} \<Longrightarrow> sum_list (map g xs) = {#}"
  by (induction xs) auto

lemma idle_pool:
  assumes "pool_inv n p" "\<forall>q\<in>set (queues p). q = []" "\<forall>w\<in>set (workers p). held w = {#}" "\<forall>e\<in>set (enqueuers p). e = Returned"
  shows "mset (invoked p) = mset (accepted p)"
proof -
  have "sum_list (map mset (queues p)) = {#}" "sum_list (map held (workers p)) = {#}" "sum_list (map pending (enqueuers p)) = {#}"
    using assms(2-4) by (auto intro!: sum_list_empty)
  then show ?thesis using assms(1) by (simp add: pool_inv_def pool_tasks_def)
qed

lemma tasks_done_idle:
  assumes "pool_inv n p" "tasks_done p"
  shows "\<forall>q\<in>set (queues p). q = []" "\<forall>w\<in>set (workers p). held w = {#}"
proof -
  let ?q = "map (int \<circ> length) (queues p)" and ?w = "map busy (workers p)"
  have n: "\<And>x. x \<in> set ?q \<Longrightarrow> 0 \<le> x" "\<And>x. x \<in> set ?w \<Longrightarrow> 0 \<le> x" "\<And>x. x \<in> set (map counted (enqueuers p)) \<Longrightarrow> 0 \<le> x"
    using busy_nonneg(1) counted_nonneg by auto
  have "sum_list ?q + sum_list ?w + sum_list (map counted (enqueuers p)) \<le> 0"
    using assms by (simp add: pool_inv_def pool_counts_def queued_def tasks_done_def)
  moreover have "0 \<le> sum_list ?q" "0 \<le> sum_list ?w" "0 \<le> sum_list (map counted (enqueuers p))"
    using n by (auto intro!: sum_list_nonneg)
  ultimately have "sum_list ?q = 0" "sum_list ?w = 0" by linarith+
  then have "\<forall>x\<in>set ?q. x = 0" "\<forall>x\<in>set ?w. x = 0"
    using sum_list_nonneg_eq_0_iff [OF n(1)] sum_list_nonneg_eq_0_iff [OF n(2)] by blast+
  then show "\<forall>q\<in>set (queues p). q = []" "\<forall>w\<in>set (workers p). held w = {#}" using busy_nonneg(2) by auto
qed

lemma stuck_idle:
  assumes inv: "pool_inv n p" and stuck: "\<And>i. pool_step (Work i) p = None" "\<And>e. pool_step (Advance e) p = None"
  shows "\<forall>q\<in>set (queues p). q = []" "\<forall>w\<in>set (workers p). w = Acquire" "\<forall>e\<in>set (enqueuers p). e = Returned"
proof -
  have w: "workers p ! i = Acquire \<and> signals p ! i = 0" if "i < length (workers p)" for i
    using stuck(1) [of i] that by (auto simp: worker_step_def Let_def split: worker.splits option.splits if_splits)
  then show "\<forall>w\<in>set (workers p). w = Acquire" by (metis in_set_conv_nth)
  have "enqueuers p ! e = Returned" if "e < length (enqueuers p)" for e
    using stuck(2) [of e] that by (auto simp: enqueue_step_def split: enqueuer.splits)
  then show r: "\<forall>e\<in>set (enqueuers p). e = Returned" by (metis in_set_conv_nth)
  have "queues p ! i = []" if "i < length (queues p)" for i
  proof (rule ccontr)
    assume "queues p ! i \<noteq> []"
    then have "0 < signals p ! i \<or> serving (workers p ! i) \<or> Release i \<in> set (enqueuers p)"
      using inv that by (auto simp: pool_inv_def pool_signals_def)
    moreover have "i < length (workers p)" using inv that by (simp add: pool_inv_def pool_shape_def)
    ultimately show False using w r by fastforce
  qed
  then show "\<forall>q\<in>set (queues p). q = []" by (metis in_set_conv_nth)
qed


text \<open>Two tasks for the two threads of a pool: the first thread runs its own task and steals the other.\<close>

definition sample_schedule :: "u64 pool_event list" where
  "sample_schedule = [Enqueue 10, Enqueue 20] @ replicate 5 (Advance 0) @ replicate 4 (Advance 1) @ replicate 14 (Work 0) @ replicate 8 (Work 1)"

definition sample_threads :: "u64 pool" where
  "sample_threads = the (pool_run sample_schedule (thread_pool 2))"

lemma sample_threads_run: "pool_run sample_schedule (thread_pool 2) = Some sample_threads"
proof -
  have "pool_run sample_schedule (thread_pool 2) \<noteq> None" by code_simp
  then show ?thesis by (auto simp: sample_threads_def)
qed

lemma sample_threads_stuck: "pool_step (Work i) sample_threads = None" "pool_step (Advance e) sample_threads = None"
proof -
  have "length (workers sample_threads) = 2 \<and> length (enqueuers sample_threads) = 2 \<and> worker_step 0 sample_threads = None \<and> worker_step 1 sample_threads = None \<and>
    enqueue_step 0 sample_threads = None \<and> enqueue_step 1 sample_threads = None"
    by code_simp
  then show "pool_step (Work i) sample_threads = None" "pool_step (Advance e) sample_threads = None"
    by (auto simp: less_2_cases_iff)
qed


text \<open>The constructor asks for \<open>hardware_concurrency\<close> threads, which may be zero: such a pool drops every task. And the semaphore of a worker,
  whose count must not exceed one, is released as often as tasks are assigned to the worker.\<close>

lemma no_threads:
  assumes "pool_run es (thread_pool 0) = Some p"
  shows "invoked p = []"
proof -
  have "accepted p' = []" if "pool_run es p = Some p'" "pool_inv 0 p" "accepted p = []" for es and p p' :: "'a pool"
    using that
  proof (induction es arbitrary: p)
    case (Cons e es)
    then obtain q where q: "pool_step e p = Some q" "pool_run es q = Some p'" by (auto split: Option.bind_splits)
    have "accepted q = []"
      using q(1) Cons.prems(2, 3) by (cases e) (auto simp: enqueue_task_def copy_front_and_rotate_to_back_def enqueue_step_def pool_inv_def pool_shape_def
        split: if_splits enqueuer.splits)
    then show ?case using Cons.IH q pool_step_inv Cons.prems(2) by blast
  qed simp
  then have "accepted p = []" using assms thread_pool_inv by (fastforce simp: thread_pool_def)
  moreover have "pool_inv 0 p" by (rule pool_run_inv [OF assms thread_pool_inv])
  ultimately show ?thesis by (simp add: pool_inv_def pool_tasks_def)
qed

lemma signal_released_twice:
  "\<exists>p. pool_run ([Enqueue 1, Enqueue 2] @ replicate 5 (Advance 0) @ replicate 4 (Advance 1)) (thread_pool 1 :: u64 pool) = Some p \<and> signals p ! 0 = 2"
proof -
  have "case pool_run ([Enqueue 1, Enqueue 2] @ replicate 5 (Advance 0) @ replicate 4 (Advance 1)) (thread_pool 1 :: u64 pool) of
      Some p \<Rightarrow> signals p ! 0 = 2 | None \<Rightarrow> False"
    by code_simp
  then show ?thesis by (auto split: option.splits)
qed

section \<open>Awaiting a function in the pool\<close>

text \<open>How the function ends, and the awaiter: the lambda that the pool runs stores the result or the exception and posts the handle of the
  coroutine, by which the task is known to the pool.\<close>

datatype 'r call = Returns 'r | Throws string | Throws_unknown

record 'r RunInPoolAwaiter =
  res :: "'r option"
  err :: "string option option"

definition RunInPoolAwaiter_new :: "'r RunInPoolAwaiter" where
  "RunInPoolAwaiter_new = \<lparr>res = None, err = None\<rparr>"

definition pool_await_suspend :: "u64 \<Rightarrow> u64 pool \<Rightarrow> u64 pool" where
  "pool_await_suspend h p = enqueue_task h p"

definition pool_call :: "'r call \<Rightarrow> 'r RunInPoolAwaiter \<Rightarrow> 'r RunInPoolAwaiter" where
  "pool_call c a = (case c of
      Returns v \<Rightarrow> a\<lparr>res := Some v\<rparr>
    | Throws what \<Rightarrow> a\<lparr>err := Some (Some what)\<rparr>
    | Throws_unknown \<Rightarrow> a\<lparr>err := Some None\<rparr>)"

definition pool_await_resume :: "'r RunInPoolAwaiter \<Rightarrow> 'r result outcome" where
  "pool_await_resume a = (case err a of
      Some (Some what) \<Rightarrow> Ok (Inl (Error interrupted what))
    | Some None \<Rightarrow> Ok (Inl (Error interrupted ''run_in_pool unknown err''))
    | None \<Rightarrow> (case res a of Some v \<Rightarrow> Ok (Inr v) | None \<Rightarrow> Undefined))"

text \<open>The awaiter of a coroutine when its handle has been posted, and before.\<close>

definition awaiter_of :: "(u64 \<Rightarrow> 'r call) \<Rightarrow> u64 pool \<Rightarrow> u64 \<Rightarrow> 'r RunInPoolAwaiter" where
  "awaiter_of func p h = (if h \<in> set (invoked p) then pool_call (func h) RunInPoolAwaiter_new else RunInPoolAwaiter_new)"


definition sample_handled :: wakeup where
  "sample_handled = \<lparr>tasks = [], flag = False, counter = 0, pushers = 0, writers = 0, pc = Armed, posted = [10, 20], taken = [10, 20]\<rparr>"

lemma sample_handled_run:
  "wakeup_run wakeup_init [Push 10, Exchange, WriteEvent, Push 20, Exchange, KernelRead, StoreFlag, Swap, RunHandle, RunHandle, Rearm] sample_handled"
  unfolding wakeup_init_def sample_handled_def
  by (rule run_cons, rule post_push, rule run_cons, rule post_exchange, simp, rule run_cons, rule post_write, simp,
      rule run_cons, rule post_push, rule run_cons, rule post_exchange, simp, rule run_cons, rule kernel_read, simp, simp,
      rule run_cons, rule store_flag, simp, rule run_cons, rule swap, simp, rule run_cons, rule run_handle, simp,
      rule run_cons, rule run_handle, simp, rule run_cons, rule rearm, simp, simp add: run_nil)


end
