(* ===== verification/Diagnostics.thy ===== *)
theory Diagnostics
  imports Ppnt_Prelude "HOL-Library.Sublist"
begin

text \<open>
  Errors as they are reported (\<open>err.ixx\<close>) and the log (\<open>log.ixx\<close>, \<open>log.cpp\<close>). An \<open>Error\<close> has a code, a source location, a message
  and possibly the error that caused it, which it owns; the text of a code is a parameter. The rest of the development only looks at
  the code and the message of an error, which is its \<open>view\<close> here.
\<close>

section \<open>Errors with causes\<close>

record source_location =
  loc_file :: string
  loc_line :: nat

datatype diag = Diag (diag_ec: errc) (diag_loc: source_location) (diag_message: string) (diag_cause: "diag option")

definition Error_new :: "errc \<Rightarrow> string \<Rightarrow> source_location \<Rightarrow> diag" where
  "Error_new ec msg loc = Diag ec loc msg None"

definition make_err_result :: "errc \<Rightarrow> string \<Rightarrow> source_location \<Rightarrow> diag + 'a" where
  "make_err_result ec msg loc = Inl (Error_new ec msg loc)"

text \<open>The copy constructor copies the causes; the assignment from another error replaces everything.\<close>

primrec Error_copy :: "diag \<Rightarrow> diag" where
  "Error_copy (Diag ec loc msg cause) = Diag ec loc msg (case map_option Error_copy cause of None \<Rightarrow> None | Some c \<Rightarrow> Some c)"

definition Error_assign :: "diag \<Rightarrow> diag \<Rightarrow> diag" where
  "Error_assign this other =
    Diag (diag_ec other) (diag_loc other) (diag_message other)
      (case diag_cause other of Some c \<Rightarrow> Some (Error_copy c) | None \<Rightarrow> None)"

definition with_cause :: "diag \<Rightarrow> diag \<Rightarrow> diag" where
  "with_cause c e = Diag (diag_ec e) (diag_loc e) (diag_message e) (Some (Error_copy c))"

definition error_bool :: "diag \<Rightarrow> bool" where
  "error_bool e \<longleftrightarrow> errc_value (diag_ec e) \<noteq> 0"

definition error_eq :: "diag \<Rightarrow> diag \<Rightarrow> bool" where
  "error_eq a b \<longleftrightarrow> same_code (diag_ec a) (diag_ec b)"

definition what :: "(errc \<Rightarrow> string) \<Rightarrow> diag \<Rightarrow> string" where
  "what text_of e = (if diag_message e = [] then text_of (diag_ec e) else text_of (diag_ec e) @ '': '' @ diag_message e)"

definition view :: "diag \<Rightarrow> ppnt_error" where
  "view e = Error (diag_ec e) (diag_message e)"

section \<open>Paths\<close>

definition is_separator :: "char \<Rightarrow> bool" where
  "is_separator c \<longleftrightarrow> c = CHR ''/'' \<or> c = CHR 0x5C"

definition extract_filename :: "string \<Rightarrow> string" where
  "extract_filename p = (case rfind_index is_separator p of Some pos \<Rightarrow> drop (pos + 1) p | None \<Rightarrow> p)"

text \<open>\<open>find\<close> of a text, and \<open>rfind\<close> of a character at or before a position.\<close>

fun find_text :: "string \<Rightarrow> string \<Rightarrow> nat option" where
  "find_text t [] = (if t = [] then Some 0 else None)"
| "find_text t (c # cs) = (if starts_with t (c # cs) then Some 0 else map_option Suc (find_text t cs))"

definition rfind_from :: "char \<Rightarrow> nat \<Rightarrow> string \<Rightarrow> nat option" where
  "rfind_from c pos p = rfind_index (\<lambda>x. x = c) (take (pos + 1) p)"

definition back_src :: string where
  "back_src = [CHR 0x5C, CHR ''s'', CHR ''r'', CHR ''c'', CHR 0x5C]"

definition extract_project_path :: "string \<Rightarrow> string" where
  "extract_project_path p =
    (let src_pos = (case find_text ''/src/'' p of None \<Rightarrow> find_text back_src p | x \<Rightarrow> x) in
     case src_pos of
       None \<Rightarrow> p
     | Some src_pos \<Rightarrow>
         let parent_slash = (if 0 < src_pos
           then (case rfind_from (CHR ''/'') (src_pos - 1) p of None \<Rightarrow> rfind_from (CHR 0x5C) (src_pos - 1) p | x \<Rightarrow> x)
           else None)
         in (case parent_slash of Some i \<Rightarrow> drop (i + 1) p | None \<Rightarrow> drop (src_pos + 1) p))"

section \<open>Reports\<close>

definition newline :: string where "newline = [CHR 0x0A]"

definition error_line :: "(errc \<Rightarrow> string) \<Rightarrow> diag \<Rightarrow> string" where
  "error_line text_of e = ''['' @ errc_category (diag_ec e) @ '':'' @ to_string_int (errc_value (diag_ec e)) @ ''] '' @ what text_of e @
     '' @ '' @ extract_project_path (loc_file (diag_loc e)) @ '':'' @ to_string_int (int (loc_line (diag_loc e)))"

text \<open>The loop of the formatter over the causes.\<close>

fun format_loop :: "(errc \<Rightarrow> string) \<Rightarrow> diag option \<Rightarrow> bool \<Rightarrow> string \<Rightarrow> string" where
  "format_loop text_of None is_first out = out"
| "format_loop text_of (Some (Diag ec loc msg cause)) is_first out =
    format_loop text_of cause False
      (out @ (if is_first then newline else newline @ ''  Caused by: '') @ error_line text_of (Diag ec loc msg cause))"

definition format_error :: "(errc \<Rightarrow> string) \<Rightarrow> diag \<Rightarrow> string" where
  "format_error text_of e = format_loop text_of (Some e) True []"

section \<open>The log\<close>

datatype log_level = LDebug | LInfo | LWarn | LError

primrec level_int :: "log_level \<Rightarrow> nat" where
  "level_int LDebug = 0"
| "level_int LInfo = 1"
| "level_int LWarn = 2"
| "level_int LError = 3"

instantiation log_level :: linorder
begin

definition less_eq_log_level :: "log_level \<Rightarrow> log_level \<Rightarrow> bool" where
  "less_eq_log_level a b \<longleftrightarrow> level_int a \<le> level_int b"

definition less_log_level :: "log_level \<Rightarrow> log_level \<Rightarrow> bool" where
  "less_log_level a b \<longleftrightarrow> level_int a < level_int b"

instance
proof
  fix a b :: log_level
  show "a \<le> b \<Longrightarrow> b \<le> a \<Longrightarrow> a = b" by (cases a; cases b) (simp_all add: less_eq_log_level_def)
qed (auto simp: less_eq_log_level_def less_log_level_def)

end

definition escape_code :: "string \<Rightarrow> string" where
  "escape_code n = CHR 0x1B # ''['' @ n @ ''m''"

primrec get_color :: "log_level \<Rightarrow> string" where
  "get_color LInfo = escape_code ''92''"
| "get_color LWarn = escape_code ''93''"
| "get_color LError = escape_code ''91''"
| "get_color LDebug = escape_code ''94''"

primrec get_level_str :: "log_level \<Rightarrow> string" where
  "get_level_str LInfo = ''INFO''"
| "get_level_str LWarn = ''WARN''"
| "get_level_str LError = ''ERR ''"
| "get_level_str LDebug = ''DBUG''"

text \<open>
  The state of the log: the level, and what was printed to the two streams. \<open>now\<close> is the time as it is formatted, \<open>text\<close> the
  formatted message. The position of the last separator plus one is 0 when there is none: \<open>npos + 1\<close> wraps around.
\<close>

record log_state =
  global_level :: log_level
  std_out :: string
  std_err :: string

definition log_start :: log_state where
  "log_start = \<lparr>global_level = LDebug, std_out = [], std_err = []\<rparr>"

definition set_level :: "log_level \<Rightarrow> log_state \<Rightarrow> log_state" where
  "set_level level s = s\<lparr>global_level := level\<rparr>"

definition npos :: u64 where "npos = - 1"

definition find_last_separator :: "string \<Rightarrow> u64" where
  "find_last_separator p = (case rfind_index is_separator p of Some i \<Rightarrow> of_nat i | None \<Rightarrow> npos)"

definition log_text :: "log_level \<Rightarrow> source_location \<Rightarrow> string \<Rightarrow> string \<Rightarrow> string" where
  "log_text level loc now text =
    (let filename = drop (unat (find_last_separator (loc_file loc) + 1)) (loc_file loc) in
     escape_code ''90'' @ ''['' @ now @ ''] '' @ get_color level @ escape_code ''1'' @ get_level_str level @ '' '' @
     escape_code ''0'' @ escape_code ''2'' @ ''['' @ filename @ '':'' @ to_string_int (int (loc_line loc)) @ ''] '' @ escape_code ''0'' @
     text @ newline)"

definition log_impl :: "log_level \<Rightarrow> source_location \<Rightarrow> string \<Rightarrow> string \<Rightarrow> log_state \<Rightarrow> log_state" where
  "log_impl level loc now text s =
    (if level = LError then s\<lparr>std_err := std_err s @ log_text level loc now text\<rparr>
     else s\<lparr>std_out := std_out s @ log_text level loc now text\<rparr>)"

text \<open>\<open>info\<close>, \<open>warn\<close>, \<open>error\<close> and \<open>debug\<close> are this for their level.\<close>

definition log_at :: "log_level \<Rightarrow> source_location \<Rightarrow> string \<Rightarrow> string \<Rightarrow> log_state \<Rightarrow> log_state" where
  "log_at level loc now text s = (if global_level s \<le> level then log_impl level loc now text s else s)"

section \<open>Copies\<close>

lemma Error_copy_id [simp]: "Error_copy e = e"
  by (induction e) (auto split: option.splits)

lemma Error_assign_id [simp]: "Error_assign this other = other"
  by (cases other) (auto simp: Error_assign_def split: option.splits)

text \<open>A cause changes neither what the rest of the code sees of an error nor to which errors it is equal.\<close>

lemma with_cause_view: "view (with_cause c e) = view e" "error_eq (with_cause c e) e' = error_eq e e'"
  by (simp_all add: with_cause_def view_def error_eq_def)

section \<open>What is reported\<close>

primrec chain :: "diag \<Rightarrow> diag list" where
  "chain (Diag ec loc msg cause) = Diag ec loc msg cause # (case map_option chain cause of None \<Rightarrow> [] | Some es \<Rightarrow> es)"

lemma chain_with_cause: "chain (with_cause c e) = with_cause c e # chain c"
  by (simp add: with_cause_def)

lemma format_causes:
  "format_loop text_of (Some e) False out = out @ concat (map (\<lambda>c. newline @ ''  Caused by: '' @ error_line text_of c) (chain e))"
proof (induction e arbitrary: out)
  case (Diag ec loc msg cause)
  then show ?case by (cases cause) simp_all
qed

theorem error_report:
  "format_error text_of e = newline @ error_line text_of e @
    concat (map (\<lambda>c. newline @ ''  Caused by: '' @ error_line text_of c) (tl (chain e)))"
proof (cases e)
  case (Diag ec loc msg cause)
  then show ?thesis by (cases cause) (simp_all add: format_error_def format_causes)
qed

section \<open>Project paths\<close>

lemma find_text_first:
  "(\<And>us. strict_prefix us xs \<Longrightarrow> \<not> starts_with t (drop (length us) (xs @ ys))) \<Longrightarrow> starts_with t ys \<Longrightarrow> t \<noteq> [] \<Longrightarrow>
    find_text t (xs @ ys) = Some (length xs)"
proof (induction xs)
  case Nil
  then show ?case by (cases ys) (auto simp: starts_with_def)
next
  case (Cons x xs)
  have "\<not> starts_with t (x # xs @ ys)" using Cons.prems(1) [of "[]"] by simp
  moreover have "find_text t (xs @ ys) = Some (length xs)"
    using Cons.prems(1) [of "x # us" for us] by (intro Cons.IH Cons.prems) simp_all
  ultimately show ?case by simp
qed

lemma find_text_None: "(\<And>us vs. p \<noteq> us @ t @ vs) \<Longrightarrow> find_text t p = None"
proof (induction p)
  case Nil
  then show ?case using Nil [of "[]" "[]"] by auto
next
  case (Cons c p)
  have "\<not> starts_with t (c # p)" using Cons.prems [of "[]"] by (auto simp: starts_with_iff)
  moreover have "find_text t p = None" using Cons.prems [of "c # us" for us] by (intro Cons.IH) simp
  ultimately show ?case by simp
qed

text \<open>
  The path that is reported for a file of a project: the directory above the first \<open>src\<close> and what follows. A path without \<open>src\<close> is
  reported as it is, and the result is always an end of the path.
\<close>

theorem project_path:
  assumes "\<And>us. strict_prefix us (dir @ ''/'' @ project) \<Longrightarrow> \<not> starts_with ''/src/'' (drop (length us) (dir @ ''/'' @ project @ ''/src/'' @ rest))"
    and "CHR ''/'' \<notin> set project" "project \<noteq> []"
  shows "extract_project_path (dir @ ''/'' @ project @ ''/src/'' @ rest) = project @ ''/src/'' @ rest"
proof -
  let ?p = "dir @ ''/'' @ project @ ''/src/'' @ rest" and ?n = "length (dir @ ''/'' @ project)"
  have "find_text ''/src/'' ((dir @ ''/'' @ project) @ ''/src/'' @ rest) = Some ?n"
    using assms(1) by (intro find_text_first) (simp_all add: starts_with_def)
  then have f: "find_text ''/src/'' ?p = Some ?n" by simp
  have "take (?n - 1 + 1) ?p = dir @ CHR ''/'' # project" by simp
  then have r: "rfind_from (CHR ''/'') (?n - 1) ?p = Some (length dir)"
    using assms(2) by (simp only: rfind_from_def) (rule rfind_index_append_hit, auto)
  have "0 < ?n" by simp
  then show ?thesis unfolding extract_project_path_def Let_def f option.case r by (simp only: if_True option.case) simp
qed

theorem project_path_suffix: "suffix (extract_project_path p) p"
  by (simp add: extract_project_path_def Let_def suffix_drop split: option.splits)

text \<open>The name of a file in the log: everything behind the last separator, or all of it.\<close>

lemma log_filename:
  assumes "length p < 2 ^ 64"
  shows "drop (unat (find_last_separator p + 1)) p = extract_filename p"
proof (cases "rfind_index is_separator p")
  case None
  then show ?thesis by (simp add: find_last_separator_def npos_def extract_filename_def)
next
  case (Some i)
  then have "i < length p" by (auto elim: rfind_index_split)
  then have "unat (of_nat (i + 1) :: u64) = i + 1" using assms by (simp only: unsigned_of_nat) (simp add: take_bit_nat_eq_self)
  then show ?thesis using Some by (simp add: find_last_separator_def extract_filename_def add.commute)
qed

section \<open>What is printed\<close>

type_synonym log_call = "log_level \<times> source_location \<times> string \<times> string"

definition log_calls :: "log_call list \<Rightarrow> log_state \<Rightarrow> log_state" where
  "log_calls = fold (\<lambda>(level, loc, now, text). log_at level loc now text)"

text \<open>The log has the calls whose level is at least the one that is set, in order; errors go to the standard error stream.\<close>

theorem log_filtered:
  "std_out (log_calls cs s) = std_out s @
      concat (map (\<lambda>(level, loc, now, text). log_text level loc now text) (filter (\<lambda>c. global_level s \<le> fst c \<and> fst c \<noteq> LError) cs)) \<and>
   std_err (log_calls cs s) = std_err s @
      concat (map (\<lambda>(level, loc, now, text). log_text level loc now text) (filter (\<lambda>c. fst c = LError) cs)) \<and>
   global_level (log_calls cs s) = global_level s"
proof (induction cs arbitrary: s)
  case Nil
  show ?case by (simp add: log_calls_def)
next
  case (Cons c cs)
  obtain level loc now line where c: "c = (level, loc, now, line)" by (metis prod_cases4)
  have "log_calls (c # cs) s = log_calls cs (log_at level loc now line s)" by (simp add: log_calls_def c)
  moreover have "g \<le> LError" for g by (cases g) (simp_all add: less_eq_log_level_def)
  ultimately show ?case using Cons.IH by (auto simp: c log_at_def log_impl_def)
qed

end
