(* ===== verification/Builtins.thy ===== *)
theory Builtins
  imports Diagnostics "HOL-Library.State_Monad"
begin

text \<open>
  The globals that scripts see (\<open>helper.cpp\<close> and the extensions \<open>window.cpp\<close>, \<open>navigator.cpp\<close>, \<open>console.cpp\<close>, \<open>timeout.cpp\<close>,
  \<open>fetch.cpp\<close>, \<open>XMLHttpRequest.cpp\<close>, put together by \<open>extension.cpp\<close>). Registering is a program in the state monad: its state is the
  sequence of calls to V8 made so far. What V8 makes of the calls is a parameter of the theorems. The callbacks are functions of
  the arguments that give the lines logged and how the call ends.
\<close>

section \<open>Calls to V8\<close>

text \<open>The native functions that are given to V8.\<close>

datatype callback =
    Illegal_constructor string
  | Window_alert | Get_user_agent
  | Console_debug | Console_log | Console_info | Console_warn | Console_error
  | Js_set_timeout | Js_set_interval | Js_clear_timer | Js_cpp_delay
  | Fetch | Xhr_constructor | Xhr_open | Xhr_send

text \<open>Objects and templates. A function template has one template for its prototype and one for its instances.\<close>

datatype handle = Obj nat | Prototype_template handle | Instance_template handle

datatype v8_name = Name string | ToStringTag

datatype v8_data = Data handle | Text string | Getter_setter handle "handle option" | Native_property string "string option"

type_synonym attributes = nat

text \<open>\<open>v8::PropertyAttribute\<close>.\<close>

definition attr_None :: attributes where "attr_None = 0"
definition ReadOnly :: attributes where "ReadOnly = 1"
definition DontEnum :: attributes where "DontEnum = 2"
definition DontDelete :: attributes where "DontDelete = 4"

datatype handler_flags = kNone | kNonMasking

text \<open>\<open>Template_Set\<close> is \<open>Template::Set\<close>, \<open>SetNativeDataProperty\<close> and \<open>SetAccessorProperty\<close>, by the kind of the value. Creating a string
  is not a call here: it fails only for strings longer than V8 allows.\<close>

datatype v8_call =
    FunctionTemplate_New handle callback
  | Function_New handle callback
  | GetFunction handle handle
  | NewInstance handle handle
  | Context_New handle handle
  | SetClassName handle string
  | SetName handle string
  | SetInternalFieldCount handle nat
  | Template_Set handle v8_name v8_data attributes
  | SetHandler handle string "string option" handler_flags
  | Object_Set handle v8_name v8_data
  | DefineOwnProperty handle v8_name v8_data attributes
  | SetPrototype handle v8_data

text \<open>The calls whose result the code unwraps with \<open>Check\<close> or \<open>ToLocalChecked\<close>: the process is aborted when they fail.\<close>

fun checked :: "v8_call \<Rightarrow> bool" where
  "checked (Function_New _ _) = True"
| "checked (GetFunction _ _) = True"
| "checked (NewInstance _ _) = True"
| "checked (Object_Set _ _ _) = True"
| "checked (DefineOwnProperty _ _ _ _) = True"
| "checked (SetPrototype _ _) = True"
| "checked _ = False"

text \<open>\<open>refuses\<close> are the calls that V8 fails, with an exception pending.\<close>

record v8 =
  next_handle :: nat
  v8_calls :: "v8_call list"
  refuses :: "v8_call \<Rightarrow> bool"
  aborted :: bool

type_synonym 'a v8_program = "(v8, 'a) state"

definition v8_step :: "v8_call \<Rightarrow> v8 \<Rightarrow> v8" where
  "v8_step c s = (if aborted s then s else if checked c \<and> refuses s c then s\<lparr>aborted := True\<rparr> else s\<lparr>v8_calls := v8_calls s @ [c]\<rparr>)"

definition v8_do :: "v8_call \<Rightarrow> unit v8_program" where
  "v8_do c = State (\<lambda>s. ((), v8_step c s))"

text \<open>A call that creates an object, which gets the next handle.\<close>

definition v8_new :: "(handle \<Rightarrow> v8_call) \<Rightarrow> handle v8_program" where
  "v8_new c = State (\<lambda>s. let h = Obj (next_handle s) in (h, v8_step (c h) (s\<lparr>next_handle := next_handle s + 1\<rparr>)))"

section \<open>The helpers\<close>

text \<open>\<open>NewFromUtf8\<close> without a length reads up to the first null character.\<close>

definition c_str :: "string \<Rightarrow> string" where
  "c_str s = takeWhile (\<lambda>c. c \<noteq> CHR 0x00) s"

definition str :: "string \<Rightarrow> string" where
  "str data = c_str data"

definition prop_attr :: "bool \<Rightarrow> bool \<Rightarrow> bool \<Rightarrow> attributes" where
  "prop_attr writable enumerable configurable =
    (let attr = attr_None;
         attr = (if \<not> writable then attr OR ReadOnly else attr);
         attr = (if \<not> enumerable then attr OR DontEnum else attr);
         attr = (if \<not> configurable then attr OR DontDelete else attr)
     in attr)"

text \<open>The four overloads of \<open>set_val\<close>: on templates, on objects, on objects with attributes, and on templates with a template as value.
  The last one gives V8 the length of the name.\<close>

definition set_val :: "handle \<Rightarrow> string \<Rightarrow> v8_data \<Rightarrow> attributes \<Rightarrow> unit v8_program" where
  "set_val tmpl name val attr = v8_do (Template_Set tmpl (Name (str name)) val attr)"

definition set_val_object :: "handle \<Rightarrow> string \<Rightarrow> v8_data \<Rightarrow> unit v8_program" where
  "set_val_object obj name val = v8_do (Object_Set obj (Name (str name)) val)"

definition set_val_attr :: "handle \<Rightarrow> string \<Rightarrow> v8_data \<Rightarrow> attributes \<Rightarrow> unit v8_program" where
  "set_val_attr obj name val attr = v8_do (DefineOwnProperty obj (Name (str name)) val attr)"

definition set_val_data :: "handle \<Rightarrow> string \<Rightarrow> handle \<Rightarrow> attributes \<Rightarrow> unit v8_program" where
  "set_val_data tmpl name val attr = v8_do (Template_Set tmpl (Name name) (Data val) attr)"

definition set_accessor :: "handle \<Rightarrow> string \<Rightarrow> string \<Rightarrow> string option \<Rightarrow> attributes \<Rightarrow> unit v8_program" where
  "set_accessor tmpl name getter setter attr = v8_do (Template_Set tmpl (Name (str name)) (Native_property getter setter) attr)"

definition set_method :: "handle \<Rightarrow> string \<Rightarrow> callback \<Rightarrow> attributes \<Rightarrow> unit v8_program" where
  "set_method tmpl name callback attr = do {
     func \<leftarrow> v8_new (\<lambda>h. FunctionTemplate_New h callback);
     let v8_name = str name;
     v8_do (SetClassName func v8_name);
     v8_do (Template_Set tmpl (Name v8_name) (Data func) attr)
   }"

definition set_method_object :: "handle \<Rightarrow> string \<Rightarrow> callback \<Rightarrow> attributes \<Rightarrow> unit v8_program" where
  "set_method_object obj name callback attr = do {
     let v8_name = str name;
     func \<leftarrow> v8_new (\<lambda>h. Function_New h callback);
     v8_do (SetName func v8_name);
     v8_do (DefineOwnProperty obj (Name v8_name) (Data func) attr)
   }"

definition set_proto_method :: "handle \<Rightarrow> string \<Rightarrow> callback \<Rightarrow> attributes \<Rightarrow> unit v8_program" where
  "set_proto_method ctor name callback attr = set_method (Prototype_template ctor) name callback attr"

definition set_proto_val :: "handle \<Rightarrow> string \<Rightarrow> v8_data \<Rightarrow> attributes \<Rightarrow> unit v8_program" where
  "set_proto_val ctor name val attr = set_val (Prototype_template ctor) name val attr"

definition set_instance_val :: "handle \<Rightarrow> string \<Rightarrow> v8_data \<Rightarrow> attributes \<Rightarrow> unit v8_program" where
  "set_instance_val ctor name val attr = set_val (Instance_template ctor) name val attr"

definition define_data_property :: "handle \<Rightarrow> string \<Rightarrow> v8_data \<Rightarrow> bool \<Rightarrow> bool \<Rightarrow> bool \<Rightarrow> unit v8_program" where
  "define_data_property obj name val writable enumerable configurable =
    set_val_attr obj name val (prop_attr writable enumerable configurable)"

definition define_method_property :: "handle \<Rightarrow> string \<Rightarrow> callback \<Rightarrow> bool \<Rightarrow> bool \<Rightarrow> bool \<Rightarrow> unit v8_program" where
  "define_method_property obj name callback writable enumerable configurable =
    set_method_object obj name callback (prop_attr writable enumerable configurable)"

definition define_proto_data_property :: "handle \<Rightarrow> string \<Rightarrow> v8_data \<Rightarrow> bool \<Rightarrow> bool \<Rightarrow> bool \<Rightarrow> unit v8_program" where
  "define_proto_data_property ctor name val writable enumerable configurable =
    set_proto_val ctor name val (prop_attr writable enumerable configurable)"

definition define_proto_method_property :: "handle \<Rightarrow> string \<Rightarrow> callback \<Rightarrow> bool \<Rightarrow> bool \<Rightarrow> bool \<Rightarrow> unit v8_program" where
  "define_proto_method_property ctor name callback writable enumerable configurable =
    set_proto_method ctor name callback (prop_attr writable enumerable configurable)"

definition define_global_property :: "handle \<Rightarrow> string \<Rightarrow> v8_data \<Rightarrow> bool \<Rightarrow> bool \<Rightarrow> bool \<Rightarrow> unit v8_program" where
  "define_global_property global name val writable enumerable configurable =
    define_data_property global name val writable enumerable configurable"

definition define_unforgeable_property :: "handle \<Rightarrow> string \<Rightarrow> v8_data \<Rightarrow> bool \<Rightarrow> bool \<Rightarrow> unit v8_program" where
  "define_unforgeable_property obj name val writable enumerable =
    define_data_property obj name val writable enumerable False"

definition set_proto :: "handle \<Rightarrow> v8_data \<Rightarrow> unit v8_program" where
  "set_proto obj proto = v8_do (SetPrototype obj proto)"

definition get_to_string_tag :: v8_name where
  "get_to_string_tag = ToStringTag"

definition set_class_name :: "handle \<Rightarrow> string \<Rightarrow> unit v8_program" where
  "set_class_name ctor name = do {
     let v8_name = str name;
     v8_do (SetClassName ctor v8_name);
     v8_do (Template_Set (Prototype_template ctor) get_to_string_tag (Text v8_name) DontEnum)
   }"

definition set_interceptor :: "handle \<Rightarrow> string \<Rightarrow> string option \<Rightarrow> unit v8_program" where
  "set_interceptor tmpl getter setter = v8_do (SetHandler tmpl getter setter kNonMasking)"

section \<open>The extensions\<close>

definition window_setup_template :: "handle v8_program" where
  "window_setup_template = do {
     window_ctor \<leftarrow> v8_new (\<lambda>h. FunctionTemplate_New h (Illegal_constructor ''Window''));
     set_class_name window_ctor ''Window'';
     let proto_tmpl = Prototype_template window_ctor;
     set_method proto_tmpl ''alert'' Window_alert DontEnum;
     let instance_tmpl = Instance_template window_ctor;
     v8_do (SetInternalFieldCount instance_tmpl 1);
     set_val_data instance_tmpl ''Window'' window_ctor attr_None;
     State_Monad.return instance_tmpl
   }"

definition window_register :: "handle \<Rightarrow> unit v8_program" where
  "window_register global = do {
     set_val_object global ''window'' (Data global);
     set_val_object global ''globalThis'' (Data global)
   }"

definition init_navigator_proto_tmpl :: "handle \<Rightarrow> unit v8_program" where
  "init_navigator_proto_tmpl tmpl = do {
     getter \<leftarrow> v8_new (\<lambda>h. FunctionTemplate_New h Get_user_agent);
     v8_do (Template_Set tmpl (Name (str ''userAgent'')) (Getter_setter getter None) attr_None)
   }"

definition navigator_register :: "handle \<Rightarrow> unit v8_program" where
  "navigator_register global = do {
     navigator_tmpl \<leftarrow> v8_new (\<lambda>h. FunctionTemplate_New h (Illegal_constructor ''Navigator''));
     v8_do (SetClassName navigator_tmpl (str ''Navigator''));
     init_navigator_proto_tmpl (Prototype_template navigator_tmpl);
     let instance_tmpl = Instance_template navigator_tmpl;
     v8_do (SetHandler instance_tmpl ''navigator_name_property_getter'' None kNone);
     navigator_instance \<leftarrow> v8_new (\<lambda>h. NewInstance h instance_tmpl);
     v8_do (Object_Set global (Name (str ''navigator'')) (Data navigator_instance))
   }"

definition console_method :: "handle \<Rightarrow> string \<Rightarrow> callback \<Rightarrow> unit v8_program" where
  "console_method proto_tmpl name callback = do {
     func \<leftarrow> v8_new (\<lambda>h. FunctionTemplate_New h callback);
     v8_do (Template_Set proto_tmpl (Name (str name)) (Data func) DontEnum)
   }"

definition console_setup_template :: "handle v8_program" where
  "console_setup_template = do {
     console_ctor \<leftarrow> v8_new (\<lambda>h. FunctionTemplate_New h (Illegal_constructor ''Console''));
     set_class_name console_ctor ''Console'';
     let proto_tmpl = Prototype_template console_ctor;
     console_method proto_tmpl ''log'' Console_log;
     console_method proto_tmpl ''debug'' Console_debug;
     console_method proto_tmpl ''info'' Console_info;
     console_method proto_tmpl ''warn'' Console_warn;
     console_method proto_tmpl ''error'' Console_error;
     let instance_tmpl = Instance_template console_ctor;
     v8_do (SetInternalFieldCount instance_tmpl 1);
     State_Monad.return instance_tmpl
   }"

definition console_register :: "handle \<Rightarrow> unit v8_program" where
  "console_register global = do {
     console_tmpl \<leftarrow> console_setup_template;
     console_obj \<leftarrow> v8_new (\<lambda>h. NewInstance h console_tmpl);
     v8_do (DefineOwnProperty global (Name (str ''console'')) (Data console_obj) DontEnum)
   }"

definition timeout_register :: "handle \<Rightarrow> unit v8_program" where
  "timeout_register global = do {
     define_method_property global ''setTimeout'' Js_set_timeout True False True;
     define_method_property global ''setInterval'' Js_set_interval True False True;
     define_method_property global ''clearTimeout'' Js_clear_timer True False True;
     define_method_property global ''clearInterval'' Js_clear_timer True False True
   }"

definition fetch_register :: "handle \<Rightarrow> unit v8_program" where
  "fetch_register global = do {
     fetch_tmpl \<leftarrow> v8_new (\<lambda>h. FunctionTemplate_New h Fetch);
     fetch_fn \<leftarrow> v8_new (\<lambda>h. GetFunction h fetch_tmpl);
     let name = str ''fetch'';
     v8_do (SetName fetch_fn name);
     v8_do (Object_Set global (Name name) (Data fetch_fn))
   }"

definition xhr_register :: "handle \<Rightarrow> unit v8_program" where
  "xhr_register global = do {
     xhr_tmpl \<leftarrow> v8_new (\<lambda>h. FunctionTemplate_New h Xhr_constructor);
     let name = str ''XMLHttpRequest'';
     v8_do (SetClassName xhr_tmpl name);
     v8_do (SetInternalFieldCount (Instance_template xhr_tmpl) 1);
     let prototype_tmpl = Prototype_template xhr_tmpl;
     open_fn \<leftarrow> v8_new (\<lambda>h. FunctionTemplate_New h Xhr_open);
     v8_do (Template_Set prototype_tmpl (Name ''open'') (Data open_fn) attr_None);
     send_fn \<leftarrow> v8_new (\<lambda>h. FunctionTemplate_New h Xhr_send);
     v8_do (Template_Set prototype_tmpl (Name ''send'') (Data send_fn) attr_None);
     xhr_fn \<leftarrow> v8_new (\<lambda>h. GetFunction h xhr_tmpl);
     v8_do (Object_Set global (Name name) (Data xhr_fn))
   }"

text \<open>\<open>create\<close> with the extensions that \<open>register_all\<close> gives it. A context is its global object.\<close>

primrec register_extensions :: "(handle \<Rightarrow> unit v8_program) list \<Rightarrow> handle \<Rightarrow> unit v8_program" where
  "register_extensions [] global = State_Monad.return ()"
| "register_extensions (ext # exts) global = do { ext global; register_extensions exts global }"

definition create :: "handle v8_program \<Rightarrow> (handle \<Rightarrow> unit v8_program) \<Rightarrow> (handle \<Rightarrow> unit v8_program) list \<Rightarrow> handle v8_program" where
  "create setup_template register_global exts = do {
     global_tmpl \<leftarrow> setup_template;
     global_obj \<leftarrow> v8_new (\<lambda>h. Context_New h global_tmpl);
     register_global global_obj;
     register_extensions exts global_obj;
     State_Monad.return global_obj
   }"

definition register_all :: "handle v8_program" where
  "register_all = create window_setup_template window_register
    [navigator_register, console_register, timeout_register, fetch_register, xhr_register]"

definition bind_host_functions :: "handle \<Rightarrow> unit v8_program" where
  "bind_host_functions global = do {
     cpp_delay \<leftarrow> v8_new (\<lambda>h. Function_New h Js_cpp_delay);
     v8_do (Object_Set global (Name (str ''cppDelay'')) (Data cpp_delay))
   }"

section \<open>What V8 makes of the calls\<close>

lemma run_bind [simp]: "run_state (State_Monad.bind m f) s = (case run_state m s of (a, s') \<Rightarrow> run_state (f a) s')"
  by (cases m) (simp add: State_Monad.bind_def)

lemma run_return [simp]: "run_state (State_Monad.return a) s = (a, s)"
  by (simp add: State_Monad.return_def)

text \<open>The state after \<open>k\<close> objects were created and the calls \<open>cs\<close> made.\<close>

definition emitted :: "v8 \<Rightarrow> nat \<Rightarrow> v8_call list \<Rightarrow> v8" where
  "emitted s k cs = s\<lparr>next_handle := next_handle s + k, v8_calls := v8_calls s @ cs\<rparr>"

definition obliging :: "v8 \<Rightarrow> bool" where
  "obliging s \<longleftrightarrow> \<not> aborted s \<and> (\<forall>c. \<not> refuses s c)"

lemma emitted_start: "run_state m s = run_state m (emitted s 0 [])"
  by (simp add: emitted_def)

lemma run_emitted:
  assumes "obliging s"
  shows "run_state (v8_do c) (emitted s k cs) = ((), emitted s k (cs @ [c]))"
    "run_state (v8_new f) (emitted s k cs) = (Obj (next_handle s + k), emitted s (k + 1) (cs @ [f (Obj (next_handle s + k))]))"
  using assms by (auto simp: v8_do_def v8_new_def v8_step_def emitted_def obliging_def Let_def)

lemmas program_defs = bind_host_functions_def register_all_def create_def window_setup_template_def window_register_def navigator_register_def
  init_navigator_proto_tmpl_def console_register_def console_setup_template_def console_method_def timeout_register_def fetch_register_def
  xhr_register_def set_val_def set_val_object_def set_val_attr_def set_val_data_def set_method_def set_method_object_def set_class_name_def
  define_method_property_def get_to_string_tag_def str_def c_str_def

definition host_globals :: "handle v8_program" where
  "host_globals = do { global \<leftarrow> register_all; bind_host_functions global; State_Monad.return global }"

definition blank :: "nat \<Rightarrow> v8" where
  "blank n = \<lparr>next_handle = n, v8_calls = [], refuses = (\<lambda>_. False), aborted = False\<rparr>"

text \<open>The calls, in order: those that set up the template of the global object, and those made on the global object \<open>g\<close> of the
  new context.\<close>

definition window_calls :: "nat \<Rightarrow> v8_call list" where
  "window_calls n =
     [FunctionTemplate_New (Obj n) (Illegal_constructor ''Window''), SetClassName (Obj n) ''Window'',
      Template_Set (Prototype_template (Obj n)) ToStringTag (Text ''Window'') DontEnum,
      FunctionTemplate_New (Obj (n + 1)) Window_alert, SetClassName (Obj (n + 1)) ''alert'',
      Template_Set (Prototype_template (Obj n)) (Name ''alert'') (Data (Obj (n + 1))) DontEnum,
      SetInternalFieldCount (Instance_template (Obj n)) 1, Template_Set (Instance_template (Obj n)) (Name ''Window'') (Data (Obj n)) attr_None]"

definition extension_calls :: "nat \<Rightarrow> handle \<Rightarrow> v8_call list" where
  "extension_calls n g =
     [Object_Set g (Name ''window'') (Data g), Object_Set g (Name ''globalThis'') (Data g),
      FunctionTemplate_New (Obj (n + 3)) (Illegal_constructor ''Navigator''), SetClassName (Obj (n + 3)) ''Navigator'',
      FunctionTemplate_New (Obj (n + 4)) Get_user_agent,
      Template_Set (Prototype_template (Obj (n + 3))) (Name ''userAgent'') (Getter_setter (Obj (n + 4)) None) attr_None,
      SetHandler (Instance_template (Obj (n + 3))) ''navigator_name_property_getter'' None kNone,
      NewInstance (Obj (n + 5)) (Instance_template (Obj (n + 3))), Object_Set g (Name ''navigator'') (Data (Obj (n + 5))),
      FunctionTemplate_New (Obj (n + 6)) (Illegal_constructor ''Console''), SetClassName (Obj (n + 6)) ''Console'',
      Template_Set (Prototype_template (Obj (n + 6))) ToStringTag (Text ''Console'') DontEnum,
      FunctionTemplate_New (Obj (n + 7)) Console_log, Template_Set (Prototype_template (Obj (n + 6))) (Name ''log'') (Data (Obj (n + 7))) DontEnum,
      FunctionTemplate_New (Obj (n + 8)) Console_debug, Template_Set (Prototype_template (Obj (n + 6))) (Name ''debug'') (Data (Obj (n + 8))) DontEnum,
      FunctionTemplate_New (Obj (n + 9)) Console_info, Template_Set (Prototype_template (Obj (n + 6))) (Name ''info'') (Data (Obj (n + 9))) DontEnum,
      FunctionTemplate_New (Obj (n + 10)) Console_warn, Template_Set (Prototype_template (Obj (n + 6))) (Name ''warn'') (Data (Obj (n + 10))) DontEnum,
      FunctionTemplate_New (Obj (n + 11)) Console_error, Template_Set (Prototype_template (Obj (n + 6))) (Name ''error'') (Data (Obj (n + 11))) DontEnum,
      SetInternalFieldCount (Instance_template (Obj (n + 6))) 1, NewInstance (Obj (n + 12)) (Instance_template (Obj (n + 6))),
      DefineOwnProperty g (Name ''console'') (Data (Obj (n + 12))) DontEnum,
      Function_New (Obj (n + 13)) Js_set_timeout, SetName (Obj (n + 13)) ''setTimeout'',
      DefineOwnProperty g (Name ''setTimeout'') (Data (Obj (n + 13))) DontEnum,
      Function_New (Obj (n + 14)) Js_set_interval, SetName (Obj (n + 14)) ''setInterval'',
      DefineOwnProperty g (Name ''setInterval'') (Data (Obj (n + 14))) DontEnum,
      Function_New (Obj (n + 15)) Js_clear_timer, SetName (Obj (n + 15)) ''clearTimeout'',
      DefineOwnProperty g (Name ''clearTimeout'') (Data (Obj (n + 15))) DontEnum,
      Function_New (Obj (n + 16)) Js_clear_timer, SetName (Obj (n + 16)) ''clearInterval'',
      DefineOwnProperty g (Name ''clearInterval'') (Data (Obj (n + 16))) DontEnum,
      FunctionTemplate_New (Obj (n + 17)) Fetch, GetFunction (Obj (n + 18)) (Obj (n + 17)), SetName (Obj (n + 18)) ''fetch'',
      Object_Set g (Name ''fetch'') (Data (Obj (n + 18))),
      FunctionTemplate_New (Obj (n + 19)) Xhr_constructor, SetClassName (Obj (n + 19)) ''XMLHttpRequest'',
      SetInternalFieldCount (Instance_template (Obj (n + 19))) 1,
      FunctionTemplate_New (Obj (n + 20)) Xhr_open, Template_Set (Prototype_template (Obj (n + 19))) (Name ''open'') (Data (Obj (n + 20))) attr_None,
      FunctionTemplate_New (Obj (n + 21)) Xhr_send, Template_Set (Prototype_template (Obj (n + 19))) (Name ''send'') (Data (Obj (n + 21))) attr_None,
      GetFunction (Obj (n + 22)) (Obj (n + 19)), Object_Set g (Name ''XMLHttpRequest'') (Data (Obj (n + 22))),
      Function_New (Obj (n + 23)) Js_cpp_delay, Object_Set g (Name ''cppDelay'') (Data (Obj (n + 23)))]"

lemma host_globals_run:
  assumes "obliging s"
  shows "run_state host_globals s = (Obj (next_handle s + 2), emitted s 24 (window_calls (next_handle s) @
    Context_New (Obj (next_handle s + 2)) (Instance_template (Obj (next_handle s))) # extension_calls (next_handle s) (Obj (next_handle s + 2))))"
  unfolding emitted_start [of _ s] window_calls_def extension_calls_def
  using assms by (simp add: host_globals_def program_defs run_emitted Let_def prop_attr_def attr_None_def del: One_nat_def)

text \<open>
  What is assumed of V8: \<open>own cs h\<close> are the properties of the object or template \<open>h\<close> after the calls \<open>cs\<close>. A call changes
  the object it is made on and the objects it creates only. \<open>intrinsics\<close> are the properties that V8 itself gives a new global object,
  and \<open>inherits h n\<close> tells that the prototype chain of \<open>h\<close> has an \<open>n\<close> that an assignment would run into.
\<close>

type_synonym properties = "v8_name \<Rightarrow> (v8_data \<times> attributes) option"

fun targets :: "v8_call \<Rightarrow> handle set" where
  "targets (FunctionTemplate_New h _) = {h, Prototype_template h, Instance_template h}"
| "targets (Function_New h _) = {h}"
| "targets (GetFunction h _) = {h}"
| "targets (NewInstance h _) = {h}"
| "targets (Context_New h _) = {h}"
| "targets (SetClassName h _) = {h}"
| "targets (SetName h _) = {h}"
| "targets (SetInternalFieldCount h _) = {h}"
| "targets (Template_Set h _ _ _) = {h}"
| "targets (SetHandler h _ _ _) = {h}"
| "targets (Object_Set h _ _) = {h}"
| "targets (DefineOwnProperty h _ _ _) = {h}"
| "targets (SetPrototype h _) = {h}"

definition v8_objects :: "properties \<Rightarrow> (handle \<Rightarrow> v8_name \<Rightarrow> bool) \<Rightarrow> (v8_call list \<Rightarrow> handle \<Rightarrow> properties) \<Rightarrow> bool" where
  "v8_objects intrinsics inherits own \<longleftrightarrow>
    (\<forall>cs c h. h \<notin> targets c \<longrightarrow> own (cs @ [c]) h = own cs h) \<and>
    (\<forall>cs h f. own (cs @ [FunctionTemplate_New h f]) (Instance_template h) = Map.empty \<and>
      own (cs @ [FunctionTemplate_New h f]) (Prototype_template h) = Map.empty) \<and>
    (\<forall>cs h k. own (cs @ [SetInternalFieldCount h k]) h = own cs h) \<and>
    (\<forall>cs h n v a. own (cs @ [Template_Set h n v a]) h = (own cs h)(n \<mapsto> (v, a))) \<and>
    (\<forall>cs h t. own (cs @ [Context_New h t]) h = intrinsics ++ own cs t) \<and>
    (\<forall>cs h n v a. (\<forall>w b. own cs h n = Some (w, b) \<longrightarrow> \<not> bit b 2) \<longrightarrow>
      own (cs @ [DefineOwnProperty h n v a]) h = (own cs h)(n \<mapsto> (v, a))) \<and>
    (\<forall>cs h n v. own cs h n = None \<longrightarrow> \<not> inherits h n \<longrightarrow> own (cs @ [Object_Set h n v]) h = (own cs h)(n \<mapsto> (v, attr_None))) \<and>
    (\<forall>cs h n v w b. own cs h n = Some (w, b) \<longrightarrow> \<not> bit b 0 \<longrightarrow> own (cs @ [Object_Set h n v]) h = (own cs h)(n \<mapsto> (v, b)))"

text \<open>The effect of calls on one object, and when the laws determine it.\<close>

definition kept :: "properties \<Rightarrow> v8_name \<Rightarrow> attributes" where
  "kept m n = (case m n of None \<Rightarrow> attr_None | Some (_, a) \<Rightarrow> a)"

fun update :: "handle \<Rightarrow> v8_call \<Rightarrow> properties \<Rightarrow> properties" where
  "update h (Object_Set k n v) m = (if k = h then m(n \<mapsto> (v, kept m n)) else m)"
| "update h (DefineOwnProperty k n v a) m = (if k = h then m(n \<mapsto> (v, a)) else m)"
| "update h (Template_Set k n v a) m = (if k = h then m(n \<mapsto> (v, a)) else m)"
| "update h (FunctionTemplate_New k _) m = (if h = Instance_template k \<or> h = Prototype_template k then Map.empty else m)"
| "update h _ m = m"

fun settled :: "(handle \<Rightarrow> v8_name \<Rightarrow> bool) \<Rightarrow> handle \<Rightarrow> v8_call \<Rightarrow> properties \<Rightarrow> bool" where
  "settled inherits h (Object_Set k n v) m \<longleftrightarrow> k = h \<longrightarrow> (if m n = None then \<not> inherits h n else \<not> bit (kept m n) 0)"
| "settled inherits h (DefineOwnProperty k n v a) m \<longleftrightarrow> k = h \<longrightarrow> (m n \<noteq> None \<longrightarrow> \<not> bit (kept m n) 2)"
| "settled inherits h (Template_Set k n v a) m \<longleftrightarrow> True"
| "settled inherits h (FunctionTemplate_New k f) m \<longleftrightarrow> h \<noteq> k"
| "settled inherits h (SetInternalFieldCount k i) m \<longleftrightarrow> True"
| "settled inherits h c m \<longleftrightarrow> h \<notin> targets c"

primrec all_settled :: "(handle \<Rightarrow> v8_name \<Rightarrow> bool) \<Rightarrow> handle \<Rightarrow> v8_call list \<Rightarrow> properties \<Rightarrow> bool" where
  "all_settled inherits h [] m \<longleftrightarrow> True"
| "all_settled inherits h (c # cs) m \<longleftrightarrow> settled inherits h c m \<and> all_settled inherits h cs (update h c m)"

lemma own_update:
  assumes "v8_objects intrinsics inherits own" "settled inherits h c (own cs h)"
  shows "own (cs @ [c]) h = update h c (own cs h)"
proof (cases c)
  case (Object_Set k n v)
  then show ?thesis
    using assms unfolding v8_objects_def by (cases "own cs h n") (auto simp: kept_def)
next
  case (DefineOwnProperty k n v a)
  then show ?thesis
    using assms unfolding v8_objects_def by (cases "own cs h n") (auto simp: kept_def)
next
  case (SetInternalFieldCount k i)
  then show ?thesis
    using assms unfolding v8_objects_def by (cases "k = h") auto
next
  case (FunctionTemplate_New k f)
  then show ?thesis
    using assms unfolding v8_objects_def by auto
qed (use assms in \<open>auto simp: v8_objects_def\<close>)

lemma own_updates:
  assumes "v8_objects intrinsics inherits own" "all_settled inherits h cs' (own cs h)"
  shows "own (cs @ cs') h = fold (update h) cs' (own cs h)"
  using assms(2)
proof (induction cs' arbitrary: cs)
  case (Cons c cs')
  then have "own (cs @ [c]) h = update h c (own cs h)" by (auto intro: own_update [OF assms(1)])
  then show ?case using Cons.IH [of "cs @ [c]"] Cons.prems by simp
qed simp

lemma own_frame:
  assumes "v8_objects intrinsics inherits own" "\<forall>c\<in>set cs'. h \<notin> targets c"
  shows "own (cs @ cs') h = own cs h"
  using assms(2)
proof (induction cs' rule: rev_induct)
  case (snoc c cs')
  then have "own ((cs @ cs') @ [c]) h = own (cs @ cs') h"
    using assms(1) unfolding v8_objects_def by (metis in_set_conv_decomp)
  then show ?case using snoc by simp
qed simp

section \<open>The global object\<close>

definition global_names :: "string list" where
  "global_names = [''Window'', ''window'', ''globalThis'', ''navigator'', ''console'', ''setTimeout'', ''setInterval'', ''clearTimeout'',
    ''clearInterval'', ''fetch'', ''XMLHttpRequest'', ''cppDelay'']"

text \<open>\<open>f\<close> runs when the function \<open>h\<close> is called; \<open>h\<close> is an instance of the class with constructor \<open>f\<close>.\<close>

definition serves :: "v8_call list \<Rightarrow> callback \<Rightarrow> v8_data \<Rightarrow> bool" where
  "serves cs f v \<longleftrightarrow> (\<exists>h. v = Data h \<and> (Function_New h f \<in> set cs \<or> (\<exists>t. GetFunction h t \<in> set cs \<and> FunctionTemplate_New t f \<in> set cs)))"

definition instance_with :: "v8_call list \<Rightarrow> callback \<Rightarrow> v8_data \<Rightarrow> bool" where
  "instance_with cs f v \<longleftrightarrow> (\<exists>h t. v = Data h \<and> NewInstance h (Instance_template t) \<in> set cs \<and> FunctionTemplate_New t f \<in> set cs)"

primrec older :: "nat \<Rightarrow> handle \<Rightarrow> bool" where
  "older k (Obj i) = (i < k)"
| "older k (Prototype_template h) = older k h"
| "older k (Instance_template h) = older k h"

definition untouched :: "properties \<Rightarrow> bool" where
  "untouched m \<longleftrightarrow> (\<forall>n\<in>set global_names. \<forall>v a. m (Name n) = Some (v, a) \<longrightarrow> \<not> bit a 0 \<and> \<not> bit a 2)"

lemma window_template:
  assumes "v8_objects intrinsics inherits own"
  shows "own (cs @ window_calls n) (Instance_template (Obj n)) = [Name ''Window'' \<mapsto> (Data (Obj n), attr_None)]"
  by (subst own_updates [OF assms]) (simp_all add: window_calls_def)

lemma fresh_calls:
  "c \<in> set (window_calls n @ Context_New (Obj (n + 2)) t # extension_calls n (Obj (n + 2))) \<Longrightarrow> h \<in> targets c \<Longrightarrow> \<not> older n h"
  by (auto simp: window_calls_def extension_calls_def)

definition globals :: "nat \<Rightarrow> handle \<Rightarrow> properties \<Rightarrow> properties" where
  "globals n g m = m(Name ''window'' \<mapsto> (Data g, kept m (Name ''window'')), Name ''globalThis'' \<mapsto> (Data g, kept m (Name ''globalThis'')),
     Name ''navigator'' \<mapsto> (Data (Obj (n + 5)), kept m (Name ''navigator'')), Name ''console'' \<mapsto> (Data (Obj (n + 12)), DontEnum),
     Name ''setTimeout'' \<mapsto> (Data (Obj (n + 13)), DontEnum), Name ''setInterval'' \<mapsto> (Data (Obj (n + 14)), DontEnum),
     Name ''clearTimeout'' \<mapsto> (Data (Obj (n + 15)), DontEnum), Name ''clearInterval'' \<mapsto> (Data (Obj (n + 16)), DontEnum),
     Name ''fetch'' \<mapsto> (Data (Obj (n + 18)), kept m (Name ''fetch'')), Name ''XMLHttpRequest'' \<mapsto> (Data (Obj (n + 22)), kept m (Name ''XMLHttpRequest'')),
     Name ''cppDelay'' \<mapsto> (Data (Obj (n + 23)), kept m (Name ''cppDelay'')))"

lemma kept_update: "kept (m(n \<mapsto> x)) k = (if k = n then snd x else kept m k)"
  by (simp add: kept_def split_beta)

lemma extension_updates:
  "fold (update (Obj (n + 2))) (extension_calls n (Obj (n + 2))) m = globals n (Obj (n + 2)) m"
  by (simp add: extension_calls_def globals_def kept_update)

lemma untouchedD:
  assumes "untouched m" "x \<in> set global_names"
  shows "if m (Name x) = None then True else \<not> bit (kept m (Name x)) 0" "m (Name x) \<noteq> None \<longrightarrow> \<not> bit (kept m (Name x)) 2"
  using assms by (auto simp: untouched_def kept_def)

lemma extension_settled:
  assumes "untouched m" "\<And>x. x \<in> set global_names \<Longrightarrow> \<not> inherits (Obj (n + 2)) (Name x)"
  shows "all_settled inherits (Obj (n + 2)) (extension_calls n (Obj (n + 2))) m"
proof -
  have u: "m (Name x) = None \<longrightarrow> \<not> inherits (Obj (n + 2)) (Name x)" "m (Name x) \<noteq> None \<longrightarrow> \<not> bit (kept m (Name x)) 0 \<and> \<not> bit (kept m (Name x)) 2"
    if "x \<in> set global_names" for x
    using untouchedD [OF assms(1) that] assms(2) [OF that] by (auto split: if_splits)
  have "\<forall>x\<in>set global_names. (m (Name x) = None \<longrightarrow> \<not> inherits (Obj (n + 2)) (Name x)) \<and>
    (m (Name x) \<noteq> None \<longrightarrow> \<not> bit (kept m (Name x)) 0 \<and> \<not> bit (kept m (Name x)) 2)"
    using u by blast
  then show ?thesis
    unfolding extension_calls_def global_names_def by (simp add: kept_update)
qed

lemma extension_serves:
  assumes "set (extension_calls n g) \<subseteq> set cs"
  shows "serves cs Js_set_timeout (Data (Obj (n + 13)))" "serves cs Js_set_interval (Data (Obj (n + 14)))"
    "serves cs Js_clear_timer (Data (Obj (n + 15)))" "serves cs Js_clear_timer (Data (Obj (n + 16)))"
    "serves cs Fetch (Data (Obj (n + 18)))" "serves cs Xhr_constructor (Data (Obj (n + 22)))" "serves cs Js_cpp_delay (Data (Obj (n + 23)))"
    "instance_with cs (Illegal_constructor ''Navigator'') (Data (Obj (n + 5)))"
    "instance_with cs (Illegal_constructor ''Console'') (Data (Obj (n + 12)))"
  using assms unfolding serves_def instance_with_def extension_calls_def by auto

text \<open>C27: Registering the builtins gives a new context a global object with exactly the names of the extensions and \<open>cppDelay\<close> besides
  those of V8: the timer functions and \<open>console\<close> are not enumerable but can be written and deleted, the others keep the attributes of
  a property of V8 with that name; each name has the callback that implements it; no object made before is changed.\<close>

theorem globals_registered:
  assumes v8: "v8_objects intrinsics inherits own" and s: "obliging s" and run: "run_state host_globals s = (g, s')"
    and u: "untouched intrinsics" and i: "\<And>x. x \<in> set global_names \<Longrightarrow> \<not> inherits g (Name x)"
  shows "\<not> aborted s' \<and>
    (\<forall>x. x \<notin> Name ` set global_names \<longrightarrow> own (v8_calls s') g x = intrinsics x) \<and>
    (\<forall>(x, f)\<in>set [(''setTimeout'', Js_set_timeout), (''setInterval'', Js_set_interval), (''clearTimeout'', Js_clear_timer),
        (''clearInterval'', Js_clear_timer)].
      \<exists>v. own (v8_calls s') g (Name x) = Some (v, DontEnum) \<and> serves (v8_calls s') f v) \<and>
    (\<forall>(x, f)\<in>set [(''fetch'', Fetch), (''XMLHttpRequest'', Xhr_constructor), (''cppDelay'', Js_cpp_delay)].
      \<exists>v. own (v8_calls s') g (Name x) = Some (v, kept intrinsics (Name x)) \<and> serves (v8_calls s') f v) \<and>
    (\<forall>x\<in>set [''window'', ''globalThis'']. own (v8_calls s') g (Name x) = Some (Data g, kept intrinsics (Name x))) \<and>
    (\<exists>v. own (v8_calls s') g (Name ''console'') = Some (v, DontEnum) \<and> instance_with (v8_calls s') (Illegal_constructor ''Console'') v) \<and>
    (\<exists>v. own (v8_calls s') g (Name ''navigator'') = Some (v, kept intrinsics (Name ''navigator'')) \<and>
      instance_with (v8_calls s') (Illegal_constructor ''Navigator'') v) \<and>
    (\<exists>h. own (v8_calls s') g (Name ''Window'') = Some (Data h, attr_None) \<and>
      FunctionTemplate_New h (Illegal_constructor ''Window'') \<in> set (v8_calls s')) \<and>
    (\<forall>h. older (next_handle s) h \<longrightarrow> own (v8_calls s') h = own (v8_calls s) h)"
proof -
  let ?n = "next_handle s"
  let ?m = "intrinsics(Name ''Window'' \<mapsto> (Data (Obj ?n), attr_None))"
  let ?pre = "(v8_calls s @ window_calls ?n) @ [Context_New (Obj (?n + 2)) (Instance_template (Obj ?n))]"
  have g: "g = Obj (?n + 2)" and s': "v8_calls s' = ?pre @ extension_calls ?n (Obj (?n + 2))" and a: "\<not> aborted s'"
    using run s unfolding host_globals_run [OF s] by (auto simp: emitted_def obliging_def)
  have "own ?pre g = intrinsics ++ own (v8_calls s @ window_calls ?n) (Instance_template (Obj ?n))"
    using v8 unfolding v8_objects_def g by blast
  then have "own ?pre g = ?m"
    unfolding window_template [OF v8] by simp
  moreover have "untouched ?m"
    using u by (auto simp: untouched_def attr_None_def)
  ultimately have own: "own (v8_calls s') g = globals ?n g ?m"
    unfolding s' g using own_updates [OF v8] extension_settled i extension_updates g by metis
  have frame: "own (v8_calls s') h = own (v8_calls s) h" if "older ?n h" for h
    unfolding s' append_assoc by (rule own_frame [OF v8]) (use fresh_calls that in fastforce)
  have calls: "set (extension_calls ?n g) \<subseteq> set (v8_calls s')" "FunctionTemplate_New (Obj ?n) (Illegal_constructor ''Window'') \<in> set (v8_calls s')"
    unfolding s' g by (auto simp: window_calls_def)
  have m: "globals ?n g ?m x = intrinsics x" if "x \<notin> Name ` set global_names" for x
    using that by (auto simp: globals_def global_names_def)
  show ?thesis
    unfolding own using a frame m extension_serves [OF calls(1)] calls(2) by (simp add: globals_def kept_update)
qed

text \<open>A V8 that does what the laws say, whose global object has a \<open>globalThis\<close> and a \<open>console\<close> of its own.\<close>

fun effect :: "properties \<Rightarrow> v8_call \<Rightarrow> (handle \<Rightarrow> properties) \<Rightarrow> handle \<Rightarrow> properties" where
  "effect i (Context_New h t) m = m(h := i ++ m t)"
| "effect i (FunctionTemplate_New h _) m = m(h := Map.empty, Instance_template h := Map.empty, Prototype_template h := Map.empty)"
| "effect i c m = (\<lambda>h. update h c (m h))"

definition sample_intrinsics :: properties where
  "sample_intrinsics = [Name ''globalThis'' \<mapsto> (Text ''global'', DontEnum), Name ''console'' \<mapsto> (Text ''inspector'', DontEnum)]"

definition sample_own :: "v8_call list \<Rightarrow> handle \<Rightarrow> properties" where
  "sample_own cs = fold (effect sample_intrinsics) cs (\<lambda>_. Map.empty)"

lemma effect_targets: "h \<notin> targets c \<Longrightarrow> effect i c m h = m h"
  by (cases c) auto

lemma sample_objects: "v8_objects sample_intrinsics (\<lambda>_ _. False) sample_own"
  unfolding v8_objects_def sample_own_def by (auto simp: effect_targets kept_def split: option.split)

theorem globals_registered_witness:
  "sample_own (v8_calls (snd (run_state host_globals (blank 7)))) (Obj 9) (Name ''globalThis'') = Some (Data (Obj 9), DontEnum) \<and>
   sample_own (v8_calls (snd (run_state host_globals (blank 7)))) (Obj 9) (Name ''window'') = Some (Data (Obj 9), attr_None) \<and>
   (\<exists>v. sample_own (v8_calls (snd (run_state host_globals (blank 7)))) (Obj 9) (Name ''setTimeout'') = Some (v, DontEnum) \<and>
     serves (v8_calls (snd (run_state host_globals (blank 7)))) Js_set_timeout v)"
proof -
  have b: "obliging (blank 7)" by (simp add: obliging_def blank_def)
  have r: "run_state host_globals (blank 7) = (Obj 9, snd (run_state host_globals (blank 7)))"
    unfolding host_globals_run [OF b] by (simp add: blank_def)
  have u: "untouched sample_intrinsics"
    by (simp add: untouched_def global_names_def sample_intrinsics_def DontEnum_def bit_iff_odd)
  show ?thesis
    using globals_registered [OF sample_objects b r u] by (simp add: kept_def sample_intrinsics_def)
qed

section \<open>Property attributes\<close>

lemma prop_attr_bits:
  "bit (prop_attr w e c) 0 \<longleftrightarrow> \<not> w" "bit (prop_attr w e c) 1 \<longleftrightarrow> \<not> e" "bit (prop_attr w e c) 2 \<longleftrightarrow> \<not> c"
  by (simp_all add: prop_attr_def attr_None_def ReadOnly_def DontEnum_def DontDelete_def bit_or_iff bit_iff_odd)

lemma data_property_run:
  assumes "obliging s"
  shows "run_state (define_data_property h name v w e c) s = ((), emitted s 0 [DefineOwnProperty h (Name (c_str name)) v (prop_attr w e c)])"
  using assms unfolding emitted_start [of _ s] by (simp add: define_data_property_def set_val_attr_def str_def run_emitted)

lemma method_property_run:
  assumes "obliging s"
  shows "run_state (define_method_property h name f w e c) s = ((), emitted s 1 [Function_New (Obj (next_handle s)) f,
    SetName (Obj (next_handle s)) (c_str name), DefineOwnProperty h (Name (c_str name)) (Data (Obj (next_handle s))) (prop_attr w e c)])"
  using assms unfolding emitted_start [of _ s]
  by (simp add: define_method_property_def set_method_object_def str_def run_emitted Let_def)

text \<open>Data and method properties are defined with the flags they are asked for, and nothing else of the object changes; an unforgeable
  property cannot be deleted. The value of a method property is a new function with the name of the property.\<close>

theorem property_flags:
  assumes v8: "v8_objects intrinsics inherits own" and s: "obliging s" "older (next_handle s) h"
    and free: "\<And>v a. own (v8_calls s) h (Name (c_str name)) = Some (v, a) \<Longrightarrow> \<not> bit a 2"
    and data: "run_state (define_data_property h name v w e c) s = (u, s1)"
    and fixed: "run_state (define_unforgeable_property h name v w e) s = (u', s2)"
    and meth: "run_state (define_method_property h name f w e c) s = (u'', s3)"
  shows "(\<exists>a. own (v8_calls s1) h = (own (v8_calls s) h)(Name (c_str name) \<mapsto> (v, a)) \<and> (bit a 0 \<longleftrightarrow> \<not> w) \<and> (bit a 1 \<longleftrightarrow> \<not> e) \<and> (bit a 2 \<longleftrightarrow> \<not> c)) \<and>
    (\<exists>a. own (v8_calls s2) h = (own (v8_calls s) h)(Name (c_str name) \<mapsto> (v, a)) \<and> (bit a 0 \<longleftrightarrow> \<not> w) \<and> (bit a 1 \<longleftrightarrow> \<not> e) \<and> bit a 2) \<and>
    (\<exists>k a. own (v8_calls s3) h = (own (v8_calls s) h)(Name (c_str name) \<mapsto> (Data k, a)) \<and> (bit a 0 \<longleftrightarrow> \<not> w) \<and> (bit a 1 \<longleftrightarrow> \<not> e) \<and>
      (bit a 2 \<longleftrightarrow> \<not> c) \<and> \<not> older (next_handle s) k \<and> Function_New k f \<in> set (v8_calls s3) \<and> SetName k (c_str name) \<in> set (v8_calls s3))"
proof -
  have free: "own (v8_calls s) h (Name (c_str name)) \<noteq> None \<longrightarrow> \<not> bit (kept (own (v8_calls s) h) (Name (c_str name))) 2"
    using free by (auto simp: kept_def)
  have 1: "v8_calls s1 = v8_calls s @ [DefineOwnProperty h (Name (c_str name)) v (prop_attr w e c)]"
    and 2: "v8_calls s2 = v8_calls s @ [DefineOwnProperty h (Name (c_str name)) v (prop_attr w e False)]"
    and 3: "v8_calls s3 = v8_calls s @ [Function_New (Obj (next_handle s)) f, SetName (Obj (next_handle s)) (c_str name),
        DefineOwnProperty h (Name (c_str name)) (Data (Obj (next_handle s))) (prop_attr w e c)]"
    using data fixed meth unfolding define_unforgeable_property_def data_property_run [OF s(1)] method_property_run [OF s(1)]
    by (auto simp: emitted_def)
  have o1: "own (v8_calls s1) h = (own (v8_calls s) h)(Name (c_str name) \<mapsto> (v, prop_attr w e c))"
    unfolding 1 using free by (subst own_updates [OF v8]) simp_all
  have o2: "own (v8_calls s2) h = (own (v8_calls s) h)(Name (c_str name) \<mapsto> (v, prop_attr w e False))"
    unfolding 2 using free by (subst own_updates [OF v8]) simp_all
  have o3: "own (v8_calls s3) h = (own (v8_calls s) h)(Name (c_str name) \<mapsto> (Data (Obj (next_handle s)), prop_attr w e c))"
    unfolding 3 using free s(2) by (subst own_updates [OF v8]) auto
  have k: "\<not> older (next_handle s) (Obj (next_handle s))" "Function_New (Obj (next_handle s)) f \<in> set (v8_calls s3)"
    "SetName (Obj (next_handle s)) (c_str name) \<in> set (v8_calls s3)"
    unfolding 3 by simp_all
  show ?thesis
  proof (intro conjI)
    show "\<exists>a. own (v8_calls s1) h = (own (v8_calls s) h)(Name (c_str name) \<mapsto> (v, a)) \<and> (bit a 0 \<longleftrightarrow> \<not> w) \<and> (bit a 1 \<longleftrightarrow> \<not> e) \<and> (bit a 2 \<longleftrightarrow> \<not> c)"
      by (rule exI [of _ "prop_attr w e c"]) (simp only: o1 prop_attr_bits)
    show "\<exists>a. own (v8_calls s2) h = (own (v8_calls s) h)(Name (c_str name) \<mapsto> (v, a)) \<and> (bit a 0 \<longleftrightarrow> \<not> w) \<and> (bit a 1 \<longleftrightarrow> \<not> e) \<and> bit a 2"
      by (rule exI [of _ "prop_attr w e False"]) (simp only: o2 prop_attr_bits simp_thms)
    show "\<exists>k a. own (v8_calls s3) h = (own (v8_calls s) h)(Name (c_str name) \<mapsto> (Data k, a)) \<and> (bit a 0 \<longleftrightarrow> \<not> w) \<and> (bit a 1 \<longleftrightarrow> \<not> e) \<and>
      (bit a 2 \<longleftrightarrow> \<not> c) \<and> \<not> older (next_handle s) k \<and> Function_New k f \<in> set (v8_calls s3) \<and> SetName k (c_str name) \<in> set (v8_calls s3)"
      by (rule exI [of _ "Obj (next_handle s)"], rule exI [of _ "prop_attr w e c"]) (simp only: o3 prop_attr_bits k simp_thms)
  qed
qed

section \<open>The callbacks\<close>

text \<open>
  What the callbacks use of V8: \<open>to_string\<close> is \<open>ToString\<close>, with \<open>None\<close> when it throws (on a symbol, for instance), and \<open>utf8\<close>
  the bytes of a string, with \<open>None\<close> when \<open>Utf8Value\<close> holds a null pointer. The levels of the log are those of \<open>log.ixx\<close>.
\<close>

record ('v, 's) v8_strings =
  to_string :: "'v \<Rightarrow> 's option"
  utf8 :: "'s \<Rightarrow> string option"

type_synonym log_lines = "(log_level \<times> string) list"

datatype js_error = TypeError string | JsError string

datatype 'v completion = Thrown js_error | Returned 'v | No_value

abbreviation quote :: string where
  "quote \<equiv> [CHR 0x27]"

definition illegal_constructor :: "string \<Rightarrow> bool \<Rightarrow> 'v completion" where
  "illegal_constructor class_name is_construct =
    (if is_construct
     then let msg = ''Failed to construct '' @ quote @ class_name @ quote @ '': Illegal constructor'' in Thrown (TypeError (str msg))
     else let msg = ''Illegal constructor'' in Thrown (TypeError (str msg)))"

subsection \<open>The console\<close>

fun stringify_loop :: "('v, 's) v8_strings \<Rightarrow> nat \<Rightarrow> 'v list \<Rightarrow> string \<Rightarrow> string outcome" where
  "stringify_loop v8 i [] line = Ok line"
| "stringify_loop v8 i (arg # info) line =
    (let line = (if 0 < i then line @ '' '' else line) in
     case to_string v8 arg of
       None \<Rightarrow> Terminated
     | Some s \<Rightarrow> stringify_loop v8 (i + 1) info (line @ c_str (case utf8 v8 s of Some text \<Rightarrow> text | None \<Rightarrow> ''<non-utf8>'')))"

definition stringify_args :: "('v, 's) v8_strings \<Rightarrow> 'v list \<Rightarrow> string \<Rightarrow> string outcome" where
  "stringify_args v8 info level = stringify_loop v8 0 info (level @ '' '')"

definition log_line :: "log_level \<Rightarrow> string \<Rightarrow> string outcome \<Rightarrow> log_lines outcome" where
  "log_line level tag line = (case line of Ok line \<Rightarrow> Ok [(level, tag @ line)] | Terminated \<Rightarrow> Terminated | Undefined \<Rightarrow> Undefined)"

definition console_debug :: "('v, 's) v8_strings \<Rightarrow> 'v list \<Rightarrow> log_lines outcome" where
  "console_debug v8 info = log_line LDebug ''[JS DEBUG]: '' (stringify_args v8 info ''[debug]'')"

definition console_log :: "('v, 's) v8_strings \<Rightarrow> 'v list \<Rightarrow> log_lines outcome" where
  "console_log v8 info = log_line LDebug ''[JS LOG]: '' (stringify_args v8 info ''[log]'')"

definition console_info :: "('v, 's) v8_strings \<Rightarrow> 'v list \<Rightarrow> log_lines outcome" where
  "console_info v8 info = log_line LInfo ''[JS INFO]: '' (stringify_args v8 info ''[info]'')"

definition console_warn :: "('v, 's) v8_strings \<Rightarrow> 'v list \<Rightarrow> log_lines outcome" where
  "console_warn v8 info = log_line LWarn ''[JS WARN]: '' (stringify_args v8 info ''[warn]'')"

definition console_error :: "('v, 's) v8_strings \<Rightarrow> 'v list \<Rightarrow> log_lines outcome" where
  "console_error v8 info = log_line LError ''[JS ERROR]: '' (stringify_args v8 info ''[error]'')"

text \<open>The texts of values, with a space between them.\<close>

definition shown :: "('v, 's) v8_strings \<Rightarrow> 'v \<Rightarrow> string" where
  "shown v8 arg = (case to_string v8 arg of None \<Rightarrow> [] | Some s \<Rightarrow> c_str (case utf8 v8 s of Some text \<Rightarrow> text | None \<Rightarrow> ''<non-utf8>''))"

fun spaced :: "string list \<Rightarrow> string" where
  "spaced [] = []"
| "spaced [x] = x"
| "spaced (x # xs) = x @ '' '' @ spaced xs"

lemma stringify_loop_spaced:
  assumes "0 < i"
  shows "stringify_loop v8 i info line =
    (if \<forall>arg\<in>set info. to_string v8 arg \<noteq> None then Ok (line @ concat (map (\<lambda>arg. '' '' @ shown v8 arg) info)) else Terminated)"
  using assms by (induction v8 i info line rule: stringify_loop.induct) (auto simp: shown_def Let_def split: option.splits)

lemma spaced_Cons: "spaced (x # xs) = x @ concat (map (\<lambda>y. '' '' @ y) xs)"
  by (induction xs arbitrary: x) auto

lemma stringify_args_spaced:
  "stringify_args v8 info level =
    (if \<forall>arg\<in>set info. to_string v8 arg \<noteq> None then Ok (level @ '' '' @ spaced (map (shown v8) info)) else Terminated)"
  by (cases info) (auto simp: stringify_args_def stringify_loop_spaced spaced_Cons comp_def shown_def split: option.splits)

text \<open>C37: A console function logs one line with the texts of its arguments, separated by spaces, when all of them can be converted to
  strings, and aborts the process when one cannot.\<close>

theorem console_line:
  "(if \<forall>arg\<in>set info. to_string v8 arg \<noteq> None
    then console_log v8 info = Ok [(LDebug, ''[JS LOG]: [log] '' @ spaced (map (shown v8) info))] \<and>
      console_debug v8 info = Ok [(LDebug, ''[JS DEBUG]: [debug] '' @ spaced (map (shown v8) info))] \<and>
      console_info v8 info = Ok [(LInfo, ''[JS INFO]: [info] '' @ spaced (map (shown v8) info))] \<and>
      console_warn v8 info = Ok [(LWarn, ''[JS WARN]: [warn] '' @ spaced (map (shown v8) info))] \<and>
      console_error v8 info = Ok [(LError, ''[JS ERROR]: [error] '' @ spaced (map (shown v8) info))]
    else \<forall>f\<in>set [console_log, console_debug, console_info, console_warn, console_error]. f v8 info = Terminated)"
  by (simp add: console_log_def console_debug_def console_info_def console_warn_def console_error_def log_line_def stringify_args_spaced)

definition sample_strings :: "(nat, nat) v8_strings" where
  "sample_strings = \<lparr>to_string = (\<lambda>v. if v = 0 then None else Some v), utf8 = (\<lambda>v. if v = 1 then None else Some (nat_digits v))\<rparr>"

theorem console_line_witness:
  "console_log sample_strings [1, 25] = Ok [(LDebug, ''[JS LOG]: [log] <non-utf8> 25'')] \<and> console_warn sample_strings [1, 0] = Terminated"
proof -
  have "spaced (map (shown sample_strings) [1, 25]) = ''<non-utf8> 25''" by code_simp
  then show ?thesis
    using console_line [of "[1, 25]" sample_strings] console_line [of "[1, 0]" sample_strings] by (simp add: sample_strings_def)
qed

subsection \<open>The window, fetch and XMLHttpRequest\<close>

definition window_alert :: log_lines where
  "window_alert = [(LInfo, ''window.alert called'')]"

text \<open>Formatting a null pointer, from a string without UTF-8, is undefined.\<close>

fun print_fetch_loop :: "('v, 's) v8_strings \<Rightarrow> nat \<Rightarrow> 'v list \<Rightarrow> string \<Rightarrow> string outcome" where
  "print_fetch_loop v8 i [] msg = Ok msg"
| "print_fetch_loop v8 i (arg # args) msg =
    (case to_string v8 arg of
       Some v8_str \<Rightarrow> (case utf8 v8 v8_str of
           None \<Rightarrow> Undefined
         | Some text \<Rightarrow> print_fetch_loop v8 (i + 1) args (msg @ [CHR 0x0A] @ '' param['' @ nat_digits i @ ''] = '' @ c_str text))
     | None \<Rightarrow> print_fetch_loop v8 (i + 1) args (msg @ [CHR 0x0A] @ '' param['' @ nat_digits i @ ''] = ??''))"

definition print_fetch_param :: "('v, 's) v8_strings \<Rightarrow> 'v list \<Rightarrow> log_lines outcome" where
  "print_fetch_param v8 args =
    log_line LInfo [] (print_fetch_loop v8 0 args (''fetch called with '' @ nat_digits (length args) @ '' params''))"

text \<open>\<open>file\<close> is the name of the source file that the compiler records.\<close>

definition fetch_callback :: "string \<Rightarrow> ('v, 's) v8_strings \<Rightarrow> bool \<Rightarrow> 'v list \<Rightarrow> (log_lines \<times> 'v completion) outcome" where
  "fetch_callback file v8 is_construct info =
    (if is_construct then Ok ([], Thrown (TypeError (str ''fetch is not a constructor'')))
     else (case print_fetch_param v8 info of
         Ok lines \<Rightarrow> Ok (lines, Thrown (JsError (str (''TODO fetch at '' @ file @ '':'' @ nat_digits 41))))
       | Terminated \<Rightarrow> Terminated
       | Undefined \<Rightarrow> Undefined))"

definition xhr_constructor_callback :: "bool \<Rightarrow> 'v \<Rightarrow> 'v completion" where
  "xhr_constructor_callback is_construct this =
    (if \<not> is_construct
     then Thrown (TypeError (str (''Failed to construct '' @ quote @ ''XMLHttpRequest'' @ quote @ '': Please use the '' @ quote @ ''new'' @ quote
       @ '' operator, this DOM object constructor cannot be called as a function.'')))
     else Returned this)"

definition xhr_open_callback :: "'v list \<Rightarrow> log_lines \<times> 'v completion" where
  "xhr_open_callback args =
    (if length args < 2
     then ([], Thrown (TypeError (str (''Failed to execute '' @ quote @ ''open'' @ quote @ '' on '' @ quote @ ''XMLHttpRequest'' @ quote
       @ '': 2 arguments required''))))
     else ([(LInfo, ''XHR.open called with '' @ nat_digits (length args) @ '' params'')], No_value))"

definition xhr_send_callback :: "log_lines \<times> 'v completion" where
  "xhr_send_callback = ([(LInfo, ''XHR.send called'')], No_value)"

subsection \<open>The navigator\<close>

text \<open>
  The interceptor is called for every property that is read from \<open>navigator\<close>. \<open>proto\<close> is its prototype, \<open>None\<close> when a script has set
  it to something else than an object, and \<open>has_real\<close> is \<open>HasRealNamedProperty\<close>, with \<open>None\<close> when it throws. \<open>Utf8Value\<close> of a
  symbol holds a null pointer, from which no string can be made.
\<close>

datatype intercepted = kNo | kYes

definition navigator_name_property_getter ::
  "('o \<Rightarrow> v8_name \<Rightarrow> bool option) \<Rightarrow> 'o option \<Rightarrow> v8_name \<Rightarrow> (log_lines \<times> intercepted) outcome" where
  "navigator_name_property_getter has_real proto property = (case proto of
      None \<Rightarrow> Undefined
    | Some proto \<Rightarrow>
        if has_real proto property = Some True then Ok ([], kNo)
        else (case property of
            Name key \<Rightarrow> Ok ([(LInfo, ''Navigator GET Unknown key: '' @ c_str key)], kNo)
          | ToStringTag \<Rightarrow> Undefined))"

record NavigatorData =
  user_agent :: string
  app_code_name :: string
  app_name :: string
  app_version :: string
  cookie_enabled :: bool
  deviceMemory :: int
  hardwareConcurrency :: int
  language :: string
  languages :: "string list"
  platform :: string
  product :: string
  product_stub :: string
  vendor :: string
  vendor_stub :: string
  web_driver :: bool

record BrEnv =
  navigator_data :: NavigatorData

definition get_user_agent_callback :: "BrEnv option \<Rightarrow> log_lines \<times> v8_data completion" where
  "get_user_agent_callback env = (case env of
      None \<Rightarrow> ([], No_value)
    | Some env \<Rightarrow>
        let ua_str = user_agent (navigator_data env) in
        (if ua_str = [] then [(LWarn, ''navigator.userAgent is empty'')] else [], Returned (Text (str ua_str))))"

lemma navigator_prototype:
  assumes "v8_objects intrinsics inherits own"
  shows "own (cs @ window_calls n @ Context_New (Obj (n + 2)) t # extension_calls n (Obj (n + 2))) (Prototype_template (Obj (n + 3))) =
    [Name ''userAgent'' \<mapsto> (Getter_setter (Obj (n + 4)) None, attr_None)]"
  by (subst own_updates [OF assms]) (simp_all add: window_calls_def extension_calls_def)

text \<open>C38: The interceptor of the registered \<open>navigator\<close> object logs the names it does not know and lets every read of a name continue, but
  reading a symbol from it, as the conversion of the object to a string does, is undefined: the interceptor is installed for symbols too.\<close>

theorem navigator_reads:
  assumes v8: "v8_objects intrinsics inherits own" and s: "obliging s" and run: "run_state host_globals s = (g, s')"
  shows "\<exists>h t. Object_Set g (Name ''navigator'') (Data h) \<in> set (v8_calls s') \<and> NewInstance h (Instance_template t) \<in> set (v8_calls s') \<and>
    SetHandler (Instance_template t) ''navigator_name_property_getter'' None kNone \<in> set (v8_calls s') \<and>
    (\<forall>has_real. (\<forall>x. has_real (Prototype_template t) x = Some (own (v8_calls s') (Prototype_template t) x \<noteq> None \<or> x = Name ''constructor'')) \<longrightarrow>
      navigator_name_property_getter has_real (Some (Prototype_template t)) (Name ''userAgent'') = Ok ([], kNo) \<and>
      (\<forall>key. key \<noteq> ''userAgent'' \<longrightarrow> key \<noteq> ''constructor'' \<longrightarrow> navigator_name_property_getter has_real (Some (Prototype_template t)) (Name key) =
        Ok ([(LInfo, ''Navigator GET Unknown key: '' @ c_str key)], kNo)) \<and>
      navigator_name_property_getter has_real (Some (Prototype_template t)) ToStringTag = Undefined)"
proof -
  let ?n = "next_handle s"
  let ?t = "Obj (?n + 3)"
  have g: "g = Obj (?n + 2)" and s': "v8_calls s' = v8_calls s @ window_calls ?n @
      Context_New (Obj (?n + 2)) (Instance_template (Obj ?n)) # extension_calls ?n (Obj (?n + 2))"
    using run unfolding host_globals_run [OF s] by (auto simp: emitted_def)
  have own: "own (v8_calls s') (Prototype_template ?t) = [Name ''userAgent'' \<mapsto> (Getter_setter (Obj (?n + 4)) None, attr_None)]"
    unfolding s' by (rule navigator_prototype [OF v8])
  have "Object_Set g (Name ''navigator'') (Data (Obj (?n + 5))) \<in> set (v8_calls s')"
    "NewInstance (Obj (?n + 5)) (Instance_template ?t) \<in> set (v8_calls s')"
    "SetHandler (Instance_template ?t) ''navigator_name_property_getter'' None kNone \<in> set (v8_calls s')"
    unfolding s' g by (simp_all add: extension_calls_def)
  then show ?thesis
    by (intro exI [of _ "Obj (?n + 5)"] exI [of _ ?t]) (simp add: own navigator_name_property_getter_def)
qed

theorem navigator_reads_witness:
  "\<exists>t. SetHandler (Instance_template t) ''navigator_name_property_getter'' None kNone \<in> set (v8_calls (snd (run_state host_globals (blank 0)))) \<and>
    navigator_name_property_getter
      (\<lambda>p x. Some (sample_own (v8_calls (snd (run_state host_globals (blank 0)))) p x \<noteq> None \<or> x = Name ''constructor''))
      (Some (Prototype_template t)) ToStringTag = Undefined"
proof -
  have b: "obliging (blank 0)" by (simp add: obliging_def blank_def)
  let ?has = "\<lambda>p x. Some (sample_own (v8_calls (snd (run_state host_globals (blank 0)))) p x \<noteq> None \<or> x = Name ''constructor'')"
  from navigator_reads [OF sample_objects b prod.collapse [symmetric]] obtain t where
    t: "SetHandler (Instance_template t) ''navigator_name_property_getter'' None kNone \<in> set (v8_calls (snd (run_state host_globals (blank 0))))"
    and r: "\<forall>has_real. (\<forall>x. has_real (Prototype_template t) x = ?has (Prototype_template t) x) \<longrightarrow>
      navigator_name_property_getter has_real (Some (Prototype_template t)) ToStringTag = Undefined"
    by meson
  have "navigator_name_property_getter ?has (Some (Prototype_template t)) ToStringTag = Undefined"
    by (rule r [rule_format]) (rule refl)
  then show ?thesis using t by blast
qed

end
