(* ===== verification/Js_Runtime.thy ===== *)
theory Js_Runtime
  imports Event_Loop Builtins "HOL-Library.Multiset"
begin

text \<open>
  The JavaScript runtime (\<open>runtime.ixx\<close>): it creates the context with the builtins, runs scripts in it and then the event loop until no timer
  is left; and \<open>cppDelay\<close>, the function that gives scripts a promise settled by a timer. Compiling and running a script are parameters.
\<close>

section \<open>The delay function\<close>

text \<open>The native task of a delay: the promise it settles, and how.\<close>

record cpp_delay_task =
  resolver :: nat
  should_resolve :: bool

datatype settlement = Resolve nat string | Reject nat js_error

definition settle :: "cpp_delay_task \<Rightarrow> settlement" where
  "settle t = (if should_resolve t then Resolve (resolver t) (str ''cpp resolved'') else Reject (resolver t) (JsError (str ''cpp rejected'')))"

datatype delay_return = Delay_throws js_error | Promise nat

text \<open>\<open>boolean_value\<close> is the conversion of V8, and \<open>new_resolver\<close> the promise it creates, if it does.\<close>

definition js_cpp_delay ::
  "'v v8_values \<Rightarrow> ('v \<Rightarrow> bool) \<Rightarrow> nat option \<Rightarrow> 'v list \<Rightarrow> ('v + cpp_delay_task, 'v) EventLoop option \<Rightarrow>
    (delay_return \<times> ('v + cpp_delay_task, 'v) EventLoop option) outcome" where
  "js_cpp_delay v8 boolean_value new_resolver info loop = (case loop of
      None \<Rightarrow> Ok (Delay_throws (TypeError (str ''EventLoop is not available'')), None)
    | Some event_loop \<Rightarrow>
        let delay_ms = parse_delay v8 info 0;
            should = (if 1 < length info then boolean_value (info ! 1) else True)
        in (case new_resolver of
            None \<Rightarrow> Ok (Delay_throws (TypeError (str ''failed to create Promise resolver'')), Some event_loop)
          | Some r \<Rightarrow> (case set_timeout_task (Inr \<lparr>resolver = r, should_resolve = should\<rparr>) delay_ms event_loop of
              Ok (i, event_loop) \<Rightarrow> Ok (Promise r, Some event_loop)
            | Terminated \<Rightarrow> Terminated
            | Undefined \<Rightarrow> Undefined)))"

section \<open>The runtime\<close>

record ('f, 'v) Runtime =
  isolate :: v8
  ctx :: "handle option"
  event_loop :: "('f, 'v) EventLoop"
  br_env :: "BrEnv option"
  runtime_log :: log_lines

definition reset_context :: "('f, 'v) Runtime \<Rightarrow> ('f, 'v) Runtime" where
  "reset_context r =
    (let r = r\<lparr>ctx := None\<rparr>;
         r = r\<lparr>event_loop := clear_all (event_loop r)\<rparr>;
         (c, iso) = run_state register_all (isolate r);
         iso = snd (run_state (bind_host_functions c) iso);
         r = r\<lparr>isolate := iso, ctx := Some c\<rparr>
     in r\<lparr>runtime_log := runtime_log r @ [(LInfo, ''[Runtime] Context reset'')]\<rparr>)"

text \<open>The constructor: \<open>now\<close> is the time. It tests the argument after moving it away.\<close>

definition Runtime_new :: "v8 \<Rightarrow> int \<Rightarrow> BrEnv option \<Rightarrow> ('f, 'v) Runtime" where
  "Runtime_new v8 now env =
    (let (moved, env) = (env, None :: BrEnv option);
         lines = (if env = None then [(LWarn, ''Browser Env not set'')] else [])
     in reset_context \<lparr>isolate = v8, ctx = None,
       event_loop = \<lparr>next_id = 1, timer_heap = [], timer_map = [], clock = now, fired = []\<rparr>, br_env = moved, runtime_log = lines\<rparr>)"

text \<open>
  \<open>compile\<close> gives the script, or the text of the message of the error (\<open>None\<close>: no message, or one without UTF-8); \<open>run\<close> runs it, which
  changes the event loop, and gives its error if it throws.
\<close>

definition error_text :: "string option \<Rightarrow> string" where
  "error_text msg = (case msg of None \<Rightarrow> ''<unknown>'' | Some text \<Rightarrow> c_str text)"

definition execute_script ::
  "(TimerKey list \<Rightarrow> TimerKey) \<Rightarrow> ('f, 'v) caller \<Rightarrow> ('f, 'v) checkpoint \<Rightarrow> int \<Rightarrow> (string \<Rightarrow> string option + 'p) \<Rightarrow>
    ('p \<Rightarrow> BrEnv option \<Rightarrow> ('f, 'v) EventLoop \<Rightarrow> string option option \<times> ('f, 'v) EventLoop) \<Rightarrow> string \<Rightarrow> bool \<Rightarrow> ('f, 'v) Runtime \<Rightarrow>
    ('f, 'v) Runtime outcome option" where
  "execute_script first call microtasks pass compile run code wait_loop r = (case compile (str code) of
      Inl msg \<Rightarrow> Some (Ok (r\<lparr>runtime_log := runtime_log r @ [(LError, ''[JS Compile Error]: '' @ error_text msg)]\<rparr>))
    | Inr script \<Rightarrow> (case run script (br_env r) (event_loop r) of
        (Some msg, l) \<Rightarrow> Some (Ok (r\<lparr>event_loop := l, runtime_log := runtime_log r @ [(LError, ''[JS Runtime Error]: '' @ error_text msg)]\<rparr>))
      | (None, l) \<Rightarrow>
          let l = microtasks l in
          if wait_loop
          then map_option (\<lambda>res. case res of Ok l \<Rightarrow> Ok (r\<lparr>event_loop := l\<rparr>) | Terminated \<Rightarrow> Terminated | Undefined \<Rightarrow> Undefined)
            (run_until_empty first call microtasks pass l)
          else Some (Ok (r\<lparr>event_loop := l\<rparr>))))"

section \<open>Running until empty\<close>

text \<open>Scripts whose callbacks only take time, and loops without intervals.\<close>

definition idle_scripts :: "('f, 'v) caller \<Rightarrow> ('f, 'v) checkpoint \<Rightarrow> bool" where
  "idle_scripts call microtasks \<longleftrightarrow> (\<forall>t l. \<exists>u\<ge>clock l. call t l = l\<lparr>clock := u\<rparr>) \<and> (\<forall>l. \<exists>u\<ge>clock l. microtasks l = l\<lparr>clock := u\<rparr>)"

definition one_shot :: "('f, 'v) EventLoop \<Rightarrow> bool" where
  "one_shot l \<longleftrightarrow> (\<forall>(i, d)\<in>set (timer_map l). \<not> is_interval d)"

text \<open>The keys of timers that were not cancelled.\<close>

definition live :: "('f, 'v) EventLoop \<Rightarrow> TimerKey list" where
  "live l = filter (\<lambda>k. key_id k \<in> map_ids l) (timer_heap l)"

lemma idle_fire:
  assumes p: "idle_scripts call microtasks" and o: "one_shot l" and k: "key \<in> set (timer_heap l)"
  obtains u where "clock l \<le> u"
    "fire call microtasks key l = Ok (l\<lparr>timer_heap := remove1 key (timer_heap l), timer_map := AList.delete (key_id key) (timer_map l),
       clock := u, fired := fired l @ (if key_id key \<in> map_ids l then [(key, False)] else [])\<rparr>)"
proof (cases "map_of (timer_map l) (key_id key)")
  case None
  then have "AList.delete (key_id key) (timer_map l) = timer_map l" "key_id key \<notin> map_ids l"
    by (simp_all add: AList.delete_id map_of_eq_None_iff map_ids_def)
  then show ?thesis using None by (intro that [of "clock l"]) (simp_all add: fire_def)
next
  case (Some data)
  then have d: "(key_id key, data) \<in> set (timer_map l)" by (rule map_of_SomeD)
  then have i: "\<not> is_interval data" "key_id key \<in> map_ids l" using o by (force simp: one_shot_def map_ids_def)+
  let ?l = "(cancel (key_id key) (l\<lparr>timer_heap := remove1 key (timer_heap l)\<rparr>))\<lparr>fired := fired l @ [(key, False)]\<rparr>"
  obtain u where u: "clock ?l \<le> u" "call (task data) ?l = ?l\<lparr>clock := u\<rparr>" using p unfolding idle_scripts_def by blast
  obtain v where v: "u \<le> v" "microtasks (?l\<lparr>clock := u\<rparr>) = ?l\<lparr>clock := v\<rparr>"
  proof -
    obtain v where "clock (?l\<lparr>clock := u\<rparr>) \<le> v" "microtasks (?l\<lparr>clock := u\<rparr>) = ?l\<lparr>clock := u\<rparr>\<lparr>clock := v\<rparr>"
      using p unfolding idle_scripts_def by blast
    then show thesis by (intro that [of v]) simp_all
  qed
  show ?thesis
  proof (rule that [of v])
    show "clock l \<le> v" using u(1) v(1) by (simp add: cancel_def)
    show "fire call microtasks key l = Ok (l\<lparr>timer_heap := remove1 key (timer_heap l), timer_map := AList.delete (key_id key) (timer_map l),
       clock := v, fired := fired l @ (if key_id key \<in> map_ids l then [(key, False)] else [])\<rparr>)"
      using Some i u(2) v(2) by (simp add: fire_def cancel_def Let_def)
  qed
qed

definition keyed :: "('f, 'v) EventLoop \<Rightarrow> bool" where
  "keyed l \<longleftrightarrow> distinct (map key_id (timer_heap l)) \<and> map_ids l \<subseteq> heap_ids l"

lemma removed_key_ids:
  assumes "distinct (map key_id ks)" "key \<in> set ks" "k \<in> set (remove1 key ks)"
  shows "key_id k \<noteq> key_id key"
proof -
  have "distinct ks" using assms(1) by (simp add: distinct_map)
  then have "k \<in> set ks" "k \<noteq> key" using assms(3) by auto
  then show ?thesis using assms(1, 2) by (auto simp: distinct_map inj_on_def)
qed

lemma idle_fired:
  assumes "keyed l" "one_shot l" "key \<in> set (timer_heap l)"
    and l': "timer_heap l' = remove1 key (timer_heap l)" "timer_map l' = AList.delete (key_id key) (timer_map l)"
  shows "keyed l'" "one_shot l'" "mset (if key_id key \<in> map_ids l then [key] else []) + mset (live l') = mset (live l)"
proof -
  have d: "distinct (map key_id (timer_heap l))" and sub: "map_ids l \<subseteq> heap_ids l" using assms(1) by (auto simp: keyed_def)
  have ids: "map_ids l' = map_ids l - {key_id key}" using l'(2) by (force simp: map_ids_def AList.delete_eq)
  have h: "timer_heap l' = filter (\<lambda>k. k \<noteq> key) (timer_heap l)"
    using d l'(1) by (simp add: distinct_remove1_removeAll distinct_map removeAll_filter_not_eq eq_commute)
  show "keyed l'" unfolding keyed_def
    using d sub ids h by (auto simp: heap_ids_def intro!: distinct_map_filter)
  show "one_shot l'" using assms(2) l'(2) by (auto simp: one_shot_def AList.delete_eq)
  have "live l' = filter (\<lambda>k. key_id k \<in> map_ids l) (remove1 key (timer_heap l))"
    unfolding live_def ids l'(1) by (rule filter_cong) (use removed_key_ids [OF d assms(3)] in auto)
  then have "mset (live l') = filter_mset (\<lambda>k. key_id k \<in> map_ids l) (mset (timer_heap l) - {#key#})"
    by simp
  moreover have "mset (timer_heap l) = {#key#} + (mset (timer_heap l) - {#key#})"
    using assms(3) by simp
  ultimately have "mset (live l) = filter_mset (\<lambda>k. key_id k \<in> map_ids l) {#key#} + mset (live l')"
    unfolding live_def mset_filter by (metis filter_union_mset)
  then show "mset (if key_id key \<in> map_ids l then [key] else []) + mset (live l') = mset (live l)"
    by simp
qed

definition drained :: "int \<Rightarrow> ('f, 'v) EventLoop \<Rightarrow> (TimerKey \<times> bool) list \<Rightarrow> ('f, 'v) EventLoop \<Rightarrow> bool" where
  "drained now l fs l' \<longleftrightarrow> fired l' = fired l @ fs \<and> mset (map fst fs) + mset (live l') = mset (live l) \<and>
    (\<forall>x\<in>set fs. deadline (fst x) \<le> now) \<and> sorted (map (deadline \<circ> fst) fs) \<and> keyed l' \<and> one_shot l' \<and> clock l \<le> clock l' \<and>
    set (timer_heap l') = {k \<in> set (timer_heap l). now < deadline k} \<and> length (timer_heap l') \<le> length (timer_heap l)"

lemma drained_step:
  assumes rest: "drained now l1 fs l'" and "keyed l" "one_shot l" and key: "key \<in> set (timer_heap l)" "\<forall>k\<in>set (timer_heap l). deadline key \<le> deadline k"
    and due: "deadline key \<le> now" and live: "mset (if key_id key \<in> map_ids l then [key] else []) + mset (live l1) = mset (live l)"
    and l1: "timer_heap l1 = remove1 key (timer_heap l)" "clock l \<le> clock l1"
      "fired l1 = fired l @ (if key_id key \<in> map_ids l then [(key, False)] else [])"
  shows "drained now l ((if key_id key \<in> map_ids l then [(key, False)] else []) @ fs) l'"
proof -
  have d: "distinct (timer_heap l)" using assms(2) by (simp add: keyed_def distinct_map)
  have r: "mset (map fst fs) + mset (live l') = mset (live l1)" "\<forall>x\<in>set fs. deadline (fst x) \<le> now" "sorted (map (deadline \<circ> fst) fs)"
    using rest by (simp_all add: drained_def)
  have "fst x \<in> set (timer_heap l)" if "x \<in> set fs" for x
  proof -
    have "fst x \<in># mset (live l1)" using r(1) that by (metis image_eqI list.set_map set_mset_mset union_iff)
    then have "fst x \<in> set (timer_heap l1)" unfolding set_mset_mset live_def by simp
    then show ?thesis unfolding l1(1) using set_remove1_subset by fastforce
  qed
  then have "\<forall>x\<in>set fs. deadline key \<le> deadline (fst x)" using key(2) by blast
  then have "sorted (map (deadline \<circ> fst) ((if key_id key \<in> map_ids l then [(key, False)] else []) @ fs))" using r(3) by auto
  moreover have "mset (map fst ((if key_id key \<in> map_ids l then [(key, False)] else []) @ fs)) + mset (live l') = mset (live l)"
    using r(1) live by (auto split: if_splits)
  moreover have "set (timer_heap l') = {k \<in> set (timer_heap l). now < deadline k}"
    using rest due d l1(1) by (auto simp: drained_def)
  ultimately show ?thesis
    using rest r(2) due l1 d by (auto simp: drained_def length_remove1 split: if_splits)
qed

lemma idle_tick_loop:
  assumes "min_first first" "idle_scripts call microtasks" "keyed l" "one_shot l"
  shows "\<exists>fs l'. tick_loop first call microtasks now l = Some (Ok (timer_heap l' \<noteq> [], l')) \<and> drained now l fs l'"
  using assms(3, 4)
proof (induction "length (timer_heap l)" arbitrary: l rule: less_induct)
  case less
  let ?key = "first (timer_heap l)"
  consider "timer_heap l = []" | "timer_heap l \<noteq> []" "now < deadline ?key" | "timer_heap l \<noteq> []" "deadline ?key \<le> now" by linarith
  then show ?case
  proof cases
    case 1
    then have "timer_map l = []" using less.prems(1) by (auto simp: keyed_def map_ids_def heap_ids_def)
    then show ?thesis using 1 less.prems by (subst tick_loop.simps) (auto simp: drained_def)
  next
    case 2
    have "\<forall>k\<in>set (timer_heap l). now < deadline k"
      using assms(1) 2 unfolding min_first_def by fastforce
    then show ?thesis using 2 less.prems by (subst tick_loop.simps) (auto simp: drained_def intro!: exI [of _ "[]"])
  next
    case 3
    have key: "?key \<in> set (timer_heap l)" "\<forall>k\<in>set (timer_heap l). deadline ?key \<le> deadline k"
      using assms(1) 3(1) unfolding min_first_def by blast+
    obtain u where u: "clock l \<le> u" and fire: "fire call microtasks ?key l =
       Ok (l\<lparr>timer_heap := remove1 ?key (timer_heap l), timer_map := AList.delete (key_id ?key) (timer_map l),
       clock := u, fired := fired l @ (if key_id ?key \<in> map_ids l then [(?key, False)] else [])\<rparr>)" (is "_ = Ok ?l")
      by (rule idle_fire [OF assms(2) less.prems(2) key(1)])
    note step = idle_fired [OF less.prems key(1), of ?l, simplified]
    have "length (timer_heap ?l) < length (timer_heap l)"
      using key(1) length_pos_if_in_set [OF key(1)] by (simp add: length_remove1)
    from less.hyps [OF this] step obtain fs l' where rest:
      "tick_loop first call microtasks now ?l = Some (Ok (timer_heap l' \<noteq> [], l'))" "drained now ?l fs l'" by auto
    let ?fs = "(if key_id ?key \<in> map_ids l then [(?key, False)] else []) @ fs"
    have loop: "tick_loop first call microtasks now l = Some (Ok (timer_heap l' \<noteq> [], l'))"
      using 3 fire rest(1) by (subst tick_loop.simps) (simp add: Let_def not_less)
    have "drained now l ?fs l'"
      by (rule drained_step [OF rest(2) less.prems key 3(2) step(3)]) (use u in \<open>simp_all\<close>)
    then show ?thesis using loop by blast
  qed
qed

lemma drained_sorted:
  assumes "drained now l fs l1" "mset (map fst fs') = mset (live l1)" "sorted (map (deadline \<circ> fst) fs')"
  shows "sorted (map (deadline \<circ> fst) (fs @ fs'))"
proof -
  have l1: "set (timer_heap l1) = {k \<in> set (timer_heap l). now < deadline k}" "\<forall>x\<in>set fs. deadline (fst x) \<le> now" "sorted (map (deadline \<circ> fst) fs)"
    using assms(1) by (simp_all add: drained_def)
  have "now < deadline (fst x)" if "x \<in> set fs'" for x
  proof -
    have "fst x \<in> set (live l1)" using mset_eq_setD [OF assms(2)] that by auto
    then show ?thesis using l1(1) by (simp add: live_def)
  qed
  then show ?thesis using l1(2, 3) assms(3) by (fastforce simp: sorted_append)
qed

lemma drained_progress:
  assumes "drained now l fs l1" "keyed l" "clock l \<le> now" "min_first first" "timer_heap l \<noteq> []"
  shows "length (timer_heap l1) < length (timer_heap l) \<or> clock l < deadline (first (timer_heap l))"
proof (rule ccontr)
  assume "\<not> ?thesis"
  then have due: "deadline (first (timer_heap l)) \<le> now" and len: "length (timer_heap l) \<le> length (timer_heap l1)" using assms(3) by auto
  have d: "distinct (timer_heap l)" "distinct (timer_heap l1)" using assms(1, 2) by (auto simp: drained_def keyed_def distinct_map)
  have sub: "set (timer_heap l1) = {k \<in> set (timer_heap l). now < deadline k}" using assms(1) by (simp add: drained_def)
  have "set (timer_heap l1) = set (timer_heap l)"
  proof (rule card_seteq)
    show "set (timer_heap l1) \<subseteq> set (timer_heap l)" using sub by blast
    show "card (set (timer_heap l)) \<le> card (set (timer_heap l1))" unfolding distinct_card [OF d(1)] distinct_card [OF d(2)] by (rule len)
  qed simp
  moreover have "first (timer_heap l) \<in> set (timer_heap l)" using assms(4, 5) by (simp add: min_first_def)
  ultimately have "first (timer_heap l) \<in> {k \<in> set (timer_heap l). now < deadline k}" using sub by blast
  then show False using due by simp
qed

lemma idle_tick:
  assumes "min_first first" "idle_scripts call microtasks" "keyed l" "one_shot l" "0 \<le> pass"
  shows "\<exists>now fs l'. clock l \<le> now \<and> now \<le> clock l' \<and> tick first call microtasks pass l = Some (Ok (timer_heap l' \<noteq> [], l')) \<and> drained now l fs l'"
proof -
  obtain u where u: "clock l \<le> u" "microtasks l = l\<lparr>clock := u\<rparr>" using assms(2) unfolding idle_scripts_def by blast
  let ?l = "l\<lparr>clock := u + pass\<rparr>"
  have "keyed ?l" "one_shot ?l" "live ?l = live l"
    using assms(3, 4) by (simp_all add: keyed_def one_shot_def live_def map_ids_def heap_ids_def)
  moreover from idle_tick_loop [OF assms(1, 2) this(1, 2), of u] obtain fs l' where
    "tick_loop first call microtasks u ?l = Some (Ok (timer_heap l' \<noteq> [], l'))" "drained u ?l fs l'" by blast
  ultimately show ?thesis
    using u assms(5) by (intro exI [of _ u] exI [of _ fs] exI [of _ l']) (auto simp: tick_def drained_def)
qed

lemma idle_run:
  assumes "min_first first" "idle_scripts call microtasks" "0 \<le> pass" "keyed l" "one_shot l"
  shows "\<exists>fs l'. run_until_empty first call microtasks pass l = Some (Ok l') \<and> timer_heap l' = [] \<and> keyed l' \<and> fired l' = fired l @ fs \<and>
    mset (map fst fs) = mset (live l) \<and> sorted (map (deadline \<circ> fst) fs)"
  using assms(4, 5)
proof (induction "2 * length (timer_heap l) + (if timer_heap l \<noteq> [] \<and> clock l < deadline (first (timer_heap l)) then 1 else 0)"
    arbitrary: l rule: less_induct)
  case less
  from idle_tick [OF assms(1, 2) less.prems assms(3)] obtain now fs l1 where now: "clock l \<le> now" "now \<le> clock l1"
    and tick: "tick first call microtasks pass l = Some (Ok (timer_heap l1 \<noteq> [], l1))" and dr: "drained now l fs l1" by blast
  show ?case
  proof (cases "timer_heap l1 = []")
    case True
    then have "run_until_empty first call microtasks pass l = Some (Ok l1)" using tick by (subst run_until_empty.simps) simp
    moreover have "live l1 = []" using True by (simp add: live_def)
    ultimately show ?thesis using dr True by (auto simp: drained_def)
  next
    case False
    let ?l = "wait_for_next first l1"
    have w: "timer_heap ?l = timer_heap l1" "timer_map ?l = timer_map l1" "fired ?l = fired l1" "deadline (first (timer_heap l1)) \<le> clock ?l" "clock l1 \<le> clock ?l"
      using False by (auto simp: wait_for_next_def Let_def)
    then have l: "keyed ?l" "one_shot ?l" "live ?l = live l1"
      using dr unfolding drained_def keyed_def one_shot_def live_def map_ids_def heap_ids_def w(1, 2) by blast+
    have run: "run_until_empty first call microtasks pass l = run_until_empty first call microtasks pass ?l"
      using tick False by (subst run_until_empty.simps) simp
    have "timer_heap l \<noteq> []" using dr False by (auto simp: drained_def)
    have "length (timer_heap l1) < length (timer_heap l) \<or> clock l < deadline (first (timer_heap l))"
      by (rule drained_progress [OF dr less.prems(1) now(1) assms(1)]) fact
    then have "2 * length (timer_heap ?l) + (if timer_heap ?l \<noteq> [] \<and> clock ?l < deadline (first (timer_heap ?l)) then 1 else 0)
      < 2 * length (timer_heap l) + (if timer_heap l \<noteq> [] \<and> clock l < deadline (first (timer_heap l)) then 1 else 0)"
      using w dr \<open>timer_heap l \<noteq> []\<close> by (auto simp: drained_def)
    from less.hyps [OF this l(1, 2)] obtain fs' l' where rest: "run_until_empty first call microtasks pass ?l = Some (Ok l')" "timer_heap l' = []" "keyed l'"
      "fired l' = fired ?l @ fs'" "mset (map fst fs') = mset (live ?l)" "sorted (map (deadline \<circ> fst) fs')" by blast
    have "sorted (map (deadline \<circ> fst) (fs @ fs'))"
      by (rule drained_sorted [OF dr rest(5) [unfolded l(3)] rest(6)])
    moreover have "mset (map fst (fs @ fs')) = mset (live l)" "fired l' = fired l @ (fs @ fs')"
      using dr rest(4, 5) l(3) w(3) by (simp_all add: drained_def)
    ultimately show ?thesis using run rest(1-3) by metis
  qed
qed


text \<open>A reset gives the runtime the context that \<open>host_globals\<close> makes and drops every timer; the constructor has the effect of a reset,
  and its warning does not depend on the environment.\<close>

lemma reset_context_parts:
  "event_loop (reset_context r) = clear_all (event_loop r)"
  "ctx (reset_context r) = Some (fst (run_state host_globals (isolate r)))"
  "isolate (reset_context r) = snd (run_state host_globals (isolate r))"
  "br_env (reset_context r) = br_env r"
  by (simp_all add: reset_context_def host_globals_def Let_def split_beta)

lemma reset_context_inv: "loop_inv {} (event_loop r) \<Longrightarrow> loop_inv {} (event_loop (reset_context r))"
  unfolding reset_context_parts by (rule js_step_inv [OF js_clear])

lemma Runtime_new_warns: "(LWarn, ''Browser Env not set'') \<in> set (runtime_log (Runtime_new v8 now env))" "br_env (Runtime_new v8 now env) = env"
  by (simp_all add: Runtime_new_def reset_context_def Let_def split_beta)

lemma loop_inv_keyed: "loop_inv {} l \<Longrightarrow> keyed l"
  by (auto simp: keyed_def dest: loop_invD(2, 3))


lemma idle_waiting:
  assumes "0 \<le> d"
  shows "idle_scripts (\<lambda>_ l. l\<lparr>clock := clock l + d\<rparr>) (\<lambda>l. l)"
  unfolding idle_scripts_def
proof (intro conjI allI)
  show "\<exists>u\<ge>clock l. l\<lparr>clock := clock l + d\<rparr> = l\<lparr>clock := u\<rparr>" for t :: "('f, 'v) timer_task" and l :: "('f, 'v) EventLoop"
    by (rule exI [of _ "clock l + d"]) (use assms in simp)
  show "\<exists>u\<ge>clock l. l = l\<lparr>clock := u\<rparr>" for l :: "('f, 'v) EventLoop"
    by (rule exI [of _ "clock l"]) simp
qed

text \<open>Two timeouts of 2 and 1 ms, of which a callback takes a millisecond.\<close>

definition sample_script :: "unit \<Rightarrow> BrEnv option \<Rightarrow> (nat, unit) EventLoop \<Rightarrow> string option option \<times> (nat, unit) EventLoop" where
  "sample_script p env l = (case set_timeout 0 2 [] l of
      Ok (_, l) \<Rightarrow> (case set_timeout 1 1 [] l of Ok (_, l) \<Rightarrow> (None, l) | _ \<Rightarrow> (Some None, l))
    | _ \<Rightarrow> (Some None, l))"

definition sample_runtime :: "(nat, unit) Runtime" where
  "sample_runtime = Runtime_new (blank 0) 0 None"


lemma js_cpp_delay_Promise:
  assumes "js_cpp_delay v8 boolean_value new_resolver info (Some l) = Ok (Promise p, Some l1)"
  obtains i where "schedule (Native (Inr \<lparr>resolver = p, should_resolve = (if 1 < length info then boolean_value (info ! 1) else True)\<rparr>))
    (parse_delay v8 info 0) False l = Ok (i, l1)"
  using assms by (auto simp: js_cpp_delay_def set_timeout_task_def Let_def split: option.splits outcome.splits prod.splits)

lemma scheduled_live:
  assumes "schedule t ms False l = Ok (i, l1)" "loop_inv {} l" "one_shot l"
  shows "loop_inv {} l1" "one_shot l1" "fired l1 = fired l"
    "filter (\<lambda>k. key_id k = i) (live l1) = [\<lparr>deadline = clock l + max 0 ms * 1000000, key_id = i\<rparr>]"
    "map_of (timer_map l1) i = Some \<lparr>task = t, is_interval = False, interval_ms = max 0 ms\<rparr>"
proof -
  note fresh = loop_inv_fresh [OF assms(2)]
  note l1 = schedule_Ok [OF assms(1) fresh(3)]
  show "loop_inv {} l1" by (rule schedule_inv [OF assms(1, 2)])
  show "one_shot l1" "fired l1 = fired l" using l1 assms(3) by (auto simp: one_shot_def)
  show "map_of (timer_map l1) i = Some \<lparr>task = t, is_interval = False, interval_ms = max 0 ms\<rparr>"
    using l1 fresh(3) by (simp add: map_add_def)
  have "\<forall>k\<in>set (timer_heap l). key_id k \<noteq> i"
    using conjunct1 [OF l1] fresh(1) by (force simp: heap_ids_def)
  then show "filter (\<lambda>k. key_id k = i) (live l1) = [\<lparr>deadline = clock l + max 0 ms * 1000000, key_id = i\<rparr>]"
    using l1 by (auto simp: live_def map_ids_def filter_empty_conv)
qed


text \<open>A delay of 5 ms whose promise is rejected, on an empty loop. The values are integers, of which 0 is false.\<close>

definition delay_loop :: "(int + cpp_delay_task, int) EventLoop" where
  "delay_loop = \<lparr>next_id = 1, timer_heap = [], timer_map = [], clock = 0, fired = []\<rparr>"


end
