(* ===== verification/Spec2Isabelle.thy ===== *)
theory Spec2Isabelle
  imports Util Binary_Util Pptls Url Http_Types Session_Pool Wakeup Buffers Ops Net Tls Tls_Connect Any_Stream Event_Loop Http1 Http2 Http_Server
    Http_Exchange Tasks Handles Ring_Life Thread_Pool Diagnostics Builtins Js_Runtime
begin

text \<open>
  Verification of ppnt, a set of C++ modules under \<open>src/\<close>: \<open>ppnt-common\<close> (errors, strings, Base64), \<open>ppnt-io\<close> (coroutines
  over io_uring, TCP and TLS streams, URLs), \<open>ppnt-http\<close> (an HTTP/1 and HTTP/2 client with a session pool, an HTTP/1 server) and
  \<open>ppnt-jr\<close> (a JavaScript runtime on V8 with timers and the globals of a browser).

  \<^bold>\<open>How the parts work together.\<close> A coroutine (\<open>task.ixx\<close>) that needs the kernel awaits an operation (\<open>ops.ixx\<close>). The operation puts a
  request in the submission ring of the driver (\<open>driver.cpp\<close>, over liburing); \<open>Ring::run_one\<close> takes completions and resumes the
  coroutines. Other threads, the thread pool among them, post handles to the driver through a queue and an eventfd. Streams (\<open>tcp_stream.ixx\<close>,
  \<open>ssl.ixx\<close>) are built from operations; the sessions (\<open>http1.ixx\<close>, \<open>http2.ixx\<close>, \<open>server.ixx\<close>) from streams and the parsers llhttp and
  nghttp2; the pool (\<open>session.cpp\<close>) lends sessions to requests. The TLS stream rewrites its first record (\<open>pptls.cpp\<close>). The JavaScript
  runtime creates a context with the builtins, runs a script and then its event loop.

  \<^bold>\<open>Conventions.\<close> Each operation is a function on the state it reads and changes, composed as the code composes it. \<open>ppnt_error + 'a\<close> is
  \<open>Result\<close>. \<open>outcome\<close> tells a normal end from a call of \<open>std::terminate\<close> and from undefined behaviour. A loop that might not end is a
  \<open>partial_function (option)\<close>, and that it returns is proved. Machine integers are words where their width matters. What is not under
  \<open>src/\<close> (the kernel, V8, BoringSSL, the name resolver) and the large parsers are parameters, with what is assumed of them as
  hypotheses; each theorem with hypotheses is applied to a concrete case.

  \<^bold>\<open>The theories.\<close>
  \<^item> \<open>Ppnt_Prelude\<close>: error codes, searching in strings, printing and reading numbers, injective maps from owners, and the locale of
    runs of events that the theorems on interleavings use.
  \<^item> \<open>Diagnostics\<close> (\<open>err.ixx\<close>, \<open>log.ixx\<close>, \<open>log.cpp\<close>): errors with their causes and the report that is printed of them; which lines
    are logged, and where.
  \<^item> \<open>Util\<close> (\<open>util.cpp\<close>): Base64 is RFC 4648 and decoding inverts encoding; comparison of names without case.
  \<^item> \<open>Binary_Util\<close> (\<open>binary_util.ixx\<close>): what is written in network order on a machine of either byte order is read back, and
    reads stay inside the buffer.
  \<^item> \<open>Pptls\<close> (\<open>pptls.cpp\<close>): the rewriting of a ClientHello refines a functional parser and printer, and its lengths are consistent.
  \<^item> \<open>Url\<close> (\<open>url.cpp\<close>): \<open>parse\<close> inverts \<open>href\<close>, parsed URLs are in normal form, the removal of dot segments refines the one on lists of
    segments, references are resolved against a base.
  \<^item> \<open>Http_Types\<close> (\<open>http_types/\<close>, \<open>session_key.ixx\<close>, \<open>proxy.ixx\<close>): a serialised request is parsed back by a parser of
    HTTP/1 messages; the order of session keys.
  \<^item> \<open>Session_Pool\<close> (\<open>session.cpp\<close>, \<open>client.cpp\<close>): requests interleaved at their suspension points never share an HTTP/1 session; what
    acquiring, releasing and closing do; the tunnel of a proxy.
  \<^item> \<open>Http_Exchange\<close> (\<open>response.ixx\<close>, \<open>session.ixx\<close>, \<open>client.cpp\<close>): the client, the pool and HTTP/1 sessions together, from requests to
    bodies: each request gets its response, and connections are used again as long as the host keeps them.
  \<^item> \<open>Ring_Buffer\<close>, \<open>Liburing\<close> (\<open>liburing.h\<close>, \<open>queue.c\<close>): ring indices that wrap around; the submission ring is a bounded queue.
  \<^item> \<open>Driver\<close> (\<open>driver.cpp\<close>): what a submission queues, with its timeout; a round of the driver handles each completion once.
  \<^item> \<open>Wakeup\<close> (\<open>Ring::post\<close>, \<open>Ring::run_external_tasks\<close>): in every interleaving with other threads, no posted handle is lost.
  \<^item> \<open>Buffers\<close> (\<open>setup_buffers\<close>, \<open>recycle_buffer\<close>): every buffer is with the kernel or with one reader, and buffers do not overlap.
  \<^item> \<open>Ops\<close> (\<open>ops.ixx\<close>): an awaited operation resumes its coroutine once, with its result; the ownership of buffers under moves.
  \<^item> \<open>Net\<close> (\<open>addr.cpp\<close>, \<open>tcp_stream.ixx\<close>, \<open>accept.cpp\<close>): whole buffers are written and read over short transfers; the accept loop gets
    every connection once.
  \<^item> \<open>Tls\<close> (\<open>ssl.ixx\<close>): ciphertext leaves and arrives in order in one operation, and with concurrent flushes only if they exclude each other.
  \<^item> \<open>Tls_Connect\<close> (\<open>ssl.ixx\<close>, \<open>pptls.ixx\<close>, the patch of \<open>s3_both.cc\<close>): contexts and connections with their specifications in a heap; in
    every history of streams the ClientHello that leaves is the rewritten one, and each object is freed once.
  \<^item> \<open>Any_Stream\<close> (\<open>any_stream.ixx\<close>): boxes of streams. What a closed stream does is a locale that the TCP and the TLS stream interpret, the
    latter through that of a stream over another.
  \<^item> \<open>Http1\<close>, \<open>Http_Server\<close> (\<open>http1.ixx\<close>, \<open>server.ixx\<close>): however a message is cut into reads, the session collects it. The collection of
    headers is a locale that both sessions interpret.
  \<^item> \<open>Http2\<close> (\<open>http2.ixx\<close>): the streams of a session under every order of callbacks, requests and the end of the driver: they do not
    influence each other, bodies are whole, the end of the driver wakes every waiting request; frames are written in order.
  \<^item> \<open>Tasks\<close> (\<open>task.ixx\<close>, \<open>runtime.ixx\<close>): coroutines as data; awaiting is calling, each frame is destroyed once; what a handle of a spawned
    task may do.
  \<^item> \<open>Handles\<close> (\<open>task.ixx\<close>): who owns the frame of a coroutine when tasks and join handles are moved, assigned, taken out and dropped.
  \<^item> \<open>Ring_Life\<close> (\<open>driver.cpp\<close>, \<open>runtime.ixx\<close>): what a ring takes and gives back, and which ring the operations of a thread use.
  \<^item> \<open>Thread_Pool\<close> (\<open>thread_pool.h\<close>, \<open>run_in_pool\<close>): in every interleaving of workers and enqueuers each task is run once and none is left
    behind; with \<open>Wakeup\<close>, the coroutines that await them are resumed.
  \<^item> \<open>Event_Loop\<close> (\<open>event_loop.ixx\<close>, \<open>timeout.cpp\<close>): a tick returns and calls what is due, in order, against any script.
  \<^item> \<open>Builtins\<close> (\<open>builtin/\<close>): the calls to V8 that build the globals, in the state monad, and the properties that result; the callbacks.
  \<^item> \<open>Js_Runtime\<close> (\<open>runtime.ixx\<close>): scripts with timeouts run to their end; the promise of \<open>cppDelay\<close>.

  \<^bold>\<open>Bounds.\<close> No theorem is limited to a bounded state: numbers of tasks, streams, timers, buffers and threads are arbitrary unless the code
  fixes them (512 buffers of 4096 bytes). A run of coroutines takes a
  number of steps, and the theorem shows that some number is enough; a run of the thread pool, of an HTTP/2 session or of spawned tasks is a
  given list of events, and the theorems hold for every list.

  This theory has the way of a request from the serialiser of the client to the session of the server.

  \<^bold>\<open>Not modelled.\<close> The wrappers of libc; compile-time helpers (\<open>traits.ixx\<close>, \<open>match.ixx\<close>); the test programs under \<open>bin/\<close>; the start and stop
  of pool threads; the coroutine type of the accept loop; \<open>drive\<close> of an HTTP/2 session, which nothing calls, and the wait for its driver
  when it is closed; the text of a response for display; destructors of the JavaScript runtime, which only release objects of V8. llhttp,
  nghttp2, BoringSSL and V8 are parameters: they are large libraries of their own, and the code relies on their documented interfaces only.
\<close>

section \<open>From the client to the server\<close>

text \<open>What llhttp tells of a request that was read by the reference parser, with the target in the pieces \<open>us\<close>.\<close>

definition tells_request :: "parsed_request \<Rightarrow> string list \<Rightarrow> h1_event list \<Rightarrow> bool" where
  "tells_request m us evs \<longleftrightarrow> us \<noteq> [] \<and> concat us = p_target m \<and>
     message_events (On_message_begin # map On_url us) (p_fields m) (p_body m) evs"

text \<open>C13: What a client sends, a server receives. However the bytes of a serialised request are cut into reads, and however the parser, which
  reads a request as the reference parser does, cuts the headers and the body, the session of the server gives the headers that the client
  sent, in their order, with the \<open>Host\<close> and \<open>Content-Length\<close> that were added, and the body; and the target as the path if the parser gave
  it in one piece.\<close>

theorem request_delivered:
  assumes "request_ok r" "concat cs = serialize_to_h1 native r" "\<forall>c\<in>set cs. c \<noteq> []"
    and "\<forall>m. p_request (concat cs) = Some m \<longrightarrow> (parse_chunks llexec (llreset p) cs = Some (evs, p') \<and> tells_request m us evs)"
  shows "\<exists>request rs1 ps1. receive_request llexec llreset name_of (map Inr cs @ rs) (p, s) = (Inr request, rs1, ps1) \<and>
    req_headers request = sent_headers r \<and> concat us = request_target r \<and> req_url request = set_path (last us) default_url \<and>
    fst (receive_body llexec rs1 ps1) = Inr (body_of r)"
proof -
  have m: "parse_chunks llexec (llreset p) cs = Some (evs, p')" "us \<noteq> []" "concat us = request_target r"
    "message_events (On_message_begin # map On_url us) (sent_headers r) (body_of r) evs"
    using assms(4) serialize_p_request [OF assms(1), of native] by (simp_all add: assms(2) tells_request_def)
  show ?thesis using request_run [where reset = llreset and p = p, OF m(4,2,1) assms(3), of name_of rs s] m(3) by blast
qed

text \<open>The reference parser as a parser of requests that arrive in one read.\<close>

definition reference_exec :: "unit llhttp" where
  "reference_exec p bs = (case p_request bs of
      None \<Rightarrow> (Some ''HPE_INVALID'', [], p)
    | Some m \<Rightarrow> (None, [On_message_begin, On_url (p_target m)] @
        concat (map (\<lambda>h. [On_header_field (hname h), On_header_value (hvalue h)]) (p_fields m)) @
        [On_headers_complete, On_body (p_body m), On_message_complete], p))"

lemma whole_headers:
  "\<forall>h\<in>set hs. hname h \<noteq> [] \<Longrightarrow> headers_events hs (concat (map (\<lambda>h. [On_header_field (hname h), On_header_value (hvalue h)]) hs))"
proof (induction hs)
  case (Cons h hs)
  have "header_events h [On_header_field (hname h), On_header_value (hvalue h)]"
    using Cons.prems unfolding header_events_def by (intro conjI exI [of _ "[hname h]"] exI [of _ "[hvalue h]"]) simp_all
  then show ?case using headers_cons Cons by fastforce
qed (simp add: headers_nil)

lemma reference_tells:
  assumes "p_request bs = Some m" "\<forall>h\<in>set (p_fields m). hname h \<noteq> []"
  shows "\<exists>evs. parse_chunks reference_exec () [bs] = Some (evs, ()) \<and> tells_request m [p_target m] evs"
proof -
  let ?hevs = "concat (map (\<lambda>h. [On_header_field (hname h), On_header_value (hvalue h)]) (p_fields m))"
  let ?evs = "[On_message_begin, On_url (p_target m)] @ ?hevs @ [On_headers_complete, On_body (p_body m), On_message_complete]"
  have "parse_chunks reference_exec () [bs] = Some (?evs, ())" using assms(1) by (simp add: reference_exec_def)
  moreover have "tells_request m [p_target m] ?evs" unfolding tells_request_def message_events_def
    using whole_headers [OF assms(2)]
    by (intro conjI exI [of _ ?hevs] exI [of _ "[p_body m]"]) simp_all
  ultimately show ?thesis by blast
qed

theorem request_delivered_witness:
  "\<exists>request rs1 ps1. receive_request reference_exec id (\<lambda>_. ''POST'') (map Inr [serialize_to_h1 little sample_request] @ []) ((), server_new) =
      (Inr request, rs1, ps1) \<and>
    req_headers request = sent_headers sample_request \<and> path_of (req_url request) = ''/a/b?q=/?'' \<and>
    fst (receive_body reference_exec rs1 ps1) = Inr [1, 2, 3]"
proof -
  have ok: "request_ok sample_request"
    by (simp add: request_ok_def sample_request_def default_request_def sample_url_def request_target_def header_ok_def free_of_def crlf_def)
  let ?bs = "serialize_to_h1 little sample_request"
  let ?m = "\<lparr>p_method = req_method sample_request, p_target = request_target sample_request, p_fields = sent_headers sample_request,
    p_body = body_of sample_request\<rparr>"
  have m: "p_request ?bs = Some ?m" by (rule serialize_p_request [OF ok])
  have "\<forall>h\<in>set (p_fields ?m). hname h \<noteq> []"
    by (simp add: sent_headers_def sample_request_def default_request_def)
  from reference_tells [OF m this] obtain evs where e: "parse_chunks reference_exec () [?bs] = Some (evs, ())"
    "tells_request ?m [request_target sample_request] evs" by auto
  have t: "request_target sample_request = ''/a/b?q=/?''" "body_of sample_request = [1, 2, 3]"
    by (simp_all add: request_target_def body_of_def sample_request_def default_request_def sample_url_def)
  have "?bs \<noteq> []"
  proof
    assume "?bs = []"
    then show False using m by (simp add: p_request_def split_line.simps)
  qed
  then have "\<exists>request rs1 ps1. receive_request reference_exec id (\<lambda>_. ''POST'') (map Inr [?bs] @ []) ((), server_new) = (Inr request, rs1, ps1) \<and>
    req_headers request = sent_headers sample_request \<and> concat [request_target sample_request] = request_target sample_request \<and>
    req_url request = set_path (last [request_target sample_request]) default_url \<and>
    fst (receive_body reference_exec rs1 ps1) = Inr (body_of sample_request)"
    using ok m e by (intro request_delivered [where native = little and p' = "()" and evs = evs]) simp_all
  then show ?thesis unfolding t by (auto simp: set_path_def)
qed

end
